(* ===== verification/Ovs_Prelude.thy ===== *)
theory Ovs_Prelude
  imports Main "HOL-Library.Word"
begin

text \<open>
  The shared vocabulary of the development: machine integers of the C code, the
  outcomes of code that can crash or fail to return, byte order on the little-endian
  hosts the switch runs on, and the lemmas about lists, options and words that more
  than one component uses.
\<close>

unbundle bit_operations_syntax

section \<open>Machine integers\<close>

type_synonym u8 = "8 word"
type_synonym u16 = "16 word"
type_synonym u32 = "32 word"
type_synonym u64 = "64 word"

text \<open>The network-byte-order types of \<^verbatim>\<open>include/openvswitch/types.h\<close>: the value a
  little-endian host reads when it loads the field.\<close>

type_synonym ovs_be16 = "16 word"
type_synonym ovs_be32 = "32 word"

section \<open>Outcomes of C code\<close>

text \<open>
  A C function that can dereference a null pointer, read memory it never set,
  divide by zero, fail an \<open>ovs_assert\<close>, touch freed memory or loop forever returns a
  value of \<open>fault + 'a\<close>: \<open>Inl\<close> names what went wrong first, \<open>Inr\<close> carries the
  result of a run that returned.
\<close>

datatype fault =
    Null_Deref
  | Wild_Pointer
  | Uninit_Read
  | Div_By_Zero
  | Assert_Fail
  | Use_After_Free
  | No_Return

type_synonym 'a result = "fault + 'a"

definition rbind :: "'a result \<Rightarrow> ('a \<Rightarrow> 'b result) \<Rightarrow> 'b result" where
  "rbind r f = (case r of Inl e \<Rightarrow> Inl e | Inr x \<Rightarrow> f x)"

definition of_option :: "fault \<Rightarrow> 'a option \<Rightarrow> 'a result" where
  "of_option e x = (case x of None \<Rightarrow> Inl e | Some y \<Rightarrow> Inr y)"

lemma rbind_simps [simp]:
  "rbind (Inl e) f = Inl e"
  "rbind (Inr x) f = f x"
  by (simp_all add: rbind_def)

lemma rbind_eq_Inr:
  "rbind r f = Inr y \<longleftrightarrow> (\<exists>x. r = Inr x \<and> f x = Inr y)"
  by (cases r) auto

lemma of_option_simps [simp]:
  "of_option e None = Inl e"
  "of_option e (Some x) = Inr x"
  by (simp_all add: of_option_def)

lemma of_option_eq_Inr [simp]: "of_option e x = Inr y \<longleftrightarrow> x = Some y"
  by (cases x) auto

section \<open>Searching an array\<close>

text \<open>The loop \<^verbatim>\<open>for (i = 0; i < n; i++) if (P(a[i])) return i;\<close> that the C code writes
  out in many places: the first index that satisfies \<open>P\<close>.\<close>

fun first_slot :: "('s \<Rightarrow> bool) \<Rightarrow> 's list \<Rightarrow> nat option" where
  "first_slot P [] = None"
| "first_slot P (x # xs) = (if P x then Some 0 else map_option Suc (first_slot P xs))"

lemma first_slot_None [simp]: "first_slot P xs = None \<longleftrightarrow> (\<forall>x \<in> set xs. \<not> P x)"
  by (induction xs) auto

lemma first_slot_Some:
  "first_slot P xs = Some i \<longleftrightarrow> i < length xs \<and> P (xs ! i) \<and> (\<forall>j < i. \<not> P (xs ! j))"
proof (induction xs arbitrary: i)
  case Nil
  then show ?case by simp
next
  case (Cons x xs)
  show ?case
    by (cases i) (auto simp: Cons.IH less_Suc_eq_0_disj)
qed

lemma first_slot_SomeD:
  assumes "first_slot P xs = Some i"
  shows "i < length xs" and "P (xs ! i)" and "\<And>j. j < i \<Longrightarrow> \<not> P (xs ! j)"
  using assms by (simp_all add: first_slot_Some)

lemma first_slot_exists: "x \<in> set xs \<Longrightarrow> P x \<Longrightarrow> \<exists>i. first_slot P xs = Some i"
  by (cases "first_slot P xs") auto

section \<open>Counting up\<close>

lemma unat_Suc_below:
  fixes k m :: "'a :: len word"
  assumes "k < m"
  shows "unat (k + 1) = Suc (unat k)"
proof -
  have "Suc (unat k) \<le> unat m" using assms by (simp add: word_less_nat_alt)
  also have "unat m < 2 ^ LENGTH('a)" by (rule unsigned_less)
  finally show ?thesis by (simp add: unat_word_ariths)
qed

lemma unat_Suc_upto:
  fixes k m :: "'a :: len word"
  assumes "k \<le> m" and "m + 1 \<noteq> 0"
  shows "unat (k + 1) = Suc (unat k)"
proof (cases "k = m")
  case True
  then show ?thesis using assms(2) by (metis add.commute unatSuc)
next
  case False
  then show ?thesis using assms(1) by (intro unat_Suc_below[of k m]) auto
qed

section \<open>Collections the component proofs extend\<close>

named_theorems ovs_defs \<open>definitions that the component proofs unfold\<close>
named_theorems ovs_simps \<open>derived equations that drive the component proofs\<close>

end
