(* ===== verification/Ovs_Hash.thy ===== *)
theory Ovs_Hash
  imports Ovs_Prelude
begin

text \<open>
  The hash functions of \<^verbatim>\<open>lib/hash.h\<close> (the Murmur variant, which is the one compiled
  without SSE 4.2) and the xorshift generator of \<^verbatim>\<open>lib/random.c\<close>, both at their exact
  width.
\<close>

unbundle bit_operations_syntax

section \<open>lib/hash.h\<close>

definition hash_rot :: "u32 \<Rightarrow> nat \<Rightarrow> u32" where
  "hash_rot x k = push_bit k x OR drop_bit (32 - k) x"

definition mhash_add_word :: "u32 \<Rightarrow> u32 \<Rightarrow> u32" where
  "mhash_add_word hash data =
     (let data = data * 0xcc9e2d51;
          data = hash_rot data 15;
          data = data * 0x1b873593
      in hash XOR data)"

definition mhash_add :: "u32 \<Rightarrow> u32 \<Rightarrow> u32" where
  "mhash_add hash data =
     (let hash = mhash_add_word hash data;
          hash = hash_rot hash 13
      in hash * 5 + 0xe6546b64)"

definition mhash_finish :: "u32 \<Rightarrow> u32" where
  "mhash_finish hash =
     (let hash = hash XOR drop_bit 16 hash;
          hash = hash * 0x85ebca6b;
          hash = hash XOR drop_bit 13 hash;
          hash = hash * 0xc2b2ae35;
          hash = hash XOR drop_bit 16 hash
      in hash)"

definition hash_add :: "u32 \<Rightarrow> u32 \<Rightarrow> u32" where
  "hash_add hash data = mhash_add hash data"

definition hash_finish :: "u32 \<Rightarrow> u32 \<Rightarrow> u32" where
  "hash_finish hash final = mhash_finish (hash XOR final)"

definition hash_2words :: "u32 \<Rightarrow> u32 \<Rightarrow> u32" where
  "hash_2words x y = hash_finish (hash_add (hash_add x 0) y) 8"

definition hash_int :: "u32 \<Rightarrow> u32 \<Rightarrow> u32" where
  "hash_int x basis = hash_2words x basis"


definition hash_boolean :: "bool \<Rightarrow> u32 \<Rightarrow> u32" where
  "hash_boolean x basis =
     (let P0 = 0xc2b73583; P1 = 0xe90f1258
      in (if x then P0 else P1) XOR hash_rot basis 1)"

lemmas hash_defs =
  hash_rot_def mhash_add_word_def mhash_add_def mhash_finish_def hash_add_def
  hash_finish_def hash_2words_def hash_int_def hash_boolean_def

section \<open>lib/random.c\<close>

text \<open>The generator's state is the per-thread \<open>seed\<close>; each call returns the new seed
  as the random value. \<open>random_init\<close> guarantees a seed different from zero before the
  first call.\<close>

definition random_next :: "u32 \<Rightarrow> u32 \<times> u32" where
  "random_next seed =
     (let seed = seed XOR push_bit 13 seed;
          seed = seed XOR drop_bit 17 seed;
          seed = seed XOR push_bit 5 seed
      in (seed, seed))"

definition random_uint32 :: "u32 \<Rightarrow> u32 \<times> u32" where
  "random_uint32 seed = random_next seed"

section \<open>Invertibility of the mixing steps\<close>

text \<open>Every mixing step is a permutation of the 32-bit words: a shift xored into the
  word is undone by the finite sum of its iterates, and the multipliers are odd.\<close>

lemma xor_drop_16_inverse:
  fixes x :: u32
  defines "y \<equiv> x XOR drop_bit 16 x"
  shows "y XOR drop_bit 16 y = x"
  unfolding y_def by (rule bit_word_eqI) (auto simp: bit_simps)

lemma xor_drop_13_inverse:
  fixes x :: u32
  defines "y \<equiv> x XOR drop_bit 13 x"
  shows "y XOR drop_bit 13 y XOR drop_bit 26 y = x"
  unfolding y_def by (rule bit_word_eqI) (auto simp: bit_simps)

lemma xor_drop_17_inverse:
  fixes x :: u32
  defines "y \<equiv> x XOR drop_bit 17 x"
  shows "y XOR drop_bit 17 y = x"
  unfolding y_def by (rule bit_word_eqI) (auto simp: bit_simps)

lemma xor_push_13_inverse:
  fixes x :: u32
  defines "y \<equiv> x XOR push_bit 13 x"
  shows "y XOR push_bit 13 y XOR push_bit 26 y = x"
  unfolding y_def by (rule bit_word_eqI) (auto simp: bit_simps)

lemma xor_push_5_inverse:
  fixes x :: u32
  defines "y \<equiv> x XOR push_bit 5 x"
  shows "y XOR push_bit 5 y XOR push_bit 10 y XOR push_bit 15 y
           XOR push_bit 20 y XOR push_bit 25 y XOR push_bit 30 y = x"
  unfolding y_def by (rule bit_word_eqI) (auto simp: bit_simps)

lemma mult_odd_inject:
  fixes x y c d :: u32
  assumes "c * x = c * y" and "d * c = 1"
  shows "x = y"
proof -
  from assms(1) have "d * c * x = d * c * y"
    by (simp add: mult.assoc)
  with assms(2) show ?thesis by simp
qed

lemma inj_mhash_finish: "inj mhash_finish"
proof (rule injI)
  fix x y :: u32
  assume eq: "mhash_finish x = mhash_finish y"
  define s1 where "s1 = (\<lambda>h::u32. h XOR drop_bit 16 h)"
  define s2 where "s2 = (\<lambda>h::u32. h XOR drop_bit 13 h)"
  have s1: "s1 a = s1 b \<Longrightarrow> a = b" for a b
    using xor_drop_16_inverse[of a] xor_drop_16_inverse[of b] by (simp add: s1_def)
  have s2: "s2 a = s2 b \<Longrightarrow> a = b" for a b
    using xor_drop_13_inverse[of a] xor_drop_13_inverse[of b] by (simp add: s2_def)
  have m1: "a = b" if "a * 0x85ebca6b = b * (0x85ebca6b :: u32)" for a b
    by (rule mult_odd_inject [where c = "0x85ebca6b" and d = "0xa5cb9243"])
      (use that in \<open>simp_all add: mult.commute\<close>)
  have m2: "a = b" if "a * 0xc2b2ae35 = b * (0xc2b2ae35 :: u32)" for a b
    by (rule mult_odd_inject [where c = "0xc2b2ae35" and d = "0x7ed1b41d"])
      (use that in \<open>simp_all add: mult.commute\<close>)
  from eq have "s1 (s2 (s1 x * 0x85ebca6b) * 0xc2b2ae35) = s1 (s2 (s1 y * 0x85ebca6b) * 0xc2b2ae35)"
    by (simp add: mhash_finish_def s1_def s2_def Let_def)
  then show "x = y"
    by (auto dest!: s1 m2 s2 m1)
qed

lemma inj_random_next: "inj random_next"
proof (rule injI)
  fix x y :: u32
  assume eq: "random_next x = random_next y"
  define a where "a = (\<lambda>s::u32. s XOR push_bit 13 s)"
  define b where "b = (\<lambda>s::u32. s XOR drop_bit 17 s)"
  define c where "c = (\<lambda>s::u32. s XOR push_bit 5 s)"
  have ia: "a s = a t \<Longrightarrow> s = t" for s t
    using xor_push_13_inverse[of s] xor_push_13_inverse[of t] by (simp add: a_def)
  have ib: "b s = b t \<Longrightarrow> s = t" for s t
    using xor_drop_17_inverse[of s] xor_drop_17_inverse[of t] by (simp add: b_def)
  have ic: "c s = c t \<Longrightarrow> s = t" for s t
    using xor_push_5_inverse[of s] xor_push_5_inverse[of t] by (simp add: c_def)
  from eq have "c (b (a x)) = c (b (a y))"
    by (simp add: random_next_def a_def b_def c_def Let_def)
  then show "x = y"
    by (auto dest!: ia ib ic)
qed

text \<open>A generator that was seeded keeps a seed different from zero for ever: zero is a
  fixed point of the permutation, so no other seed reaches it.\<close>

lemma random_next_nonzero: "seed \<noteq> 0 \<Longrightarrow> fst (random_next seed) \<noteq> 0"
proof
  assume nz: "seed \<noteq> 0" and z: "fst (random_next seed) = 0"
  have same: "fst (random_next s) = snd (random_next s)" for s
    by (simp add: random_next_def Let_def)
  have "random_next 0 = (0, 0)"
    by (simp add: random_next_def)
  with z same[of seed] have "random_next seed = random_next 0"
    by (simp add: prod_eq_iff)
  with inj_random_next have "seed = 0"
    by (rule injD)
  with nz show False ..
qed

text \<open>For a fixed basis \<open>hash_int\<close> is a permutation: different keys never share a hash.\<close>

lemma bit_hash_rot:
  assumes "m < 32" and "0 < k" and "k < 32"
  shows "bit (hash_rot y k) m \<longleftrightarrow> (if k \<le> m then bit y (m - k) else bit y (m + (32 - k)))"
  using assms by (auto simp: hash_rot_def bit_simps add.commute dest: bit_imp_le_length)

lemma hash_rot_13_inverse: "hash_rot (hash_rot x 13) 19 = x"
proof (rule bit_word_eqI)
  fix n :: nat
  assume "n < LENGTH(32)"
  then have n: "n < 32" by simp
  show "bit (hash_rot (hash_rot x 13) 19) n \<longleftrightarrow> bit x n"
  proof (cases "19 \<le> n")
    case True
    then have "\<not> 13 \<le> n - 19" "n - 19 + 19 = n" using n by auto
    with True n show ?thesis by (simp add: bit_hash_rot)
  next
    case False
    with n show ?thesis by (simp add: bit_hash_rot)
  qed
qed

lemma xor_right_inject: "(a :: u32) XOR c = b XOR c \<Longrightarrow> a = b"
proof -
  assume "a XOR c = b XOR c"
  then have "(a XOR c) XOR c = (b XOR c) XOR c" by (rule arg_cong)
  then show "a = b" by (simp only: xor.assoc xor_self_eq xor.right_neutral)
qed

lemma mhash_add_inject: "mhash_add a d = mhash_add b d \<Longrightarrow> a = b"
proof -
  assume "mhash_add a d = mhash_add b d"
  then have "hash_rot (mhash_add_word a d) 13 * 5 = hash_rot (mhash_add_word b d) 13 * 5"
    unfolding mhash_add_def Let_def by (rule add_right_imp_eq)
  then have "5 * hash_rot (mhash_add_word a d) 13 = 5 * hash_rot (mhash_add_word b d) 13"
    by (simp only: mult.commute)
  then have "hash_rot (mhash_add_word a d) 13 = hash_rot (mhash_add_word b d) 13"
    by (rule mult_odd_inject [where d = "0xcccccccd"]) simp
  from arg_cong[OF this, of "\<lambda>z. hash_rot z 19"] have "mhash_add_word a d = mhash_add_word b d"
    by (simp only: hash_rot_13_inverse)
  then show "a = b"
    unfolding mhash_add_word_def Let_def by (rule xor_right_inject)
qed

lemma inj_hash_int: "inj (\<lambda>x. hash_int x basis)"
proof (rule injI)
  fix x y
  assume "hash_int x basis = hash_int y basis"
  then have "mhash_finish (mhash_add (mhash_add x 0) basis XOR 8) =
      mhash_finish (mhash_add (mhash_add y 0) basis XOR 8)"
    by (simp add: hash_int_def hash_2words_def hash_finish_def hash_add_def)
  then have "mhash_add (mhash_add x 0) basis XOR 8 = mhash_add (mhash_add y 0) basis XOR 8"
    by (rule injD[OF inj_mhash_finish])
  then have "mhash_add (mhash_add x 0) basis = mhash_add (mhash_add y 0) basis"
    by (rule xor_right_inject)
  then show "x = y" by (blast dest: mhash_add_inject)
qed

end
