(* ===== verification/Ovs_Bits.thy ===== *)
theory Ovs_Bits
  imports Ovs_Prelude
begin

text \<open>
  The bit-searching functions of \<^verbatim>\<open>lib/util.c\<close>, \<^verbatim>\<open>lib/util.h\<close> and the loop over the 1-bits of a map of
  \<^verbatim>\<open>lib/bitmap.h\<close>. \<open>raw_ctz\<close> and \<open>raw_clz64\<close> are the portable binary searches; they find the lowest and
  the highest 1-bit, which is also what the compiler's builtins are documented to do.
\<close>

unbundle bit_operations_syntax

section \<open>Searching for a 1-bit\<close>

definition ctz_step :: "nat \<Rightarrow> u64 \<times> int \<Rightarrow> u64 \<times> int" where
  "ctz_step x = (\<lambda>(n, count). let k = push_bit x n in if k \<noteq> 0 then (k, count - int x) else (n, count))"

definition raw_ctz :: "u64 \<Rightarrow> int" where
  "raw_ctz n = snd (fold ctz_step [32, 16, 8, 4, 2, 1] (n, 63))"

definition clz_step :: "nat \<Rightarrow> u64 \<times> int \<Rightarrow> u64 \<times> int" where
  "clz_step x = (\<lambda>(n, count). let k = drop_bit x n in if k \<noteq> 0 then (k, count - int x) else (n, count))"

definition raw_clz64 :: "u64 \<Rightarrow> int" where
  "raw_clz64 n = snd (fold clz_step [32, 16, 8, 4, 2, 1] (n, 63))"

definition ctz32 :: "u32 \<Rightarrow> int" where
  "ctz32 n = (if n \<noteq> 0 then raw_ctz (ucast n) else 32)"

definition ctz64 :: "u64 \<Rightarrow> int" where
  "ctz64 n = (if n \<noteq> 0 then raw_ctz n else 64)"

definition clz32 :: "u32 \<Rightarrow> int" where
  "clz32 n = (if n \<noteq> 0 then raw_clz64 (ucast n) - 32 else 32)"

definition clz64 :: "u64 \<Rightarrow> int" where
  "clz64 n = (if n \<noteq> 0 then raw_clz64 n else 64)"

definition log_2_floor :: "u64 \<Rightarrow> int" where
  "log_2_floor n = 63 - raw_clz64 n"

definition is_pow2 :: "u64 \<Rightarrow> bool" where
  "is_pow2 x \<longleftrightarrow> x \<noteq> 0 \<and> x AND (x - 1) = 0"

definition log_2_ceil :: "u64 \<Rightarrow> int" where
  "log_2_ceil n = log_2_floor n + (if is_pow2 n then 0 else 1)"

definition rightmost_1bit :: "u64 \<Rightarrow> u64" where
  "rightmost_1bit x = x AND (- x)"

definition zero_rightmost_1bit :: "u64 \<Rightarrow> u64" where
  "zero_rightmost_1bit x = x AND (x - 1)"

definition rightmost_1bit_idx :: "u64 \<Rightarrow> int" where
  "rightmost_1bit_idx x = ctz64 x"

definition leftmost_1bit_idx :: "u64 \<Rightarrow> u32" where
  "leftmost_1bit_idx x = of_int (log_2_floor x)"

section \<open>Maps of 64 bits\<close>

definition ULLONG_SET0 :: "u64 \<Rightarrow> nat \<Rightarrow> u64" where
  "ULLONG_SET0 mp offset = mp AND NOT (push_bit offset 1)"

definition ULLONG_SET1 :: "u64 \<Rightarrow> nat \<Rightarrow> u64" where
  "ULLONG_SET1 mp offset = mp OR push_bit offset 1"

definition ULLONG_GET :: "u64 \<Rightarrow> nat \<Rightarrow> bool" where
  "ULLONG_GET mp offset \<longleftrightarrow> mp AND push_bit offset 1 \<noteq> 0"

lemma zero_rightmost_1bit_less: "x \<noteq> 0 \<Longrightarrow> zero_rightmost_1bit x < x"
proof -
  assume "x \<noteq> 0"
  then have "x - 1 < x" by (simp add: word_less_nat_alt unat_gt_0 unat_minus_one)
  moreover have "x AND (x - 1) \<le> x - 1" by (simp add: word_and_le1)
  ultimately show ?thesis by (simp add: zero_rightmost_1bit_def)
qed

text \<open>The values of the loop variable of \<^verbatim>\<open>ULLONG_FOR_EACH_1\<close>.\<close>

function ullong_idxs :: "u64 \<Rightarrow> nat list" where
  "ullong_idxs mp = (if mp \<noteq> 0 then nat (raw_ctz mp) # ullong_idxs (zero_rightmost_1bit mp) else [])"
  by pat_completeness auto
termination by (relation "measure unat") (auto simp: zero_rightmost_1bit_less simp flip: word_less_nat_alt)

declare ullong_idxs.simps [simp del]

section \<open>What they find\<close>

definition lowest_bit :: "u64 \<Rightarrow> nat \<Rightarrow> bool" where
  "lowest_bit n l \<longleftrightarrow> bit n l \<and> (\<forall>i < l. \<not> bit n i)"

definition highest_bit :: "u64 \<Rightarrow> nat \<Rightarrow> bool" where
  "highest_bit n l \<longleftrightarrow> bit n l \<and> (\<forall>i > l. \<not> bit n i)"

lemma lowest_bit_exists:
  assumes "n \<noteq> 0"
  obtains l where "lowest_bit n l" "l < 64"
proof -
  have "\<exists>i. bit n i" using assms by (auto simp: bit_eq_iff)
  then have "bit n (LEAST i. bit n i)" by (rule LeastI_ex)
  then show thesis
    using bit_imp_le_length[of n] by (intro that[of "LEAST i. bit n i"]) (auto simp: lowest_bit_def dest: not_less_Least)
qed

lemma highest_bit_exists:
  assumes "n \<noteq> 0"
  obtains l where "highest_bit n l" "l < 64"
proof -
  have fin: "finite {i. bit n i}" by (rule finite_subset[of _ "{..<64}"]) (auto dest: bit_imp_le_length)
  moreover have "{i. bit n i} \<noteq> {}" using assms by (auto simp: bit_eq_iff)
  ultimately have "bit n (Max {i. bit n i})" using Max_in by blast
  then show thesis
    using Max_ge[OF fin] bit_imp_le_length[of n]
    by (intro that[of "Max {i. bit n i}"]) (force simp: highest_bit_def simp flip: not_less)+
qed

lemma ctz_step_inv:
  assumes n: "lowest_bit n l" "l < 64" and "63 - l < 2 * x"
  shows "\<exists>n' l'. ctz_step x (n, count) = (n', count + int l - int l') \<and> lowest_bit n' l' \<and> l' < 64 \<and> 63 - l' < x"
proof (cases "l + x < 64")
  case True
  then have l: "lowest_bit (push_bit x n) (l + x)" using n by (auto simp: lowest_bit_def bit_push_bit_iff)
  then have "push_bit x n \<noteq> 0" by (auto simp: lowest_bit_def)
  then have "ctz_step x (n, count) = (push_bit x n, count + int l - int (l + x))" by (simp add: ctz_step_def)
  with True l assms(3) show ?thesis by (intro exI[of _ "push_bit x n"] exI[of _ "l + x"]) auto
next
  case False
  have "\<not> bit (push_bit x n) i" for i
  proof
    assume "bit (push_bit x n) i"
    then have "bit n (i - x)" "x \<le> i" "i < 64" by (simp_all add: bit_push_bit_iff)
    with n(1) False show False by (auto simp: lowest_bit_def)
  qed
  then have "push_bit x n = 0" by (simp add: bit_eq_iff)
  then have "ctz_step x (n, count) = (n, count + int l - int l)" by (simp add: ctz_step_def)
  with n False show ?thesis by (intro exI[of _ n] exI[of _ l]) auto
qed

lemma clz_step_inv:
  assumes n: "highest_bit n l" and "l < 2 * x"
  shows "\<exists>n' l'. clz_step x (n, count) = (n', count - int l + int l') \<and> highest_bit n' l' \<and> l' < x"
proof (cases "x \<le> l")
  case True
  then have l: "highest_bit (drop_bit x n) (l - x)" using n by (auto simp: highest_bit_def bit_drop_bit_eq)
  then have "drop_bit x n \<noteq> 0" by (auto simp: highest_bit_def)
  then have "clz_step x (n, count) = (drop_bit x n, count - int l + int (l - x))"
    using True by (simp add: clz_step_def)
  with l assms(2) show ?thesis by (intro exI[of _ "drop_bit x n"] exI[of _ "l - x"]) auto
next
  case False
  have "drop_bit x n = 0" using n False by (auto simp: bit_eq_iff bit_drop_bit_eq highest_bit_def)
  then have "clz_step x (n, count) = (n, count - int l + int l)" by (simp add: clz_step_def)
  with n False show ?thesis by (intro exI[of _ n] exI[of _ l]) auto
qed

fun halving :: "nat list \<Rightarrow> nat \<Rightarrow> bool" where
  "halving [] x \<longleftrightarrow> x = 1"
| "halving (y # ys) x \<longleftrightarrow> x = 2 * y \<and> halving ys y"

lemma ctz_steps:
  "halving xs x \<Longrightarrow> lowest_bit n l \<Longrightarrow> l < 64 \<Longrightarrow> 63 - l < x \<Longrightarrow>
     snd (fold ctz_step xs (n, count)) = count + int l - 63"
proof (induction xs arbitrary: x n l count)
  case (Cons y ys)
  from Cons.prems ctz_step_inv[of n l y count] obtain n' l' where
    "ctz_step y (n, count) = (n', count + int l - int l')" "lowest_bit n' l'" "l' < 64" "63 - l' < y" by auto
  with Cons.IH[of y n' l' "count + int l - int l'"] Cons.prems(1) show ?case by simp
qed auto

lemma clz_steps:
  "halving xs x \<Longrightarrow> highest_bit n l \<Longrightarrow> l < x \<Longrightarrow> snd (fold clz_step xs (n, count)) = count - int l"
proof (induction xs arbitrary: x n l count)
  case (Cons y ys)
  from Cons.prems clz_step_inv[of n l y count] obtain n' l' where
    "clz_step y (n, count) = (n', count - int l + int l')" "highest_bit n' l'" "l' < y" by auto
  with Cons.IH[of y n' l' "count - int l + int l'"] Cons.prems(1) show ?case by simp
qed auto

lemma raw_ctz_lowest: "lowest_bit n l \<Longrightarrow> raw_ctz n = int l"
  unfolding raw_ctz_def
  by (subst ctz_steps[of _ 64 n l]) (auto simp: lowest_bit_def dest: bit_imp_le_length)

lemma raw_clz64_highest: "highest_bit n l \<Longrightarrow> raw_clz64 n = 63 - int l"
  unfolding raw_clz64_def
  by (subst clz_steps[of _ 64 n l]) (auto simp: highest_bit_def dest: bit_imp_le_length)

lemma log_2_floor_bounds:
  assumes "n \<noteq> 0"
  shows "\<exists>l. log_2_floor n = int l \<and> 2 ^ l \<le> unat n \<and> unat n < 2 ^ Suc l"
proof -
  from highest_bit_exists[OF assms] obtain l where l: "highest_bit n l" "l < 64" .
  have "drop_bit (Suc l) (unat n) = 0"
    using l(1) by (intro bit_eqI) (simp add: bit_drop_bit_eq bit_unsigned_iff highest_bit_def)
  then have "unat n < 2 ^ Suc l" by (simp add: drop_bit_eq_div div_eq_0_iff)
  moreover have "bit (drop_bit l (unat n)) 0" using l by (simp add: bit_drop_bit_eq bit_unsigned_iff highest_bit_def)
  then have "drop_bit l (unat n) \<noteq> 0" by (metis bit_0_eq bot_apply bot_bool_def)
  then have "2 ^ l \<le> unat n" by (simp add: drop_bit_eq_div div_eq_0_iff)
  ultimately show ?thesis using raw_clz64_highest[OF l(1)] by (auto simp: log_2_floor_def)
qed

text \<open>Clearing the lowest 1-bit: below it a number and its predecessor are complementary, above they agree.\<close>

lemma bit_zero_rightmost_1bit:
  assumes "lowest_bit x l"
  shows "bit (zero_rightmost_1bit x) i \<longleftrightarrow> bit x i \<and> i \<noteq> l"
proof -
  define y where "y = x AND NOT (mask (Suc l))"
  have l: "l < 64" using assms by (auto simp: lowest_bit_def dest: bit_imp_le_length)
  have y: "bit y i \<longleftrightarrow> bit x i \<and> l < i" for i
    using bit_imp_le_length[of x i] by (auto simp: y_def bit_simps)
  have "x = y OR push_bit l 1"
    using assms l by (intro bit_word_eqI) (auto simp: y bit_simps lowest_bit_def not_less_iff_gr_or_eq)
  also have "\<dots> = y + push_bit l 1"
    by (rule disjunctive_add_eq_or[symmetric], rule bit_word_eqI) (auto simp: y bit_simps)
  finally have "x - 1 = y + mask l" by (simp add: mask_eq_exp_minus_1)
  also have "\<dots> = y OR mask l"
    by (rule disjunctive_add_eq_or, rule bit_word_eqI) (auto simp: y bit_simps)
  finally have "x - 1 = y OR mask l" .
  then show ?thesis using assms l
    by (auto simp: zero_rightmost_1bit_def bit_simps y lowest_bit_def not_less_iff_gr_or_eq)
qed

lemma ullong_idxs_bits: "set (ullong_idxs mp) = {i. bit mp i} \<and> distinct (ullong_idxs mp)"
proof (induction mp rule: ullong_idxs.induct)
  case (1 mp)
  show ?case
  proof (cases "mp = 0")
    case False
    from lowest_bit_exists[OF this] obtain l where l: "lowest_bit mp l" .
    then have "bit mp l" by (simp add: lowest_bit_def)
    with 1[OF False] False show ?thesis
      by (auto simp: ullong_idxs.simps[of mp] raw_ctz_lowest[OF l] bit_zero_rightmost_1bit[OF l])
  qed (simp add: ullong_idxs.simps)
qed

lemma bit_ULLONG [simp]:
  "bit (ULLONG_SET0 mp k) i \<longleftrightarrow> bit mp i \<and> i \<noteq> k"
  "k < 64 \<Longrightarrow> bit (ULLONG_SET1 mp k) i \<longleftrightarrow> bit mp i \<or> i = k"
  using bit_imp_le_length[of mp i] by (auto simp: ULLONG_SET0_def ULLONG_SET1_def bit_simps)

lemma ULLONG_GET_bit [simp]: "ULLONG_GET mp k \<longleftrightarrow> bit mp k"
proof -
  have "bit (mp AND push_bit k 1) i \<longleftrightarrow> bit mp k \<and> i = k" for i
    using bit_imp_le_length[of mp k] by (auto simp: bit_simps)
  then show ?thesis by (metis ULLONG_GET_def bit_eqI bit_0_eq bot_apply bot_bool_def)
qed

section \<open>Powers of two\<close>

lemma nat_and_pred_pow2: "n \<noteq> 0 \<Longrightarrow> n AND (n - 1) = 0 \<Longrightarrow> \<exists>k. n = 2 ^ k" for n :: nat
proof (induction n rule: less_induct)
  case (less n)
  show ?case
  proof (cases "even n")
    case True
    then obtain m where m: "n = 2 * m" by (auto elim: evenE)
    with less.prems(1) have m0: "m \<noteq> 0" "m < n" by auto
    have "n - 1 = 2 * (m - 1) + 1" using m m0 by simp
    then have "n AND (n - 1) = 2 * (m AND (m - 1))"
      using m by (simp add: and_nat_rec[of "2 * m"])
    with less.prems(2) have "m AND (m - 1) = 0" by simp
    from less.IH[OF m0(2,1) this] obtain k where "m = 2 ^ k" by blast
    with m have "n = 2 ^ Suc k" by simp
    then show ?thesis ..
  next
    case False
    then obtain m where m: "n = 2 * m + 1" by (auto elim: oddE)
    then have "n AND (n - 1) = 2 * m" by (simp add: and_nat_rec[of "Suc (2 * m)"])
    with less.prems(2) m have "n = 2 ^ 0" by simp
    then show ?thesis ..
  qed
qed

lemma pow2_and_pred: "(2 ^ k :: nat) AND (2 ^ k - 1) = 0"
proof (induction k)
  case (Suc k)
  have "(2 :: nat) ^ Suc k - 1 = 2 * (2 ^ k - 1) + 1"
    using zero_less_power[of "2 :: nat" k] by (cases "2 ^ k :: nat") simp_all
  with Suc show ?case by (simp add: and_nat_rec[of "2 * 2 ^ k"])
qed simp

lemma is_pow2_unat: "is_pow2 x \<longleftrightarrow> (\<exists>k. unat x = 2 ^ k)"
proof (cases "x = 0")
  case False
  then have "unat (x AND (x - 1)) = unat x AND (unat x - 1)"
    by (simp add: unsigned_and_eq unat_minus_one)
  moreover from False have "unat x \<noteq> 0" by (simp add: unat_eq_0)
  ultimately have "is_pow2 x \<longleftrightarrow> unat x AND (unat x - 1) = 0"
    using False by (metis is_pow2_def unat_eq_0)
  then show ?thesis
    using nat_and_pred_pow2[of "unat x"] pow2_and_pred \<open>unat x \<noteq> 0\<close> by metis
qed (simp add: is_pow2_def)

end
