(* ===== verification/Cmap.thy ===== *)
theory Cmap
  imports Ovs_Hash Ovs_Bits
begin

text \<open>
  The concurrent cuckoo hash map of \<^verbatim>\<open>lib/cmap.c\<close>, as a single writer sees it: buckets
  of \<open>CMAP_K\<close> slots, two candidate buckets per client hash, chains of nodes with equal
  hash, the breadth-first search that makes room, and rehashing with a fresh random
  basis. A chain, which the C code links through \<^verbatim>\<open>cmap_node.next\<close>, is the list of its
  nodes; a null pointer is the empty list.
\<close>

unbundle bit_operations_syntax

section \<open>Data\<close>

text \<open>A bucket keeps \<^verbatim>\<open>hashes[i]\<close> and \<^verbatim>\<open>nodes[i]\<close> as parallel arrays; slot \<open>i\<close> of the
  model is the pair of both.\<close>

definition CMAP_K :: nat where
  "CMAP_K = 5"

record 'n cmap_bucket =
  cb_counter :: u32
  cb_slots :: "(u32 \<times> 'n list) list"

record 'n cmap_impl =
  ci_n :: u32
  ci_max_n :: u32
  ci_min_n :: u32
  ci_mask :: u32
  ci_basis :: u32
  ci_buckets :: "'n cmap_bucket list"

definition CMAP_MAX_LOAD :: u64 where
  "CMAP_MAX_LOAD = 3650722200"

definition CMAP_MIN_LOAD :: u64 where
  "CMAP_MIN_LOAD = 858993459"

section \<open>Hashing\<close>

definition other_hash :: "u32 \<Rightarrow> u32" where
  "other_hash hash = push_bit 16 hash OR drop_bit 16 hash"

definition rehash :: "'n cmap_impl \<Rightarrow> u32 \<Rightarrow> u32" where
  "rehash impl hash = hash_finish (ci_basis impl) hash"

definition bucket_idx :: "'n cmap_impl \<Rightarrow> u32 \<Rightarrow> nat" where
  "bucket_idx impl h = unat (h AND ci_mask impl)"

definition calc_max_n :: "u32 \<Rightarrow> u32" where
  "calc_max_n msk = ucast (drop_bit 32 (ucast (msk + 1) * of_nat CMAP_K * CMAP_MAX_LOAD))"

definition calc_min_n :: "u32 \<Rightarrow> u32" where
  "calc_min_n msk = ucast (drop_bit 32 (ucast (msk + 1) * of_nat CMAP_K * CMAP_MIN_LOAD))"

section \<open>Creation\<close>

text \<open>The all-zero buckets that \<open>xzalloc_cacheline\<close> and \<open>memset\<close> leave behind.\<close>

definition zero_buckets :: "nat \<Rightarrow> 'n cmap_bucket list" where
  "zero_buckets k = replicate k \<lparr>cb_counter = 0, cb_slots = replicate CMAP_K (0, [])\<rparr>"

definition cmap_impl_create :: "u32 \<Rightarrow> u32 \<Rightarrow> ('n cmap_impl \<times> u32) result" where
  "cmap_impl_create msk seed =
     (if \<not> is_pow2 (ucast (msk + 1)) then Inl Assert_Fail
      else (let (basis, seed) = random_uint32 seed
            in Inr (\<lparr>ci_n = 0, ci_max_n = calc_max_n msk, ci_min_n = calc_min_n msk,
                     ci_mask = msk, ci_basis = basis,
                     ci_buckets = zero_buckets (unat (msk + 1))\<rparr>, seed)))"

definition cmap_init :: "u32 \<Rightarrow> ('n cmap_impl \<times> u32) result" where
  "cmap_init seed = cmap_impl_create 0 seed"

definition cmap_count :: "'n cmap_impl \<Rightarrow> u32" where
  "cmap_count impl = ci_n impl"

definition cmap_is_empty :: "'n cmap_impl \<Rightarrow> bool" where
  "cmap_is_empty impl \<longleftrightarrow> cmap_count impl = 0"

definition cmap_infos :: "'n cmap_impl \<Rightarrow> u32 \<times> u32 \<times> u32" where
  "cmap_infos impl = (ci_n impl, ci_max_n impl, ci_mask impl)"

section \<open>Search\<close>

text \<open>\<open>read_even_counter\<close> spins until the counter is even: without a concurrent writer
  it returns at once or never (\<open>None\<close>). For the same reason \<open>counter_changed\<close> is
  false in \<open>cmap_find_buckets\<close> (\<^verbatim>\<open>cmap_find__\<close>) and each of its retry loops runs once.\<close>

definition read_even_counter :: "'n cmap_bucket \<Rightarrow> u32 option" where
  "read_even_counter b = (if cb_counter b AND 1 \<noteq> 0 then None else Some (cb_counter b))"

definition cmap_find_in_bucket :: "'n cmap_bucket \<Rightarrow> u32 \<Rightarrow> 'n list" where
  "cmap_find_in_bucket b hash =
     (case first_slot (\<lambda>s. fst s = hash) (cb_slots b) of
        None \<Rightarrow> []
      | Some i \<Rightarrow> snd (cb_slots b ! i))"

definition cmap_find_buckets :: "'n cmap_bucket \<Rightarrow> 'n cmap_bucket \<Rightarrow> u32 \<Rightarrow> 'n list option" where
  "cmap_find_buckets b1 b2 hash =
     (case read_even_counter b1 of
        None \<Rightarrow> None
      | Some c1 \<Rightarrow>
          if cmap_find_in_bucket b1 hash \<noteq> [] then Some (cmap_find_in_bucket b1 hash)
          else (case read_even_counter b2 of
                  None \<Rightarrow> None
                | Some c2 \<Rightarrow> Some (cmap_find_in_bucket b2 hash)))"

definition cmap_find :: "'n cmap_impl \<Rightarrow> u32 \<Rightarrow> 'n list option" where
  "cmap_find impl hash =
     (let h1 = rehash impl hash; h2 = other_hash h1
      in cmap_find_buckets (ci_buckets impl ! bucket_idx impl h1)
           (ci_buckets impl ! bucket_idx impl h2) hash)"

definition cmap_find_slot_protected :: "'n cmap_bucket \<Rightarrow> u32 \<Rightarrow> nat option" where
  "cmap_find_slot_protected b hash = first_slot (\<lambda>s. fst s = hash \<and> snd s \<noteq> []) (cb_slots b)"

definition cmap_find_bucket_protected :: "'n cmap_impl \<Rightarrow> u32 \<Rightarrow> u32 \<Rightarrow> 'n list" where
  "cmap_find_bucket_protected impl hash h =
     cmap_find_in_bucket (ci_buckets impl ! bucket_idx impl h) hash"

definition cmap_find_protected :: "'n cmap_impl \<Rightarrow> u32 \<Rightarrow> 'n list" where
  "cmap_find_protected impl hash =
     (let h1 = rehash impl hash; h2 = other_hash hash;
          node = cmap_find_bucket_protected impl hash h1
      in if node \<noteq> [] then node else cmap_find_bucket_protected impl hash h2)"

definition cmap_find_empty_slot_protected :: "'n cmap_bucket \<Rightarrow> nat option" where
  "cmap_find_empty_slot_protected b = first_slot (\<lambda>s. snd s = []) (cb_slots b)"

section \<open>Insertion\<close>

definition cmap_set_bucket :: "'n cmap_bucket \<Rightarrow> nat \<Rightarrow> 'n list \<Rightarrow> u32 \<Rightarrow> 'n cmap_bucket" where
  "cmap_set_bucket b i node hash =
     b\<lparr>cb_counter := cb_counter b + 2, cb_slots := (cb_slots b)[i := (hash, node)]\<rparr>"

definition put_bucket :: "'n cmap_impl \<Rightarrow> nat \<Rightarrow> 'n cmap_bucket \<Rightarrow> 'n cmap_impl" where
  "put_bucket impl k b = impl\<lparr>ci_buckets := (ci_buckets impl)[k := b]\<rparr>"

definition cmap_insert_dup :: "'n list \<Rightarrow> u32 \<Rightarrow> 'n cmap_bucket \<Rightarrow> 'n cmap_bucket option" where
  "cmap_insert_dup new_node hash b =
     (case first_slot (\<lambda>s. fst s = hash) (cb_slots b) of
        None \<Rightarrow> None
      | Some i \<Rightarrow> Some (b\<lparr>cb_slots := (cb_slots b)[i := (hash, new_node @ snd (cb_slots b ! i))]\<rparr>))"

definition cmap_insert_bucket :: "'n list \<Rightarrow> u32 \<Rightarrow> 'n cmap_bucket \<Rightarrow> 'n cmap_bucket option" where
  "cmap_insert_bucket node hash b =
     (case cmap_find_empty_slot_protected b of
        None \<Rightarrow> None
      | Some i \<Rightarrow> Some (cmap_set_bucket b i node hash))"

definition other_bucket_protected :: "'n cmap_impl \<Rightarrow> nat \<Rightarrow> nat \<Rightarrow> nat" where
  "other_bucket_protected impl b slot =
     (let h1 = rehash impl (fst (cb_slots (ci_buckets impl ! b) ! slot));
          h2 = other_hash h1;
          other_h = (if bucket_idx impl h1 = b then h2 else h1)
      in bucket_idx impl other_h)"

text \<open>A path of the breadth-first search; \<open>n\<close> is the length of \<open>cp_slots\<close>.\<close>

record cmap_path =
  cp_start :: nat
  cp_end :: nat
  cp_slots :: "nat list"

definition MAX_DEPTH :: nat where
  "MAX_DEPTH = 4"

definition MAX_QUEUE :: nat where
  "MAX_QUEUE = 500"

text \<open>The inner \<^verbatim>\<open>for\<close> loop over the slots of \<^verbatim>\<open>path->end\<close>: it stops at the first slot whose
  other bucket has room (\<open>Inr (i, j)\<close>) or extends the queue with the longer paths.\<close>

primrec bfs_slots :: "'n cmap_impl \<Rightarrow> cmap_path \<Rightarrow> nat list \<Rightarrow> cmap_path list
    \<Rightarrow> cmap_path list + (nat \<times> nat)" where
  "bfs_slots impl path [] queue = Inl queue"
| "bfs_slots impl path (i # ss) queue =
     (let this = cp_end path; next = other_bucket_protected impl this i
      in if this = next then bfs_slots impl path ss queue
         else case cmap_find_empty_slot_protected (ci_buckets impl ! next) of
                Some j \<Rightarrow> Inr (i, j)
              | None \<Rightarrow>
                  if length (cp_slots path) < MAX_DEPTH \<and> length queue < MAX_QUEUE
                  then bfs_slots impl path ss
                         (queue @ [path\<lparr>cp_end := next, cp_slots := cp_slots path @ [i]\<rparr>])
                  else bfs_slots impl path ss queue)"

text \<open>The outer \<^verbatim>\<open>while (tail < head)\<close> loop; \<open>head\<close> is the length of the queue. The result
  is the path found, the slot it leaves through and the empty slot it arrives at.\<close>

lemma bfs_slots_length:
  "bfs_slots impl path ss queue = Inl queue' \<Longrightarrow>
     max (length queue') MAX_QUEUE = max (length queue) MAX_QUEUE"
proof (induction ss arbitrary: queue)
  case Nil
  then show ?case by simp
next
  case (Cons i ss)
  then show ?case
    by (auto simp: Let_def dest!: Cons.IH split: if_splits option.splits)
qed

function bfs_search :: "'n cmap_impl \<Rightarrow> cmap_path list \<Rightarrow> nat
    \<Rightarrow> (cmap_path \<times> nat \<times> nat) option" where
  "bfs_search impl queue tail =
     (if tail < length queue
      then case bfs_slots impl (queue ! tail) [0..<CMAP_K] queue of
             Inr (i, j) \<Rightarrow> Some (queue ! tail, i, j)
           | Inl queue' \<Rightarrow> bfs_search impl queue' (Suc tail)
      else None)"
  by pat_completeness auto
termination
proof (relation "measure (\<lambda>(impl, queue, tail). max (length queue) MAX_QUEUE - tail)", goal_cases)
  case 1
  then show ?case by simp
next
  case (2 impl queue tail queue')
  from bfs_slots_length[OF 2(2)] 2(1) show ?case by auto
qed

declare bfs_search.simps [simp del]

definition bfs_start :: "nat \<Rightarrow> nat \<Rightarrow> cmap_path list" where
  "bfs_start b1 b2 =
     \<lparr>cp_start = b1, cp_end = b1, cp_slots = []\<rparr> #
     (if b1 \<noteq> b2 then [\<lparr>cp_start = b2, cp_end = b2, cp_slots = []\<rparr>] else [])"

text \<open>The sequence of buckets a list of slots leads through.\<close>

fun path_buckets :: "'n cmap_impl \<Rightarrow> nat \<Rightarrow> nat list \<Rightarrow> nat list" where
  "path_buckets impl b [] = [b]"
| "path_buckets impl b (s # ss) = b # path_buckets impl (other_bucket_protected impl b s) ss"

text \<open>Moving the nodes across the path backward: the list holds the positions
  \<open>(buckets[k], slots[k])\<close> from the last to the first.\<close>

definition move_node :: "'n cmap_impl \<Rightarrow> nat \<times> nat \<Rightarrow> nat \<times> nat \<Rightarrow> 'n cmap_impl" where
  "move_node impl dst src =
     (let (h, node) = cb_slots (ci_buckets impl ! fst src) ! snd src
      in put_bucket impl (fst dst)
           (cmap_set_bucket (ci_buckets impl ! fst dst) (snd dst) node h))"

fun move_back :: "'n cmap_impl \<Rightarrow> (nat \<times> nat) list \<Rightarrow> 'n cmap_impl" where
  "move_back impl (dst # src # ps) = move_back (move_node impl dst src) (src # ps)"
| "move_back impl ps = impl"

definition cmap_insert_bfs :: "'n cmap_impl \<Rightarrow> 'n list \<Rightarrow> u32 \<Rightarrow> nat \<Rightarrow> nat
    \<Rightarrow> 'n cmap_impl option" where
  "cmap_insert_bfs impl new_node hash b1 b2 =
     (case bfs_search impl (bfs_start b1 b2) 0 of
        None \<Rightarrow> None
      | Some (path, i, j) \<Rightarrow>
          let slots = cp_slots path @ [i, j];
              bs = path_buckets impl (cp_start path) (cp_slots path @ [i]);
              impl = move_back impl (rev (zip bs slots))
          in Some (put_bucket impl (hd bs)
                     (cmap_set_bucket (ci_buckets impl ! hd bs) (hd slots) new_node hash)))"

definition cmap_try_insert :: "'n cmap_impl \<Rightarrow> 'n list \<Rightarrow> u32 \<Rightarrow> 'n cmap_impl option" where
  "cmap_try_insert impl node hash =
     (let h1 = rehash impl hash; h2 = other_hash h1;
          b1 = bucket_idx impl h1; b2 = bucket_idx impl h2
      in case cmap_insert_dup node hash (ci_buckets impl ! b1) of
           Some b \<Rightarrow> Some (put_bucket impl b1 b)
         | None \<Rightarrow>
         case cmap_insert_dup node hash (ci_buckets impl ! b2) of
           Some b \<Rightarrow> Some (put_bucket impl b2 b)
         | None \<Rightarrow>
         case cmap_insert_bucket node hash (ci_buckets impl ! b1) of
           Some b \<Rightarrow> Some (put_bucket impl b1 b)
         | None \<Rightarrow>
         case cmap_insert_bucket node hash (ci_buckets impl ! b2) of
           Some b \<Rightarrow> Some (put_bucket impl b2 b)
         | None \<Rightarrow> cmap_insert_bfs impl node hash b1 b2)"

section \<open>Rehashing\<close>

fun try_rehash_slots :: "(u32 \<times> 'n list) list \<Rightarrow> 'n cmap_impl \<Rightarrow> 'n cmap_impl option" where
  "try_rehash_slots [] new = Some new"
| "try_rehash_slots ((h, node) # ss) new =
     (if node \<noteq> []
      then case cmap_try_insert new node h of
             None \<Rightarrow> None
           | Some new' \<Rightarrow> try_rehash_slots ss new'
      else try_rehash_slots ss new)"

definition cmap_try_rehash :: "'n cmap_impl \<Rightarrow> 'n cmap_impl \<Rightarrow> 'n cmap_impl option" where
  "cmap_try_rehash old new = try_rehash_slots (concat (map cb_slots (ci_buckets old))) new"

text \<open>The retry loop of \<open>cmap_rehash\<close>: every failure clears the new table and draws a new
  basis. It need not end, so \<open>None\<close> is "does not return".\<close>

partial_function (option) rehash_loop ::
    "'n cmap_impl \<Rightarrow> 'n cmap_impl \<Rightarrow> u32 \<Rightarrow> ('n cmap_impl \<times> u32) option" where
  "rehash_loop old new seed =
     (case cmap_try_rehash old new of
        Some new' \<Rightarrow> Some (new', seed)
      | None \<Rightarrow>
          let (basis, seed) = random_uint32 seed
          in rehash_loop old
               (new\<lparr>ci_basis := basis,
                    ci_buckets := zero_buckets (unat (ci_mask new + 1))\<rparr>) seed)"

declare rehash_loop.simps [code]

definition cmap_rehash :: "'n cmap_impl \<Rightarrow> u32 \<Rightarrow> u32 \<Rightarrow> ('n cmap_impl \<times> u32) result" where
  "cmap_rehash old msk seed =
     rbind (cmap_impl_create msk seed) (\<lambda>(new, seed).
       if \<not> ci_n old < ci_max_n new then Inl Assert_Fail
       else rbind (of_option No_Return (rehash_loop old new seed)) (\<lambda>(new, seed).
         Inr (new\<lparr>ci_n := ci_n old\<rparr>, seed)))"

text \<open>The retry loop of \<open>cmap_insert\<close>; a fault inside \<open>cmap_rehash\<close> ends it.\<close>

partial_function (option) insert_loop ::
    "'n cmap_impl \<Rightarrow> 'n \<Rightarrow> u32 \<Rightarrow> u32 \<Rightarrow> ('n cmap_impl \<times> u32) result option" where
  "insert_loop impl node hash seed =
     (case cmap_try_insert impl [node] hash of
        Some impl' \<Rightarrow> Some (Inr (impl', seed))
      | None \<Rightarrow>
          (case cmap_rehash impl (ci_mask impl) seed of
             Inl e \<Rightarrow> Some (Inl e)
           | Inr r \<Rightarrow> insert_loop (fst r) node hash (snd r)))"

declare insert_loop.simps [code]

definition cmap_insert :: "'n cmap_impl \<Rightarrow> 'n \<Rightarrow> u32 \<Rightarrow> u32 \<Rightarrow> ('n cmap_impl \<times> u32) result" where
  "cmap_insert impl node hash seed =
     rbind (if ci_max_n impl \<le> ci_n impl
            then cmap_rehash impl (push_bit 1 (ci_mask impl) OR 1) seed
            else Inr (impl, seed)) (\<lambda>(impl, seed).
     rbind (of_option No_Return (insert_loop impl node hash seed)) (\<lambda>r.
     rbind r (\<lambda>(impl, seed).
     Inr (impl\<lparr>ci_n := ci_n impl + 1\<rparr>, seed))))"

section \<open>Replacement and removal\<close>

text \<open>Walking a chain for \<open>node\<close>; a chain that does not hold it is walked past its end,
  where the C code follows a null pointer.\<close>

fun chain_replace :: "'n \<Rightarrow> 'n option \<Rightarrow> 'n list \<Rightarrow> 'n list result" where
  "chain_replace node replacement [] = Inl Null_Deref"
| "chain_replace node replacement (x # xs) =
     (if x = node then Inr (case replacement of None \<Rightarrow> xs | Some r \<Rightarrow> r # xs)
      else rbind (chain_replace node replacement xs) (\<lambda>ys. Inr (x # ys)))"

definition cmap_replace_bucket :: "'n cmap_impl \<Rightarrow> 'n \<Rightarrow> 'n option \<Rightarrow> u32 \<Rightarrow> u32
    \<Rightarrow> 'n cmap_impl option result" where
  "cmap_replace_bucket impl node replacement hash h =
     (let k = bucket_idx impl h; b = ci_buckets impl ! k
      in case cmap_find_slot_protected b hash of
           None \<Rightarrow> Inr None
         | Some slot \<Rightarrow>
             rbind (chain_replace node replacement (snd (cb_slots b ! slot))) (\<lambda>chain.
             Inr (Some (put_bucket impl k
                   (b\<lparr>cb_slots := (cb_slots b)[slot := (fst (cb_slots b ! slot), chain)]\<rparr>)))))"

definition cmap_replace :: "'n cmap_impl \<Rightarrow> 'n \<Rightarrow> 'n option \<Rightarrow> u32 \<Rightarrow> u32
    \<Rightarrow> ('n cmap_impl \<times> u32) result" where
  "cmap_replace impl old_node new_node hash seed =
     (let h1 = rehash impl hash; h2 = other_hash h1 in
      rbind (cmap_replace_bucket impl old_node new_node hash h1) (\<lambda>r1.
      rbind (case r1 of Some _ \<Rightarrow> Inr r1
             | None \<Rightarrow> cmap_replace_bucket impl old_node new_node hash h2) (\<lambda>ok.
      case ok of
        None \<Rightarrow> Inl Assert_Fail
      | Some impl \<Rightarrow>
          if new_node = None
          then let impl = impl\<lparr>ci_n := ci_n impl - 1\<rparr>
               in if ci_n impl < ci_min_n impl
                  then cmap_rehash impl (drop_bit 1 (ci_mask impl)) seed
                  else Inr (impl, seed)
          else Inr (impl, seed))))"

definition cmap_remove :: "'n cmap_impl \<Rightarrow> 'n \<Rightarrow> u32 \<Rightarrow> u32 \<Rightarrow> ('n cmap_impl \<times> u32) result" where
  "cmap_remove impl node hash seed = cmap_replace impl node None hash seed"

end
