(* ===== verification/Cmap_Table.thy ===== *)
theory Cmap_Table
  imports Cmap
begin

text \<open>
  The cuckoo table as a function from positions (bucket, slot) to slot contents, the
  invariant \<^verbatim>\<open>lib/cmap.c\<close> relies on, and the two kinds of change the code makes to a
  table: overwriting one slot, and shifting a path of nodes by one position.
\<close>

section \<open>The invariant on slot contents\<close>

text \<open>\<open>tbl_live S h b i\<close>: slot \<open>i\<close> of bucket \<open>b\<close> is in use for client hash \<open>h\<close>.
  A slot whose chain was removed keeps its hash and is not live.\<close>

type_synonym 'n contents = "nat \<Rightarrow> nat \<Rightarrow> u32 \<times> 'n list"

definition tbl_live :: "nat \<Rightarrow> 'n contents \<Rightarrow> u32 \<Rightarrow> nat \<Rightarrow> nat \<Rightarrow> bool" where
  "tbl_live B S h b i \<longleftrightarrow> b < B \<and> i < CMAP_K \<and> fst (S b i) = h \<and> snd (S b i) \<noteq> []"

text \<open>
  The invariant, for \<open>B\<close> buckets and candidate buckets \<open>i1 h\<close> and \<open>i2 h\<close>: a hash in
  use lies in one of its candidate buckets (\<open>placed\<close>), in one slot only (\<open>unique\<close>), in
  the first slot of the bucket that carries the hash (\<open>first\<close>, because a search stops at
  the first equal hash even if that slot was emptied), and if it lies in its second
  bucket then no slot of the first one carries it (\<open>primary\<close>, because insertion reuses
  such a slot).
\<close>

definition tbl_inv :: "nat \<Rightarrow> (u32 \<Rightarrow> nat) \<Rightarrow> (u32 \<Rightarrow> nat) \<Rightarrow> 'n contents \<Rightarrow> bool" where
  "tbl_inv B i1 i2 S \<longleftrightarrow>
     (\<forall>h b i. tbl_live B S h b i \<longrightarrow> b = i1 h \<or> b = i2 h) \<and>
     (\<forall>h b i b' i'. tbl_live B S h b i \<longrightarrow> tbl_live B S h b' i' \<longrightarrow> b = b' \<and> i = i') \<and>
     (\<forall>h b i. tbl_live B S h b i \<longrightarrow> (\<forall>j < i. fst (S b j) \<noteq> h)) \<and>
     (\<forall>h b i. tbl_live B S h b i \<longrightarrow> b \<noteq> i1 h \<longrightarrow> (\<forall>j < CMAP_K. fst (S (i1 h) j) \<noteq> h))"

lemma tbl_placed: "tbl_inv B i1 i2 S \<Longrightarrow> tbl_live B S h b i \<Longrightarrow> b = i1 h \<or> b = i2 h"
  unfolding tbl_inv_def by blast

lemma tbl_unique:
  "tbl_inv B i1 i2 S \<Longrightarrow> tbl_live B S h b i \<Longrightarrow> tbl_live B S h b' i' \<Longrightarrow> b = b' \<and> i = i'"
  unfolding tbl_inv_def by blast

lemma tbl_first: "tbl_inv B i1 i2 S \<Longrightarrow> tbl_live B S h b i \<Longrightarrow> j < i \<Longrightarrow> fst (S b j) \<noteq> h"
  unfolding tbl_inv_def by blast

lemma tbl_primary:
  "tbl_inv B i1 i2 S \<Longrightarrow> tbl_live B S h b i \<Longrightarrow> b \<noteq> i1 h \<Longrightarrow> j < CMAP_K \<Longrightarrow> fst (S (i1 h) j) \<noteq> h"
  unfolding tbl_inv_def by blast

text \<open>The multimap a table stands for: the chain of each client hash.\<close>

definition tbl_chain :: "nat \<Rightarrow> 'n contents \<Rightarrow> u32 \<Rightarrow> 'n list \<Rightarrow> bool" where
  "tbl_chain B S h c \<longleftrightarrow>
     (c \<noteq> [] \<and> (\<exists>b i. tbl_live B S h b i \<and> snd (S b i) = c)) \<or>
     (c = [] \<and> (\<forall>b i. \<not> tbl_live B S h b i))"

lemma tbl_chain_exists: "\<exists>c. tbl_chain B S h c"
proof (cases "\<exists>b i. tbl_live B S h b i")
  case True
  then obtain b i where "tbl_live B S h b i" by blast
  then have "tbl_chain B S h (snd (S b i))"
    by (auto simp: tbl_chain_def tbl_live_def)
  then show ?thesis ..
next
  case False
  then have "tbl_chain B S h []" by (simp add: tbl_chain_def)
  then show ?thesis ..
qed

lemma tbl_chain_fun:
  assumes "tbl_inv B i1 i2 S" and "tbl_chain B S h c" and "tbl_chain B S h d"
  shows "c = d"
  using assms tbl_unique[OF assms(1)] unfolding tbl_chain_def by metis

section \<open>Overwriting one slot\<close>

text \<open>The slot that receives \<open>(hash, c)\<close> is free or already carries the hash, no other
  slot is in use for it, and the position respects \<open>first\<close> and \<open>primary\<close>.\<close>

definition slot_fits :: "nat \<Rightarrow> (u32 \<Rightarrow> nat) \<Rightarrow> (u32 \<Rightarrow> nat) \<Rightarrow> 'n contents \<Rightarrow> u32 \<Rightarrow> nat \<Rightarrow> nat
    \<Rightarrow> bool" where
  "slot_fits B i1 i2 S hash b i \<longleftrightarrow>
     b < B \<and> i < CMAP_K \<and> (b = i1 hash \<or> b = i2 hash) \<and>
     (snd (S b i) = [] \<or> fst (S b i) = hash) \<and>
     (\<forall>b' i'. tbl_live B S hash b' i' \<longrightarrow> b' = b \<and> i' = i) \<and>
     (\<forall>j < i. fst (S b j) \<noteq> hash) \<and>
     (b \<noteq> i1 hash \<longrightarrow> (\<forall>j < CMAP_K. fst (S (i1 hash) j) \<noteq> hash))"

definition slot_upd :: "'n contents \<Rightarrow> nat \<Rightarrow> nat \<Rightarrow> u32 \<times> 'n list \<Rightarrow> 'n contents" where
  "slot_upd S b i v = S(b := (S b)(i := v))"

lemma slot_upd_apply: "slot_upd S b i v b' i' = (if b' = b \<and> i' = i then v else S b' i')"
  by (simp add: slot_upd_def)

lemma tbl_live_slot_upd:
  assumes "slot_fits B i1 i2 S hash b i"
  shows "tbl_live B (slot_upd S b i (hash, c)) h b' i' \<longleftrightarrow>
     (if h = hash then b' = b \<and> i' = i \<and> c \<noteq> [] else tbl_live B S h b' i')"
  using assms unfolding slot_fits_def tbl_live_def slot_upd_apply by auto

lemma tbl_inv_slot_upd:
  assumes inv: "tbl_inv B i1 i2 S" and fits: "slot_fits B i1 i2 S hash b i"
  shows "tbl_inv B i1 i2 (slot_upd S b i (hash, c))"
proof -
  note live = tbl_live_slot_upd[OF fits]
  from fits have bi: "b = i1 hash \<or> b = i2 hash" "i < CMAP_K"
      "\<forall>j < i. fst (S b j) \<noteq> hash" "b \<noteq> i1 hash \<longrightarrow> (\<forall>j < CMAP_K. fst (S (i1 hash) j) \<noteq> hash)"
    by (auto simp: slot_fits_def)
  show ?thesis
    unfolding tbl_inv_def live
    using bi tbl_placed[OF inv] tbl_unique[OF inv] tbl_first[OF inv] tbl_primary[OF inv]
    by (auto simp: slot_upd_apply split: if_splits)
qed

lemma tbl_chain_slot_upd:
  assumes "slot_fits B i1 i2 S hash b i"
  shows "tbl_chain B (slot_upd S b i (hash, c)) h d \<longleftrightarrow>
     (if h = hash then d = c else tbl_chain B S h d)"
proof (cases "h = hash")
  case True
  then show ?thesis
    unfolding tbl_chain_def tbl_live_slot_upd[OF assms] slot_upd_apply by auto
next
  case False
  have other: "\<not> (b' = b \<and> i' = i)" if "tbl_live B S h b' i'" for b' i'
    using that False assms by (auto simp: slot_fits_def tbl_live_def)
  have "tbl_live B S h b' i' \<and> snd (slot_upd S b i (hash, c) b' i') = d \<longleftrightarrow>
      tbl_live B S h b' i' \<and> snd (S b' i') = d" for b' i'
    using other by (auto simp: slot_upd_apply)
  with False show ?thesis
    unfolding tbl_chain_def tbl_live_slot_upd[OF assms] by simp
qed

section \<open>Shifting a path\<close>

text \<open>
  \<open>shift_path\<close> describes the path a breadth-first search found: \<open>m\<close> full buckets
  followed by one with a free slot, all distinct, such that the node in slot \<open>ss ! k\<close>
  of bucket \<open>bs ! k\<close> may live in bucket \<open>bs ! Suc k\<close>. \<open>shifted\<close> relates the contents
  before and after every node on the path moved one bucket ahead and \<open>(hash, c)\<close> took
  the place of the first.
\<close>

definition shift_path :: "nat \<Rightarrow> (u32 \<Rightarrow> nat) \<Rightarrow> (u32 \<Rightarrow> nat) \<Rightarrow> 'n contents \<Rightarrow> nat
    \<Rightarrow> nat list \<Rightarrow> nat list \<Rightarrow> bool" where
  "shift_path B i1 i2 S m bs ss \<longleftrightarrow>
     length bs = Suc m \<and> length ss = Suc m \<and> distinct bs \<and>
     (\<forall>k \<le> m. bs ! k < B \<and> ss ! k < CMAP_K) \<and>
     (\<forall>k < m. \<forall>i < CMAP_K. snd (S (bs ! k) i) \<noteq> []) \<and>
     (\<forall>k < m. bs ! Suc k = i1 (fst (S (bs ! k) (ss ! k))) \<or>
              bs ! Suc k = i2 (fst (S (bs ! k) (ss ! k)))) \<and>
     snd (S (bs ! m) (ss ! m)) = [] \<and> (\<forall>j < ss ! m. snd (S (bs ! m) j) \<noteq> [])"

definition off_path :: "nat \<Rightarrow> nat list \<Rightarrow> nat list \<Rightarrow> nat \<Rightarrow> nat \<Rightarrow> bool" where
  "off_path m bs ss b i \<longleftrightarrow> (\<forall>k \<le> m. \<not> (b = bs ! k \<and> i = ss ! k))"

definition shifted :: "'n contents \<Rightarrow> 'n contents \<Rightarrow> nat \<Rightarrow> nat list \<Rightarrow> nat list
    \<Rightarrow> u32 \<times> 'n list \<Rightarrow> bool" where
  "shifted S S' m bs ss v \<longleftrightarrow>
     S' (bs ! 0) (ss ! 0) = v \<and>
     (\<forall>k < m. S' (bs ! Suc k) (ss ! Suc k) = S (bs ! k) (ss ! k)) \<and>
     (\<forall>b i. off_path m bs ss b i \<longrightarrow> S' b i = S b i)"

lemma off_pathD: "off_path m bs ss (bs ! k) (ss ! k) \<Longrightarrow> k \<le> m \<Longrightarrow> False"
  by (auto simp: off_path_def)

lemma shift_path_nth_eq:
  "shift_path B i1 i2 S m bs ss \<Longrightarrow> k \<le> m \<Longrightarrow> k' \<le> m \<Longrightarrow> bs ! k = bs ! k' \<longleftrightarrow> k = k'"
  by (simp add: shift_path_def nth_eq_iff_index_eq)

text \<open>Where the contents of a slot in use come from.\<close>

lemma shifted_origin:
  assumes path: "shift_path B i1 i2 S m bs ss"
    and sh: "shifted S S' m bs ss (hash, c)"
    and live: "tbl_live B S' h b i"
  obtains (New) "h = hash" "b = bs ! 0" "i = ss ! 0"
    | (Stay) "tbl_live B S h b i" "S' b i = S b i" "off_path m bs ss b i"
    | (Move) k where "k < m" "tbl_live B S h (bs ! k) (ss ! k)" "b = bs ! Suc k" "i = ss ! Suc k"
        "S' b i = S (bs ! k) (ss ! k)"
proof (cases "off_path m bs ss b i")
  case True
  with sh have "S' b i = S b i" by (simp add: shifted_def)
  with live have "tbl_live B S h b i" by (simp add: tbl_live_def)
  with True \<open>S' b i = S b i\<close> show ?thesis by (intro Stay)
next
  case False
  then obtain k where k: "k \<le> m" "b = bs ! k" "i = ss ! k"
    by (auto simp: off_path_def)
  show ?thesis
  proof (cases k)
    case 0
    with k sh live show ?thesis
      by (intro New) (auto simp: shifted_def tbl_live_def)
  next
    case (Suc k')
    with k sh have eq: "S' b i = S (bs ! k') (ss ! k')" by (simp add: shifted_def)
    from Suc k path have "bs ! k' < B" "ss ! k' < CMAP_K" by (auto simp: shift_path_def)
    with eq live have "tbl_live B S h (bs ! k') (ss ! k')" by (simp add: tbl_live_def)
    with Suc k eq show ?thesis by (intro Move[of k']) auto
  qed
qed

text \<open>The full buckets of the path stay full, and in the last one every slot up to the
  one that was free is now in use.\<close>

lemma shifted_full:
  assumes path: "shift_path B i1 i2 S m bs ss" and sh: "shifted S S' m bs ss (hash, c)"
    and c: "c \<noteq> []" and k: "k < m \<and> i < CMAP_K \<or> k = m \<and> i \<le> ss ! m"
  shows "snd (S' (bs ! k) i) \<noteq> []"
proof (cases "i = ss ! k")
  case True
  show ?thesis
  proof (cases k)
    case 0
    with True sh c show ?thesis by (simp add: shifted_def)
  next
    case (Suc k')
    with k path have "snd (S (bs ! k') (ss ! k')) \<noteq> []" by (auto simp: shift_path_def)
    moreover from Suc k True sh have "S' (bs ! k) i = S (bs ! k') (ss ! k')"
      by (auto simp: shifted_def)
    ultimately show ?thesis by simp
  qed
next
  case False
  with k have "off_path m bs ss (bs ! k) i"
    using shift_path_nth_eq[OF path] by (auto simp: off_path_def)
  with sh have "S' (bs ! k) i = S (bs ! k) i" by (simp add: shifted_def)
  moreover from k False path have "snd (S (bs ! k) i) \<noteq> []"
    by (auto simp: shift_path_def)
  ultimately show ?thesis by simp
qed

text \<open>The hypotheses of an insertion by shifting: the hash is not in the table, its two
  candidate buckets are full, and the path starts in one of them.\<close>

definition shift_start :: "(u32 \<Rightarrow> nat) \<Rightarrow> (u32 \<Rightarrow> nat) \<Rightarrow> 'n contents \<Rightarrow> u32 \<Rightarrow> nat \<Rightarrow> bool" where
  "shift_start i1 i2 S hash b \<longleftrightarrow>
     (b = i1 hash \<or> b = i2 hash) \<and>
     (\<forall>j < CMAP_K. fst (S (i1 hash) j) \<noteq> hash \<and> snd (S (i1 hash) j) \<noteq> []) \<and>
     (\<forall>j < CMAP_K. fst (S (i2 hash) j) \<noteq> hash \<and> snd (S (i2 hash) j) \<noteq> [])"

lemma shift_start_fresh:
  assumes inv: "tbl_inv B i1 i2 S" and start: "shift_start i1 i2 S hash b0"
  shows "\<not> tbl_live B S hash b i"
proof
  assume l: "tbl_live B S hash b i"
  from tbl_placed[OF inv l] start l show False
    by (auto simp: shift_start_def tbl_live_def)
qed

lemma shifted_placed:
  assumes inv: "tbl_inv B i1 i2 S" and path: "shift_path B i1 i2 S m bs ss"
    and sh: "shifted S S' m bs ss (hash, c)" and start: "shift_start i1 i2 S hash (bs ! 0)"
    and live: "tbl_live B S' h b i"
  shows "b = i1 h \<or> b = i2 h"
  using path sh live
proof (cases rule: shifted_origin)
  case New
  with start show ?thesis by (simp add: shift_start_def)
next
  case Stay
  from tbl_placed[OF inv Stay(1)] show ?thesis .
next
  case (Move k)
  with path have "bs ! Suc k = i1 (fst (S (bs ! k) (ss ! k))) \<or>
      bs ! Suc k = i2 (fst (S (bs ! k) (ss ! k)))"
    by (simp add: shift_path_def)
  with Move(2,3) show ?thesis by (simp add: tbl_live_def)
qed

lemma shifted_unique:
  assumes inv: "tbl_inv B i1 i2 S" and path: "shift_path B i1 i2 S m bs ss"
    and sh: "shifted S S' m bs ss (hash, c)" and start: "shift_start i1 i2 S hash (bs ! 0)"
    and live: "tbl_live B S' h b i" and live': "tbl_live B S' h b' i'"
  shows "b = b' \<and> i = i'"
proof -
  note fresh = shift_start_fresh[OF inv start]
  note uniq = tbl_unique[OF inv]
  show ?thesis
    using path sh live
  proof (cases rule: shifted_origin)
    case New
    note N = this
    from path sh live' show ?thesis
      by (cases rule: shifted_origin) (use N fresh in simp_all)
  next
    case Stay
    note A = this
    from path sh live' show ?thesis
    proof (cases rule: shifted_origin)
      case New
      with A fresh show ?thesis by simp
    next
      case Stay
      from uniq[OF A(1) this(1)] show ?thesis .
    next
      case (Move k)
      from uniq[OF A(1) Move(2)] A(3) \<open>k < m\<close> off_pathD[of m bs ss k] show ?thesis by simp
    qed
  next
    case (Move k)
    note A = this
    from path sh live' show ?thesis
    proof (cases rule: shifted_origin)
      case New
      with A fresh show ?thesis by simp
    next
      case Stay
      from uniq[OF A(2) Stay(1)] Stay(3) \<open>k < m\<close> off_pathD[of m bs ss k] show ?thesis by simp
    next
      case (Move k')
      from uniq[OF A(2) Move(2)] have "bs ! k = bs ! k'" by simp
      with shift_path_nth_eq[OF path, of k k'] A(1) Move(1) have "k = k'" by simp
      with A(3,4) Move(3,4) show ?thesis by simp
    qed
  qed
qed

lemma shifted_empty:
  assumes path: "shift_path B i1 i2 S m bs ss" and sh: "shifted S S' m bs ss (hash, c)"
    and c: "c \<noteq> []" and j: "j < CMAP_K" and empty: "snd (S' b j) = []"
  shows "S' b j = S b j" and "k < m \<Longrightarrow> b \<noteq> bs ! k" and "b = bs ! m \<Longrightarrow> ss ! m < j"
proof -
  note full = shifted_full[OF path sh c]
  show off: "k < m \<Longrightarrow> b \<noteq> bs ! k" for k
    using full[of k j] j empty by auto
  show last: "b = bs ! m \<Longrightarrow> ss ! m < j"
    using full[of m j] empty by (auto simp: not_less[symmetric])
  have "off_path m bs ss b j"
    unfolding off_path_def
  proof (intro allI impI)
    fix k assume "k \<le> m"
    then show "\<not> (b = bs ! k \<and> j = ss ! k)"
      using off[of k] last by (cases "k = m") auto
  qed
  with sh show "S' b j = S b j" by (simp add: shifted_def)
qed

lemma shifted_first:
  assumes inv: "tbl_inv B i1 i2 S" and path: "shift_path B i1 i2 S m bs ss"
    and sh: "shifted S S' m bs ss (hash, c)" and start: "shift_start i1 i2 S hash (bs ! 0)"
    and c: "c \<noteq> []" and live: "tbl_live B S' h b i" and j: "j < i"
  shows "fst (S' b j) \<noteq> h"
proof
  assume h: "fst (S' b j) = h"
  from live j have jK: "j < CMAP_K" and bB: "b < B" by (auto simp: tbl_live_def)
  have "snd (S' b j) = []"
  proof (rule ccontr)
    assume "snd (S' b j) \<noteq> []"
    with h jK bB have "tbl_live B S' h b j" by (simp add: tbl_live_def)
    from shifted_unique[OF inv path sh start live this] j show False by simp
  qed
  note e = shifted_empty[OF path sh c jK this]
  from path have m: "length bs = Suc m" by (simp add: shift_path_def)
  from path sh live show False
  proof (cases rule: shifted_origin)
    case New
    with start c j e(2)[of 0] e(3) show False by (cases "m = 0") auto
  next
    case Stay
    from tbl_first[OF inv Stay(1) j] e(1) h show False by simp
  next
    case (Move k)
    with e(2)[of "Suc k"] e(3) j show False by (cases "Suc k = m") auto
  qed
qed

lemma shifted_primary:
  assumes inv: "tbl_inv B i1 i2 S" and path: "shift_path B i1 i2 S m bs ss"
    and sh: "shifted S S' m bs ss (hash, c)" and start: "shift_start i1 i2 S hash (bs ! 0)"
    and c: "c \<noteq> []" and range: "\<And>h. i1 h < B"
    and live: "tbl_live B S' h b i" and b: "b \<noteq> i1 h" and j: "j < CMAP_K"
  shows "fst (S' (i1 h) j) \<noteq> h"
proof
  assume h: "fst (S' (i1 h) j) = h"
  have "snd (S' (i1 h) j) = []"
  proof (rule ccontr)
    assume "snd (S' (i1 h) j) \<noteq> []"
    with h j range have "tbl_live B S' h (i1 h) j" by (simp add: tbl_live_def)
    from shifted_unique[OF inv path sh start live this] b show False by simp
  qed
  note empty = this and e = shifted_empty[OF path sh c j this]
  from path sh live show False
  proof (cases rule: shifted_origin)
    case New
    with start j e(1) empty show False by (simp add: shift_start_def)
  next
    case Stay
    from tbl_primary[OF inv Stay(1) b j] e(1) h show False by simp
  next
    case (Move k)
    from e(2)[OF Move(1)] have "bs ! k \<noteq> i1 h" by simp
    from tbl_primary[OF inv Move(2) this j] e(1) h show False by simp
  qed
qed

lemma tbl_inv_shifted:
  assumes "tbl_inv B i1 i2 S" and "shift_path B i1 i2 S m bs ss"
    and "shifted S S' m bs ss (hash, c)" and "shift_start i1 i2 S hash (bs ! 0)"
    and "c \<noteq> []" and "\<And>h. i1 h < B"
  shows "tbl_inv B i1 i2 S'"
  unfolding tbl_inv_def
  using shifted_placed[OF assms(1-4)] shifted_unique[OF assms(1-4)]
    shifted_first[OF assms(1-5)] shifted_primary[OF assms]
  by blast

lemma tbl_chain_shifted:
  assumes inv: "tbl_inv B i1 i2 S" and path: "shift_path B i1 i2 S m bs ss"
    and sh: "shifted S S' m bs ss (hash, c)" and start: "shift_start i1 i2 S hash (bs ! 0)"
    and c: "c \<noteq> []" and range: "\<And>h. i1 h < B"
  shows "tbl_chain B S' h (if h = hash then c else d) \<longleftrightarrow> h = hash \<or> tbl_chain B S h d"
proof (cases "h = hash")
  case True
  have "tbl_live B S' hash (bs ! 0) (ss ! 0)"
    using path sh c by (auto simp: tbl_live_def shift_path_def shifted_def)
  moreover from sh have "snd (S' (bs ! 0) (ss ! 0)) = c" by (simp add: shifted_def)
  ultimately show ?thesis using True c by (auto simp: tbl_chain_def)
next
  case False
  have fwd: "\<exists>b' i'. tbl_live B S' h b' i' \<and> S' b' i' = S b i" if l: "tbl_live B S h b i" for b i
  proof (cases "off_path m bs ss b i")
    case True
    with sh l show ?thesis by (intro exI[of _ b] exI[of _ i]) (simp add: shifted_def tbl_live_def)
  next
    case False
    then obtain k where k: "k \<le> m" "b = bs ! k" "i = ss ! k" by (auto simp: off_path_def)
    with l path have "k < m" by (cases "k = m") (auto simp: tbl_live_def shift_path_def)
    with k sh path l show ?thesis
      by (intro exI[of _ "bs ! Suc k"] exI[of _ "ss ! Suc k"])
        (auto simp: shifted_def tbl_live_def shift_path_def)
  qed
  have bwd: "\<exists>b' i'. tbl_live B S h b' i' \<and> S b' i' = S' b i" if l: "tbl_live B S' h b i" for b i
    using path sh l by (cases rule: shifted_origin) (use False in auto)
  have "(\<exists>b i. tbl_live B S' h b i \<and> snd (S' b i) = d) \<longleftrightarrow>
      (\<exists>b i. tbl_live B S h b i \<and> snd (S b i) = d)"
    using fwd bwd by metis
  moreover have "(\<forall>b i. \<not> tbl_live B S' h b i) \<longleftrightarrow> (\<forall>b i. \<not> tbl_live B S h b i)"
    using fwd bwd by metis
  ultimately show ?thesis using False by (simp add: tbl_chain_def)
qed

end
