(* ===== verification/Cmap_Bfs.thy ===== *)
theory Cmap_Bfs
  imports Cmap_Table
begin

text \<open>
  Well-formed cuckoo maps, and the proof that the breadth-first search of
  \<^verbatim>\<open>cmap_insert_bfs()\<close> finds a path without repeated buckets, along which the nodes can be
  moved. The C comment argues that a shortest path has no loops; the queue is bounded
  and keeps no set of visited buckets, so the proof works with the order of the queue.
\<close>

unbundle bit_operations_syntax

section \<open>Well-formed maps\<close>

definition idx1 :: "'n cmap_impl \<Rightarrow> u32 \<Rightarrow> nat" where
  "idx1 impl h = bucket_idx impl (rehash impl h)"

definition idx2 :: "'n cmap_impl \<Rightarrow> u32 \<Rightarrow> nat" where
  "idx2 impl h = bucket_idx impl (other_hash (rehash impl h))"

definition slot_at :: "'n cmap_impl \<Rightarrow> 'n contents" where
  "slot_at impl b i = cb_slots (ci_buckets impl ! b) ! i"

abbreviation nbuckets :: "'n cmap_impl \<Rightarrow> nat" where
  "nbuckets impl \<equiv> length (ci_buckets impl)"

definition bucket_ok :: "'n cmap_bucket \<Rightarrow> bool" where
  "bucket_ok b \<longleftrightarrow> length (cb_slots b) = CMAP_K \<and> cb_counter b AND 1 = 0"

definition cmap_shape :: "'n cmap_impl \<Rightarrow> bool" where
  "cmap_shape impl \<longleftrightarrow>
     nbuckets impl = Suc (unat (ci_mask impl)) \<and> (\<forall>b \<in> set (ci_buckets impl). bucket_ok b)"

definition cmap_wf :: "'n cmap_impl \<Rightarrow> bool" where
  "cmap_wf impl \<longleftrightarrow>
     cmap_shape impl \<and> tbl_inv (nbuckets impl) (idx1 impl) (idx2 impl) (slot_at impl)"

lemma bucket_idx_less: "cmap_shape impl \<Longrightarrow> bucket_idx impl h < nbuckets impl"
proof -
  assume "cmap_shape impl"
  moreover have "unat (h AND ci_mask impl) \<le> unat (ci_mask impl)"
    by (simp add: word_and_le1 flip: word_le_nat_alt)
  ultimately show ?thesis by (simp add: cmap_shape_def bucket_idx_def)
qed

lemma idx_less [simp]:
  assumes "cmap_shape impl"
  shows "idx1 impl h < nbuckets impl" and "idx2 impl h < nbuckets impl"
  using assms by (simp_all add: idx1_def idx2_def bucket_idx_less)

lemma cmap_shape_bucket:
  "cmap_shape impl \<Longrightarrow> b < nbuckets impl \<Longrightarrow> length (cb_slots (ci_buckets impl ! b)) = CMAP_K"
  by (simp add: cmap_shape_def bucket_ok_def)

lemma cmap_shape_counter:
  "cmap_shape impl \<Longrightarrow> b < nbuckets impl \<Longrightarrow> cb_counter (ci_buckets impl ! b) AND 1 = 0"
  by (simp add: cmap_shape_def bucket_ok_def)

lemma cmap_wf_shape: "cmap_wf impl \<Longrightarrow> cmap_shape impl"
  by (simp add: cmap_wf_def)

lemma put_bucket_simps [simp]:
  "ci_n (put_bucket impl k b) = ci_n impl"
  "ci_max_n (put_bucket impl k b) = ci_max_n impl"
  "ci_min_n (put_bucket impl k b) = ci_min_n impl"
  "ci_mask (put_bucket impl k b) = ci_mask impl"
  "ci_basis (put_bucket impl k b) = ci_basis impl"
  "ci_buckets (put_bucket impl k b) = (ci_buckets impl)[k := b]"
  by (simp_all add: put_bucket_def)

lemma idx_cong:
  assumes "ci_mask impl' = ci_mask impl" and "ci_basis impl' = ci_basis impl"
  shows "idx1 impl' = idx1 impl" and "idx2 impl' = idx2 impl"
  using assms by (simp_all add: fun_eq_iff idx1_def idx2_def bucket_idx_def rehash_def)

lemma idx_put_bucket [simp]:
  "idx1 (put_bucket impl k b) = idx1 impl"
  "idx2 (put_bucket impl k b) = idx2 impl"
  by (rule idx_cong; simp)+

lemma slot_at_put_bucket:
  assumes "cmap_shape impl" and "k < nbuckets impl" and "i < CMAP_K"
    and "cb_slots b = (cb_slots (ci_buckets impl ! k))[i := v]"
  shows "slot_at (put_bucket impl k b) = slot_upd (slot_at impl) k i v"
proof (rule ext, rule ext)
  fix b' i'
  have "i < length (cb_slots (ci_buckets impl ! k))"
    using assms(1-3) by (simp add: cmap_shape_bucket)
  with assms(2,4) show "slot_at (put_bucket impl k b) b' i' = slot_upd (slot_at impl) k i v b' i'"
    by (cases "b' = k"; cases "i' = i") (simp_all add: slot_at_def slot_upd_apply)
qed

lemma cmap_shape_put_bucket:
  "cmap_shape impl \<Longrightarrow> k < nbuckets impl \<Longrightarrow> bucket_ok b \<Longrightarrow> cmap_shape (put_bucket impl k b)"
  by (auto simp: cmap_shape_def dest!: set_update_subset_insert[THEN subsetD])

lemma even_plus_2: "(c :: u32) AND 1 = 0 \<Longrightarrow> (c + 2) AND 1 = 0"
  by (simp only: and_one_eq mod_2_eq_odd) (auto split: if_splits)

lemma bucket_ok_set_bucket:
  "bucket_ok b \<Longrightarrow> bucket_ok (cmap_set_bucket b i node hash)"
  by (simp add: bucket_ok_def cmap_set_bucket_def even_plus_2)

lemma cmap_shape_nth_ok: "cmap_shape impl \<Longrightarrow> k < nbuckets impl \<Longrightarrow> bucket_ok (ci_buckets impl ! k)"
  by (simp add: cmap_shape_def)

text \<open>A bucket is full when no slot is free.\<close>

definition full :: "'n cmap_impl \<Rightarrow> nat \<Rightarrow> bool" where
  "full impl b \<longleftrightarrow> cmap_find_empty_slot_protected (ci_buckets impl ! b) = None"

lemma full_iff:
  assumes "cmap_shape impl" and "b < nbuckets impl"
  shows "full impl b \<longleftrightarrow> (\<forall>i < CMAP_K. snd (slot_at impl b i) \<noteq> [])"
  using cmap_shape_bucket[OF assms]
  by (auto simp: full_def cmap_find_empty_slot_protected_def slot_at_def all_set_conv_all_nth)

lemma other_bucket_eq:
  "other_bucket_protected impl b s =
     (let h = fst (slot_at impl b s) in if idx1 impl h = b then idx2 impl h else idx1 impl h)"
  by (simp add: other_bucket_protected_def slot_at_def idx1_def idx2_def Let_def)

lemma other_bucket_less: "cmap_shape impl \<Longrightarrow> other_bucket_protected impl b s < nbuckets impl"
  by (simp add: other_bucket_eq Let_def)

lemma path_buckets_not_Nil [simp]: "path_buckets impl b ss \<noteq> []"
  by (cases ss) auto

lemma path_buckets_snoc:
  "path_buckets impl b (ss @ [s]) =
     path_buckets impl b ss @ [other_bucket_protected impl (last (path_buckets impl b ss)) s]"
  by (induction ss arbitrary: b) (auto simp: path_buckets_not_Nil)

section \<open>The search invariant\<close>

definition path_seq :: "'n cmap_impl \<Rightarrow> cmap_path \<Rightarrow> nat list" where
  "path_seq impl p = path_buckets impl (cp_start p) (cp_slots p)"

definition path_ok :: "'n cmap_impl \<Rightarrow> nat \<Rightarrow> nat \<Rightarrow> cmap_path \<Rightarrow> bool" where
  "path_ok impl b1 b2 p \<longleftrightarrow>
     (cp_start p = b1 \<or> cp_start p = b2) \<and> (\<forall>s \<in> set (cp_slots p). s < CMAP_K) \<and>
     last (path_seq impl p) = cp_end p \<and>
     (\<forall>b \<in> set (path_seq impl p). b < nbuckets impl \<and> full impl b)"

definition path_child :: "'n cmap_impl \<Rightarrow> cmap_path \<Rightarrow> nat \<Rightarrow> cmap_path" where
  "path_child impl p i =
     p\<lparr>cp_end := other_bucket_protected impl (cp_end p) i, cp_slots := cp_slots p @ [i]\<rparr>"

text \<open>\<open>bfs_done t i x s\<close>: when the loop looks at slot \<open>i\<close> of the path at index \<open>t\<close>, slot
  \<open>s\<close> of the path at index \<open>x\<close> has been looked at. A path is dominated if an earlier
  one ends in the same bucket.\<close>

definition bfs_done :: "nat \<Rightarrow> nat \<Rightarrow> nat \<Rightarrow> nat \<Rightarrow> bool" where
  "bfs_done t i x s \<longleftrightarrow> x < t \<and> s < CMAP_K \<or> x = t \<and> s < i"

definition dominated :: "cmap_path list \<Rightarrow> nat \<Rightarrow> bool" where
  "dominated q y \<longleftrightarrow> (\<exists>x < y. cp_end (q ! x) = cp_end (q ! y))"

abbreviation depth :: "cmap_path \<Rightarrow> nat" where
  "depth p \<equiv> length (cp_slots p)"

definition bfs_paths :: "'n cmap_impl \<Rightarrow> nat \<Rightarrow> nat \<Rightarrow> cmap_path list \<Rightarrow> bool" where
  "bfs_paths impl b1 b2 q \<longleftrightarrow>
     (\<forall>p \<in> set q. path_ok impl b1 b2 p) \<and>
     (\<forall>y < length q. \<forall>b \<in> set (path_seq impl (q ! y)). \<exists>c \<le> y. cp_end (q ! c) = b) \<and>
     (\<forall>y < length q. distinct (path_seq impl (q ! y)) \<or> dominated q y)"

definition bfs_sorted :: "cmap_path list \<Rightarrow> nat \<Rightarrow> bool" where
  "bfs_sorted q t \<longleftrightarrow>
     (\<forall>x y. x \<le> y \<longrightarrow> y < length q \<longrightarrow> depth (q ! x) \<le> depth (q ! y)) \<and>
     (t < length q \<longrightarrow> (\<forall>y < length q. depth (q ! y) \<le> Suc (depth (q ! t))))"

definition bfs_seen :: "'n cmap_impl \<Rightarrow> cmap_path list \<Rightarrow> nat \<Rightarrow> nat \<Rightarrow> bool" where
  "bfs_seen impl q t i \<longleftrightarrow>
     (\<forall>x s. bfs_done t i x s \<longrightarrow> x < length q \<longrightarrow>
        other_bucket_protected impl (cp_end (q ! x)) s \<noteq> cp_end (q ! x) \<longrightarrow>
        full impl (other_bucket_protected impl (cp_end (q ! x)) s) \<and>
        (length q < MAX_QUEUE \<longrightarrow> depth (q ! x) < MAX_DEPTH \<longrightarrow>
           (\<exists>c < length q. cp_end (q ! c) = other_bucket_protected impl (cp_end (q ! x)) s)))"

definition bfs_inv :: "'n cmap_impl \<Rightarrow> nat \<Rightarrow> nat \<Rightarrow> cmap_path list \<Rightarrow> nat \<Rightarrow> nat \<Rightarrow> bool" where
  "bfs_inv impl b1 b2 q t i \<longleftrightarrow>
     bfs_paths impl b1 b2 q \<and> bfs_sorted q t \<and> bfs_seen impl q t i"

lemma bfs_seenD:
  assumes "bfs_seen impl q t i" and "bfs_done t i x s" and "x < length q"
    and "other_bucket_protected impl (cp_end (q ! x)) s \<noteq> cp_end (q ! x)"
  shows "full impl (other_bucket_protected impl (cp_end (q ! x)) s)"
    and "length q < MAX_QUEUE \<Longrightarrow> depth (q ! x) < MAX_DEPTH \<Longrightarrow>
      \<exists>c < length q. cp_end (q ! c) = other_bucket_protected impl (cp_end (q ! x)) s"
  using assms unfolding bfs_seen_def by blast+

lemma path_seq_child:
  assumes "last (path_seq impl p) = cp_end p"
  shows "path_seq impl (path_child impl p i) =
     path_seq impl p @ [other_bucket_protected impl (cp_end p) i]"
  using assms by (simp add: path_seq_def path_child_def path_buckets_snoc)

lemma path_ok_child:
  assumes "cmap_shape impl" and "path_ok impl b1 b2 p" and "i < CMAP_K"
    and "full impl (other_bucket_protected impl (cp_end p) i)"
  shows "path_ok impl b1 b2 (path_child impl p i)"
  using assms path_seq_child[of impl p i] other_bucket_less[OF assms(1)]
  by (auto simp: path_ok_def path_child_def)

lemma dominated_append:
  "y < length q \<Longrightarrow> dominated (q @ r) y \<longleftrightarrow> dominated q y"
proof -
  assume "y < length q"
  then have "(q @ r) ! x = q ! x" if "x \<le> y" for x
    using that by (simp add: nth_append)
  then show ?thesis unfolding dominated_def by (metis less_imp_le order_refl)
qed

text \<open>A dominated path has dominated children: the earlier path has been expanded, and
  if there is room in the queue now there was room then.\<close>

lemma dominated_child:
  assumes paths: "bfs_paths impl b1 b2 q" and sorted: "bfs_sorted q t" and seen: "bfs_seen impl q t i"
    and t: "t < length q" and i: "i < CMAP_K"
    and nx: "other_bucket_protected impl (cp_end (q ! t)) i \<noteq> cp_end (q ! t)"
    and room: "length q < MAX_QUEUE" "depth (q ! t) < MAX_DEPTH"
  shows "distinct (path_seq impl (path_child impl (q ! t) i)) \<or>
    (\<exists>c < length q. cp_end (q ! c) = other_bucket_protected impl (cp_end (q ! t)) i)"
proof (cases "dominated q t")
  case True
  then obtain x where x: "x < t" "cp_end (q ! x) = cp_end (q ! t)" by (auto simp: dominated_def)
  have "depth (q ! x) \<le> depth (q ! t)"
    using sorted x(1) t by (auto simp: bfs_sorted_def)
  with room have "depth (q ! x) < MAX_DEPTH" by simp
  moreover have "bfs_done t i x i" using x i by (simp add: bfs_done_def)
  ultimately have "\<exists>c < length q. cp_end (q ! c) = other_bucket_protected impl (cp_end (q ! x)) i"
    using bfs_seenD(2)[OF seen, of x i] x t nx room by simp
  with x show ?thesis by simp
next
  case False
  with paths t have d: "distinct (path_seq impl (q ! t))" by (auto simp: bfs_paths_def)
  have e: "last (path_seq impl (q ! t)) = cp_end (q ! t)"
    using paths t by (simp add: bfs_paths_def path_ok_def)
  show ?thesis
  proof (cases "other_bucket_protected impl (cp_end (q ! t)) i \<in> set (path_seq impl (q ! t))")
    case True
    with paths t obtain c where "c \<le> t" "cp_end (q ! c) = other_bucket_protected impl (cp_end (q ! t)) i"
      unfolding bfs_paths_def by blast
    with t show ?thesis by (intro disjI2 exI[of _ c]) simp
  next
    case False
    with d path_seq_child[OF e, of i] show ?thesis by simp
  qed
qed

section \<open>The search keeps the invariant\<close>

lemma bfs_done_Suc: "bfs_done t (Suc i) x s \<longleftrightarrow> bfs_done t i x s \<or> x = t \<and> s = i"
  by (auto simp: bfs_done_def)

lemma bfs_seen_Suc:
  assumes "bfs_seen impl q t i"
    and "other_bucket_protected impl (cp_end (q ! t)) i \<noteq> cp_end (q ! t) \<Longrightarrow>
      full impl (other_bucket_protected impl (cp_end (q ! t)) i) \<and>
      (length q < MAX_QUEUE \<longrightarrow> depth (q ! t) < MAX_DEPTH \<longrightarrow>
         (\<exists>c < length q. cp_end (q ! c) = other_bucket_protected impl (cp_end (q ! t)) i))"
  shows "bfs_seen impl q t (Suc i)"
  using assms unfolding bfs_seen_def bfs_done_Suc by blast

lemma bfs_seen_append:
  assumes seen: "bfs_seen impl q t i" and t: "t < length q"
  shows "bfs_seen impl (q @ [p]) t i"
  unfolding bfs_seen_def
proof (intro allI impI)
  fix x s
  let ?nx = "other_bucket_protected impl (cp_end ((q @ [p]) ! x)) s"
  assume d: "bfs_done t i x s" and "x < length (q @ [p])" and ne: "?nx \<noteq> cp_end ((q @ [p]) ! x)"
  from d t have x: "x < length q" by (auto simp: bfs_done_def)
  then have eq: "(q @ [p]) ! x = q ! x" by (simp add: nth_append)
  note D = bfs_seenD[OF seen d x ne[unfolded eq]]
  have "\<exists>c < length (q @ [p]). cp_end ((q @ [p]) ! c) = ?nx"
    if room: "length (q @ [p]) < MAX_QUEUE" "depth ((q @ [p]) ! x) < MAX_DEPTH"
  proof -
    from D(2) room eq obtain c where "c < length q" "cp_end (q ! c) = ?nx" by auto
    then show ?thesis by (intro exI[of _ c]) (simp add: nth_append)
  qed
  with D(1) eq show "full impl ?nx \<and> (length (q @ [p]) < MAX_QUEUE \<longrightarrow>
      depth ((q @ [p]) ! x) < MAX_DEPTH \<longrightarrow>
      (\<exists>c < length (q @ [p]). cp_end ((q @ [p]) ! c) = ?nx))"
    by simp
qed

lemma bfs_sorted_push:
  assumes sorted: "bfs_sorted q t" and t: "t < length q"
  shows "bfs_sorted (q @ [path_child impl (q ! t) i]) t"
proof -
  have d: "depth (path_child impl (q ! t) i) = Suc (depth (q ! t))"
    by (simp add: path_child_def)
  have le: "depth (q ! y) \<le> Suc (depth (q ! t))" if "y < length q" for y
    using sorted t that by (simp add: bfs_sorted_def)
  have mono: "depth (q ! x) \<le> depth (q ! y)" if "x \<le> y" "y < length q" for x y
    using sorted that by (simp add: bfs_sorted_def)
  show ?thesis
    unfolding bfs_sorted_def using t le mono d
    by (auto simp: nth_append less_Suc_eq)
qed

lemma bfs_paths_push:
  assumes shape: "cmap_shape impl" and paths: "bfs_paths impl b1 b2 q"
    and t: "t < length q" and i: "i < CMAP_K"
    and fu: "full impl (other_bucket_protected impl (cp_end (q ! t)) i)"
    and dom: "distinct (path_seq impl (path_child impl (q ! t) i)) \<or>
      (\<exists>c < length q. cp_end (q ! c) = other_bucket_protected impl (cp_end (q ! t)) i)"
  shows "bfs_paths impl b1 b2 (q @ [path_child impl (q ! t) i])"
proof -
  let ?p = "path_child impl (q ! t) i"
  have ok: "path_ok impl b1 b2 (q ! t)" using paths t by (simp add: bfs_paths_def)
  have e: "cp_end ?p = other_bucket_protected impl (cp_end (q ! t)) i"
    by (simp add: path_child_def)
  have seq: "path_seq impl ?p = path_seq impl (q ! t) @ [cp_end ?p]"
    using ok by (simp add: path_seq_child path_ok_def e)
  have ends: "\<exists>c \<le> y. cp_end ((q @ [?p]) ! c) = b"
    if y: "y < length (q @ [?p])" and b: "b \<in> set (path_seq impl ((q @ [?p]) ! y))" for y b
  proof (cases "y < length q")
    case True
    with b have "b \<in> set (path_seq impl (q ! y))" by (simp add: nth_append)
    with True paths obtain c where "c \<le> y" "cp_end (q ! c) = b"
      unfolding bfs_paths_def by blast
    with True show ?thesis by (intro exI[of _ c]) (simp add: nth_append)
  next
    case False
    with y have yl: "y = length q" by simp
    with b seq consider "b \<in> set (path_seq impl (q ! t))" | "b = cp_end ?p" by auto
    then show ?thesis
    proof cases
      case 1
      with paths t obtain c where "c \<le> t" "cp_end (q ! c) = b"
        unfolding bfs_paths_def by blast
      with t yl show ?thesis by (intro exI[of _ c]) (simp add: nth_append)
    next
      case 2
      with yl show ?thesis by (intro exI[of _ y]) simp
    qed
  qed
  have dist: "distinct (path_seq impl ((q @ [?p]) ! y)) \<or> dominated (q @ [?p]) y"
    if y: "y < length (q @ [?p])" for y
  proof (cases "y < length q")
    case True
    with paths show ?thesis by (simp add: nth_append bfs_paths_def dominated_append)
  next
    case False
    with y have yl: "y = length q" by simp
    from dom show ?thesis
    proof
      assume "\<exists>c < length q. cp_end (q ! c) = other_bucket_protected impl (cp_end (q ! t)) i"
      then obtain c where "c < length q" "cp_end (q ! c) = cp_end ?p" by (auto simp: e)
      then have "dominated (q @ [?p]) y"
        unfolding dominated_def by (intro exI[of _ c]) (simp add: yl nth_append)
      then show ?thesis ..
    qed (simp add: yl)
  qed
  have "\<forall>p \<in> set (q @ [?p]). path_ok impl b1 b2 p"
    using paths path_ok_child[OF shape ok i fu] by (simp add: bfs_paths_def)
  with ends dist show ?thesis unfolding bfs_paths_def by blast
qed

lemma bfs_inv_next:
  assumes inv: "bfs_inv impl b1 b2 q t CMAP_K" and t: "t < length q"
  shows "bfs_inv impl b1 b2 q (Suc t) 0"
proof -
  have dn: "bfs_done (Suc t) 0 x s \<longleftrightarrow> bfs_done t CMAP_K x s" for x s
    by (auto simp: bfs_done_def less_Suc_eq)
  have "bfs_sorted q (Suc t)"
    unfolding bfs_sorted_def
  proof (intro conjI allI impI)
    fix x y assume "x \<le> y" "y < length q"
    with inv show "depth (q ! x) \<le> depth (q ! y)" by (simp add: bfs_inv_def bfs_sorted_def)
  next
    fix y assume a: "Suc t < length q" "y < length q"
    with inv have "depth (q ! y) \<le> Suc (depth (q ! t))"
      by (simp add: bfs_inv_def bfs_sorted_def)
    also from inv a have "depth (q ! t) \<le> depth (q ! Suc t)"
      by (simp add: bfs_inv_def bfs_sorted_def)
    finally show "depth (q ! y) \<le> Suc (depth (q ! Suc t))" by simp
  qed
  with inv show ?thesis by (simp add: bfs_inv_def bfs_seen_def dn)
qed

text \<open>What the search promises about the path it returns.\<close>

definition bfs_found :: "'n cmap_impl \<Rightarrow> nat \<Rightarrow> nat \<Rightarrow> cmap_path \<Rightarrow> nat \<Rightarrow> nat \<Rightarrow> bool" where
  "bfs_found impl b1 b2 p i j \<longleftrightarrow>
     path_ok impl b1 b2 p \<and> distinct (path_seq impl p) \<and> i < CMAP_K \<and>
     cmap_find_empty_slot_protected
       (ci_buckets impl ! other_bucket_protected impl (cp_end p) i) = Some j"

lemma bfs_slots_inv:
  assumes shape: "cmap_shape impl"
  shows "bfs_inv impl b1 b2 q t i \<Longrightarrow> t < length q \<Longrightarrow> i \<le> CMAP_K \<Longrightarrow>
     (case bfs_slots impl (q ! t) [i..<CMAP_K] q of
        Inl q' \<Rightarrow> bfs_inv impl b1 b2 q' t CMAP_K \<and> t < length q'
      | Inr (i', j) \<Rightarrow> bfs_found impl b1 b2 (q ! t) i' j)"
proof (induction "CMAP_K - i" arbitrary: q i)
  case 0
  then have "i = CMAP_K" by simp
  with 0 show ?case by simp
next
  case (Suc d)
  note IH = Suc.hyps(1) and inv = Suc.prems(1) and t = Suc.prems(2)
  from Suc.hyps(2) have i: "i < CMAP_K" and d: "d = CMAP_K - Suc i" by auto
  then have upt: "[i..<CMAP_K] = i # [Suc i..<CMAP_K]" by (simp add: upt_conv_Cons)
  let ?nx = "other_bucket_protected impl (cp_end (q ! t)) i"
  from inv have P: "bfs_paths impl b1 b2 q" and O: "bfs_sorted q t" and N: "bfs_seen impl q t i"
    by (simp_all add: bfs_inv_def)
  show ?case
  proof (cases "?nx = cp_end (q ! t)")
    case True
    then have "bfs_inv impl b1 b2 q t (Suc i)"
      using P O bfs_seen_Suc[OF N] by (simp add: bfs_inv_def)
    from IH[OF d this t] i True show ?thesis by (simp add: upt Let_def)
  next
    case ne: False
    show ?thesis
    proof (cases "cmap_find_empty_slot_protected (ci_buckets impl ! ?nx)")
      case None
      then have fu: "full impl ?nx" by (simp add: full_def)
      show ?thesis
      proof (cases "depth (q ! t) < MAX_DEPTH \<and> length q < MAX_QUEUE")
        case True
        let ?q = "q @ [path_child impl (q ! t) i]"
        have "bfs_seen impl ?q t (Suc i)"
          by (rule bfs_seen_Suc[OF bfs_seen_append[OF N t]])
            (use t fu in \<open>auto simp: nth_append path_child_def intro!: exI[of _ "length q"]\<close>)
        with bfs_paths_push[OF shape P t i fu] bfs_sorted_push[OF O t]
          dominated_child[OF P O N t i ne] True
        have "bfs_inv impl b1 b2 ?q t (Suc i)" by (simp add: bfs_inv_def)
        moreover have qt: "?q ! t = q ! t" using t by (simp add: nth_append)
        moreover have "bfs_slots impl (q ! t) [i..<CMAP_K] q = bfs_slots impl (q ! t) [Suc i..<CMAP_K] ?q"
          using True None ne by (simp add: upt Let_def path_child_def)
        ultimately show ?thesis
          using IH[OF d, of ?q, unfolded qt] t i by simp
      next
        case False
        then have "bfs_seen impl q t (Suc i)"
          by (intro bfs_seen_Suc[OF N]) (use fu in auto)
        with P O have "bfs_inv impl b1 b2 q t (Suc i)" by (simp add: bfs_inv_def)
        from IH[OF d this t] i False None ne show ?thesis by (auto simp: upt Let_def)
      qed
    next
      case (Some j)
      have "\<not> dominated q t"
      proof
        assume "dominated q t"
        then obtain x where x: "x < t" "cp_end (q ! x) = cp_end (q ! t)"
          by (auto simp: dominated_def)
        with bfs_seenD(1)[OF N, of x i] i t ne Some show False
          by (simp add: bfs_done_def full_def)
      qed
      with P t have "distinct (path_seq impl (q ! t))" "path_ok impl b1 b2 (q ! t)"
        by (auto simp: bfs_paths_def)
      with Some ne i show ?thesis by (simp add: upt Let_def bfs_found_def)
    qed
  qed
qed

lemma bfs_search_inv:
  "cmap_shape impl \<Longrightarrow> bfs_inv impl b1 b2 q t 0 \<Longrightarrow> bfs_search impl q t = Some (p, i, j) \<Longrightarrow>
    bfs_found impl b1 b2 p i j"
proof (induction impl q t rule: bfs_search.induct)
  case (1 impl q t)
  from "1.prems"(3) have t: "t < length q"
    by (subst (asm) bfs_search.simps) (simp split: if_splits)
  note step = bfs_slots_inv[OF "1.prems"(1,2) t, simplified]
  show ?case
  proof (cases "bfs_slots impl (q ! t) [0..<CMAP_K] q")
    case (Inl q')
    with step have "bfs_inv impl b1 b2 q' t CMAP_K" "t < length q'" by simp_all
    then have "bfs_inv impl b1 b2 q' (Suc t) 0" by (rule bfs_inv_next)
    moreover have "bfs_search impl q' (Suc t) = Some (p, i, j)"
      using "1.prems"(3) Inl t by (subst (asm) bfs_search.simps) simp
    ultimately show ?thesis using "1.IH"[OF t Inl] "1.prems"(1) by blast
  next
    case (Inr r)
    with "1.prems"(3) t have "r = (i, j)" "p = q ! t"
      by (subst (asm) bfs_search.simps, simp split: prod.splits)+
    with step Inr show ?thesis by simp
  qed
qed

lemma bfs_start_inv:
  assumes "b1 < nbuckets impl" "b2 < nbuckets impl" "full impl b1" "full impl b2"
  shows "bfs_inv impl b1 b2 (bfs_start b1 b2) 0 0"
proof -
  have len: "length (bfs_start b1 b2) \<le> 2" by (simp add: bfs_start_def)
  have nth: "bfs_start b1 b2 ! y = \<lparr>cp_start = b, cp_end = b, cp_slots = []\<rparr>"
    if "y < length (bfs_start b1 b2)" "b = (if y = 0 then b1 else b2)" for y b
    using that by (auto simp: bfs_start_def nth_Cons' split: if_splits)
  have paths: "bfs_paths impl b1 b2 (bfs_start b1 b2)"
    using assms
    by (auto simp: bfs_paths_def path_ok_def path_seq_def all_set_conv_all_nth nth split: if_splits)
  have "bfs_sorted (bfs_start b1 b2) 0" by (auto simp: bfs_sorted_def nth)
  with paths show ?thesis by (simp add: bfs_inv_def bfs_seen_def bfs_done_def)
qed

end
