(* ===== verification/Cmap_Shift.thy ===== *)
theory Cmap_Shift
  imports Cmap_Bfs
begin

text \<open>
  The two ways a node enters the cuckoo table: into one slot of a candidate bucket, or
  by moving the nodes of a path found by the search one bucket ahead. Both keep the
  table well formed and put the new chain in front of the chain of its hash.
\<close>

unbundle bit_operations_syntax

section \<open>Moving nodes along a path\<close>

fun shift_list :: "'n contents \<Rightarrow> (nat \<times> nat) list \<Rightarrow> 'n contents" where
  "shift_list S (d # s # ps) = shift_list (slot_upd S (fst d) (snd d) (S (fst s) (snd s))) (s # ps)"
| "shift_list S ps = S"

lemma shift_list_other: "(b, i) \<notin> set (butlast L) \<Longrightarrow> shift_list S L b i = S b i"
  by (induction S L rule: shift_list.induct) (auto simp: slot_upd_apply)

lemma shift_list_nth:
  "distinct L \<Longrightarrow> Suc k < length L \<Longrightarrow>
     shift_list S L (fst (L ! k)) (snd (L ! k)) = S (fst (L ! Suc k)) (snd (L ! Suc k))"
proof (induction S L arbitrary: k rule: shift_list.induct)
  case (1 S d s ps)
  show ?case
  proof (cases k)
    case 0
    have "d \<notin> set (butlast (s # ps))"
      using "1.prems"(1) in_set_butlastD[of d "s # ps"] by auto
    then show ?thesis
      using 0 by (simp add: shift_list_other slot_upd_apply)
  next
    case (Suc k')
    have ne: "d \<noteq> (s # ps) ! Suc k'"
      using "1.prems" Suc by (auto simp: in_set_conv_nth dest!: bspec)
    then have "slot_upd S (fst d) (snd d) v (fst (ps ! k')) (snd (ps ! k')) =
        S (fst (ps ! k')) (snd (ps ! k'))" for v
      by (auto simp: slot_upd_apply prod_eq_iff)
    with "1.IH"[of k'] "1.prems" Suc show ?thesis by simp
  qed
qed simp_all

lemma move_node_eq:
  assumes "cmap_shape impl" and "fst d < nbuckets impl" and "snd d < CMAP_K"
  shows "slot_at (move_node impl d s) =
      slot_upd (slot_at impl) (fst d) (snd d) (slot_at impl (fst s) (snd s))"
    and "cmap_shape (move_node impl d s)"
proof -
  obtain h c where hc: "slot_at impl (fst s) (snd s) = (h, c)" by (cases "slot_at impl (fst s) (snd s)")
  then have mv: "move_node impl d s =
      put_bucket impl (fst d) (cmap_set_bucket (ci_buckets impl ! fst d) (snd d) c h)"
    by (simp add: move_node_def slot_at_def)
  show "slot_at (move_node impl d s) =
      slot_upd (slot_at impl) (fst d) (snd d) (slot_at impl (fst s) (snd s))"
    unfolding mv hc by (rule slot_at_put_bucket[OF assms]) (simp add: cmap_set_bucket_def)
  show "cmap_shape (move_node impl d s)"
    unfolding mv using assms
    by (intro cmap_shape_put_bucket bucket_ok_set_bucket cmap_shape_nth_ok)
qed

lemma move_node_simps [simp]:
  "ci_mask (move_node impl d s) = ci_mask impl"
  "ci_basis (move_node impl d s) = ci_basis impl"
  "ci_n (move_node impl d s) = ci_n impl"
  "ci_max_n (move_node impl d s) = ci_max_n impl"
  "ci_min_n (move_node impl d s) = ci_min_n impl"
  "nbuckets (move_node impl d s) = nbuckets impl"
  by (simp_all add: move_node_def split: prod.splits)

text \<open>Two maps that differ in their buckets only.\<close>

definition same_config :: "'n cmap_impl \<Rightarrow> 'n cmap_impl \<Rightarrow> bool" where
  "same_config impl impl' \<longleftrightarrow>
     ci_mask impl' = ci_mask impl \<and> ci_basis impl' = ci_basis impl \<and> ci_n impl' = ci_n impl \<and>
     ci_max_n impl' = ci_max_n impl \<and> ci_min_n impl' = ci_min_n impl \<and>
     nbuckets impl' = nbuckets impl"

lemma same_config_refl [simp]: "same_config impl impl"
  by (simp add: same_config_def)

lemma same_config_put_bucket [simp]: "same_config impl (put_bucket impl k b)"
  by (simp add: same_config_def)

lemma same_config_trans: "same_config a b \<Longrightarrow> same_config b c \<Longrightarrow> same_config a c"
  by (simp add: same_config_def)

lemma same_config_idx:
  assumes "same_config impl impl'"
  shows "idx1 impl' = idx1 impl" and "idx2 impl' = idx2 impl" and "nbuckets impl' = nbuckets impl"
  using assms idx_cong[of impl' impl] by (simp_all add: same_config_def)

lemma move_back_eq:
  "cmap_shape impl \<Longrightarrow> \<forall>p \<in> set L. fst p < nbuckets impl \<and> snd p < CMAP_K \<Longrightarrow>
     slot_at (move_back impl L) = shift_list (slot_at impl) L \<and>
     cmap_shape (move_back impl L) \<and> same_config impl (move_back impl L)"
proof (induction impl L rule: move_back.induct)
  case (1 impl d s ps)
  then have d: "fst d < nbuckets impl" "snd d < CMAP_K" by simp_all
  note mv = move_node_eq[OF "1.prems"(1) d, of s]
  have "same_config impl (move_node impl d s)" by (simp add: same_config_def)
  with "1.IH"[OF mv(2)] "1.prems"(2) mv(1) show ?case
    by (auto intro: same_config_trans)
qed simp_all

lemma path_buckets_length [simp]: "length (path_buckets impl b ss) = Suc (length ss)"
  by (induction ss arbitrary: b) auto

lemma path_buckets_nth:
  "k < length ss \<Longrightarrow> path_buckets impl b ss ! Suc k =
     other_bucket_protected impl (path_buckets impl b ss ! k) (ss ! k)"
proof (induction ss arbitrary: b k)
  case (Cons s ss)
  then show ?case by (cases k) (cases ss; auto)+
qed simp

lemma other_bucket_cases:
  "other_bucket_protected impl b s = idx1 impl (fst (slot_at impl b s)) \<or>
   other_bucket_protected impl b s = idx2 impl (fst (slot_at impl b s))"
  by (simp add: other_bucket_eq Let_def)

lemma path_buckets_0: "path_buckets impl b ss ! 0 = b"
  by (cases ss) auto

section \<open>Insertion along the path\<close>

lemma shifted_move_back:
  assumes "length bs = Suc m" and "length ss = Suc m" and "distinct bs"
  shows "shifted S (slot_upd (shift_list S (rev (zip bs ss))) (bs ! 0) (ss ! 0) v) m bs ss v"
proof -
  let ?ps = "zip bs ss"
  let ?L = "rev ?ps"
  have len: "length ?ps = Suc m" using assms by simp
  have dist: "distinct ?L" using assms by (simp add: distinct_zipI1)
  have ne0: "bs ! Suc k \<noteq> bs ! 0" if "k < m" for k
    using that assms by (simp add: nth_eq_iff_index_eq)
  have move: "shift_list S ?L (bs ! Suc k) (ss ! Suc k) = S (bs ! k) (ss ! k)" if k: "k < m" for k
  proof -
    have L: "?L ! (m - Suc k) = (bs ! Suc k, ss ! Suc k)" "?L ! Suc (m - Suc k) = (bs ! k, ss ! k)"
      using k len assms by (simp_all add: rev_nth)
    from shift_list_nth[OF dist, of "m - Suc k" S] L k assms show ?thesis by simp
  qed
  have off: "shift_list S ?L b i = S b i" if o: "off_path m bs ss b i" for b i
  proof (rule shift_list_other)
    have "(b, i) \<notin> set ?ps"
      using o assms by (auto simp: off_path_def in_set_zip less_Suc_eq_le)
    then show "(b, i) \<notin> set (butlast ?L)" using in_set_butlastD[of "(b, i)" ?L] by auto
  qed
  show ?thesis
    using move off ne0 off_pathD[of m bs ss 0] by (auto simp: shifted_def slot_upd_apply)
qed

lemma bfs_found_path:
  assumes shape: "cmap_shape impl" and found: "bfs_found impl b1 b2 p i j"
  shows "shift_path (nbuckets impl) (idx1 impl) (idx2 impl) (slot_at impl) (Suc (depth p))
      (path_buckets impl (cp_start p) (cp_slots p @ [i])) (cp_slots p @ [i, j])"
    (is "shift_path ?B ?i1 ?i2 ?S ?m ?bs ?ss")
proof -
  let ?nx = "other_bucket_protected impl (cp_end p) i"
  from found have ok: "path_ok impl b1 b2 p" and dist: "distinct (path_seq impl p)"
    and i: "i < CMAP_K" and free: "cmap_find_empty_slot_protected (ci_buckets impl ! ?nx) = Some j"
    by (simp_all add: bfs_found_def)
  have bs: "?bs = path_seq impl p @ [?nx]"
    using ok by (simp add: path_buckets_snoc path_seq_def path_ok_def)
  have lp: "length (path_seq impl p) = ?m" by (simp add: path_seq_def)
  have nxB: "?nx < ?B" using other_bucket_less[OF shape] .
  have seq: "path_seq impl p ! k < ?B \<and> (\<forall>s < CMAP_K. snd (?S (path_seq impl p ! k) s) \<noteq> [])"
    if "k < ?m" for k
    using ok that lp full_iff[OF shape] by (auto simp: path_ok_def all_set_conv_all_nth)
  have j: "j < CMAP_K" "snd (?S ?nx j) = []" "\<forall>j' < j. snd (?S ?nx j') \<noteq> []"
    using first_slot_SomeD[OF free[unfolded cmap_find_empty_slot_protected_def]]
      cmap_shape_bucket[OF shape nxB] by (auto simp: slot_at_def)
  have "\<not> full impl ?nx" using free by (simp add: full_def)
  then have new: "?nx \<notin> set (path_seq impl p)" using ok by (auto simp: path_ok_def)
  have step: "?bs ! Suc k = ?i1 (fst (?S (?bs ! k) (?ss ! k))) \<or>
      ?bs ! Suc k = ?i2 (fst (?S (?bs ! k) (?ss ! k)))" if "k < ?m" for k
  proof -
    from that have "?ss ! k = (cp_slots p @ [i]) ! k" by (auto simp: nth_append)
    with path_buckets_nth[of k "cp_slots p @ [i]" impl "cp_start p"] that
    have "?bs ! Suc k = other_bucket_protected impl (?bs ! k) (?ss ! k)" by simp
    then show ?thesis using other_bucket_cases[of impl "?bs ! k" "?ss ! k"] by simp
  qed
  have slots: "?ss ! k < CMAP_K" if "k \<le> ?m" for k
    using that ok i j(1)
    by (auto simp: nth_append path_ok_def nth_Cons' less_Suc_eq_le split: if_splits)
  have bk: "?bs ! k = (if k < ?m then path_seq impl p ! k else ?nx)" if "k \<le> ?m" for k
    using that lp bs by (auto simp: nth_append)
  have ssm: "?ss ! ?m = j" by (simp add: nth_append)
  show ?thesis
    unfolding shift_path_def
    using seq nxB j ssm bk slots step new dist bs lp
    by (auto simp del: append_assoc)
qed

lemma cmap_set_bucket_slots [simp]:
  "cb_slots (cmap_set_bucket b i node hash) = (cb_slots b)[i := (hash, node)]"
  by (simp add: cmap_set_bucket_def)

text \<open>What an insertion that succeeds does to the map: \<open>c\<close> comes in front of the chain of
  \<open>hash\<close>, every other chain is untouched, and only the buckets change.\<close>

definition inserts :: "'n cmap_impl \<Rightarrow> 'n list \<Rightarrow> u32 \<Rightarrow> 'n cmap_impl \<Rightarrow> bool" where
  "inserts impl c hash impl' \<longleftrightarrow>
     cmap_wf impl' \<and> same_config impl impl' \<and>
     (\<forall>h d. tbl_chain (nbuckets impl) (slot_at impl) h d \<longrightarrow>
        tbl_chain (nbuckets impl) (slot_at impl') h (if h = hash then c @ d else d))"

lemma cmap_insert_bfs_shifted:
  assumes shape: "cmap_shape impl" and full: "full impl b1" "full impl b2"
    and b: "b1 < nbuckets impl" "b2 < nbuckets impl"
    and ins: "cmap_insert_bfs impl c hash b1 b2 = Some impl'"
  shows "\<exists>m bs ss. shift_path (nbuckets impl) (idx1 impl) (idx2 impl) (slot_at impl) m bs ss \<and>
      shifted (slot_at impl) (slot_at impl') m bs ss (hash, c) \<and> (bs ! 0 = b1 \<or> bs ! 0 = b2)"
    and "cmap_shape impl'" and "same_config impl impl'"
proof -
  from ins obtain p i j where srch: "bfs_search impl (bfs_start b1 b2) 0 = Some (p, i, j)"
    by (auto simp: cmap_insert_bfs_def split: option.splits)
  have found: "bfs_found impl b1 b2 p i j"
    by (rule bfs_search_inv[OF shape bfs_start_inv[OF b full] srch])
  define bs where "bs = path_buckets impl (cp_start p) (cp_slots p @ [i])"
  define ss where "ss = cp_slots p @ [i, j]"
  define mid where "mid = move_back impl (rev (zip bs ss))"
  let ?m = "Suc (depth p)"
  have path: "shift_path (nbuckets impl) (idx1 impl) (idx2 impl) (slot_at impl) ?m bs ss"
    unfolding bs_def ss_def by (rule bfs_found_path[OF shape found])
  then have bs0: "bs ! 0 < nbuckets impl" "ss ! 0 < CMAP_K"
    and len: "length bs = Suc ?m" "length ss = Suc ?m" and dist: "distinct bs"
    and rng: "\<forall>p \<in> set (rev (zip bs ss)). fst p < nbuckets impl \<and> snd p < CMAP_K"
    by (auto simp: shift_path_def in_set_zip less_Suc_eq_le)
  from len have hd: "hd bs = bs ! 0" "hd ss = ss ! 0" by (cases bs; cases ss; simp)+
  from move_back_eq[OF shape rng] have mid: "slot_at mid = shift_list (slot_at impl) (rev (zip bs ss))"
    "cmap_shape mid" "same_config impl mid" by (simp_all add: mid_def)
  note cfg = same_config_idx[OF mid(3)]
  have impl': "impl' = put_bucket mid (bs ! 0)
      (cmap_set_bucket (ci_buckets mid ! (bs ! 0)) (ss ! 0) c hash)"
    using ins srch by (simp add: cmap_insert_bfs_def Let_def hd flip: bs_def ss_def mid_def)
  have S': "slot_at impl' = slot_upd (slot_at mid) (bs ! 0) (ss ! 0) (hash, c)"
    unfolding impl' using mid(2) bs0 cfg(3) by (intro slot_at_put_bucket) simp_all
  have "shifted (slot_at impl) (slot_at impl') ?m bs ss (hash, c)"
    unfolding S' mid(1) by (rule shifted_move_back[OF len dist])
  moreover have "bs ! 0 = b1 \<or> bs ! 0 = b2"
    using found by (simp add: bs_def path_buckets_0 bfs_found_def path_ok_def)
  ultimately show "\<exists>m bs ss. shift_path (nbuckets impl) (idx1 impl) (idx2 impl) (slot_at impl) m bs ss \<and>
      shifted (slot_at impl) (slot_at impl') m bs ss (hash, c) \<and> (bs ! 0 = b1 \<or> bs ! 0 = b2)"
    using path by blast
  show "cmap_shape impl'"
    unfolding impl' using mid(2) bs0 cfg(3)
    by (intro cmap_shape_put_bucket bucket_ok_set_bucket cmap_shape_nth_ok) simp_all
  show "same_config impl impl'"
    unfolding impl' by (rule same_config_trans[OF mid(3)]) simp
qed

lemma cmap_insert_bfs_inserts:
  assumes wf: "cmap_wf impl" and c: "c \<noteq> []"
    and start: "\<And>b. b = idx1 impl hash \<or> b = idx2 impl hash \<Longrightarrow>
        shift_start (idx1 impl) (idx2 impl) (slot_at impl) hash b"
    and ins: "cmap_insert_bfs impl c hash (idx1 impl hash) (idx2 impl hash) = Some impl'"
  shows "inserts impl c hash impl'"
proof -
  let ?B = "nbuckets impl" and ?i1 = "idx1 impl" and ?i2 = "idx2 impl" and ?S = "slot_at impl"
  from wf have shape: "cmap_shape impl" and inv: "tbl_inv ?B ?i1 ?i2 ?S"
    by (simp_all add: cmap_wf_def)
  have full: "full impl (?i1 hash)" "full impl (?i2 hash)"
    using start[of "?i1 hash"] shape by (simp_all add: full_iff shift_start_def)
  note bfs = cmap_insert_bfs_shifted[OF shape full idx_less[OF shape] ins]
  from bfs(1) obtain m bs ss where path: "shift_path ?B ?i1 ?i2 ?S m bs ss"
    and sh: "shifted ?S (slot_at impl') m bs ss (hash, c)"
    and b0: "bs ! 0 = ?i1 hash \<or> bs ! 0 = ?i2 hash" by blast
  note args = inv path sh start[OF b0] c idx_less(1)[OF shape]
  have "tbl_chain ?B (slot_at impl') h (if h = hash then c @ d else d)"
    if "tbl_chain ?B ?S h d" for h d
  proof -
    have "h = hash \<Longrightarrow> d = []"
      using that shift_start_fresh[OF inv start[OF b0]] by (auto simp: tbl_chain_def)
    with that tbl_chain_shifted[OF args, of h d] show ?thesis
      by (cases "h = hash") simp_all
  qed
  with bfs(2,3) tbl_inv_shifted[OF args] same_config_idx[OF bfs(3)] show ?thesis
    by (simp add: inserts_def cmap_wf_def)
qed

section \<open>Insertion into one bucket\<close>

lemma put_slot_inserts:
  assumes wf: "cmap_wf impl" and k: "k < nbuckets impl" and i: "i < CMAP_K"
    and fits: "slot_fits (nbuckets impl) (idx1 impl) (idx2 impl) (slot_at impl) hash k i"
    and b: "bucket_ok b" "cb_slots b = (cb_slots (ci_buckets impl ! k))[i := (hash, v)]"
  shows "cmap_wf (put_bucket impl k b)"
    and "tbl_chain (nbuckets impl) (slot_at (put_bucket impl k b)) h d \<longleftrightarrow>
      (if h = hash then d = v else tbl_chain (nbuckets impl) (slot_at impl) h d)"
proof -
  from wf have shape: "cmap_shape impl" by (rule cmap_wf_shape)
  note S = slot_at_put_bucket[OF shape k i b(2)]
  show "cmap_wf (put_bucket impl k b)"
    using wf cmap_shape_put_bucket[OF shape k b(1)] tbl_inv_slot_upd[OF _ fits]
    by (simp add: cmap_wf_def S)
  show "tbl_chain (nbuckets impl) (slot_at (put_bucket impl k b)) h d \<longleftrightarrow>
      (if h = hash then d = v else tbl_chain (nbuckets impl) (slot_at impl) h d)"
    unfolding S by (rule tbl_chain_slot_upd[OF fits])
qed

text \<open>The contents of the slot a hash fits in, when the slot carries the hash already,
  are the chain of the hash.\<close>

lemma slot_fits_chain:
  assumes "slot_fits B i1 i2 S hash b i" and "fst (S b i) = hash"
    and "tbl_chain B S hash d"
  shows "d = snd (S b i)"
  using assms unfolding slot_fits_def tbl_chain_def tbl_live_def by metis

lemma slot_fits_fresh:
  assumes "slot_fits B i1 i2 S hash b i" and "fst (S b i) \<noteq> hash" and "tbl_chain B S hash d"
  shows "d = []"
  using assms unfolding slot_fits_def tbl_chain_def tbl_live_def by metis

end
