(* ===== verification/Cmap_Refine.thy ===== *)
theory Cmap_Refine
  imports Cmap_Shift
begin

text \<open>
  The cuckoo map refines a multimap: \<open>cmap_find\<close> returns, for every client hash, the
  nodes inserted with it and not removed since, newest first. The chain of facts goes
  from \<open>cmap_try_insert\<close> over rehashing to \<open>cmap_insert\<close> and \<open>cmap_replace\<close>.
\<close>

unbundle bit_operations_syntax

section \<open>Trying the candidate buckets\<close>

lemma slot_fits_dup:
  assumes inv: "tbl_inv B i1 i2 S" and bB: "b < B" and i: "i < CMAP_K" "fst (S b i) = hash"
    and first: "\<And>j. j < i \<Longrightarrow> fst (S b j) \<noteq> hash"
    and b: "b = i1 hash \<or> b = i2 hash \<and> (\<forall>j < CMAP_K. fst (S (i1 hash) j) \<noteq> hash)"
  shows "slot_fits B i1 i2 S hash b i"
proof -
  have "b' = b \<and> i' = i" if l: "tbl_live B S hash b' i'" for b' i'
  proof -
    have i': "i' < CMAP_K" "fst (S b' i') = hash" using l by (auto simp: tbl_live_def)
    have "b' = b"
      using b tbl_placed[OF inv l] tbl_primary[OF inv l _ i(1)] i i' by metis
    moreover from this have "\<not> i' < i" "\<not> i < i'"
      using first[of i'] tbl_first[OF inv l, of i] i i' by auto
    ultimately show ?thesis by simp
  qed
  with assms show ?thesis unfolding slot_fits_def by auto
qed

lemma slot_fits_free:
  assumes inv: "tbl_inv B i1 i2 S" and bB: "b < B" and i: "i < CMAP_K" "snd (S b i) = []"
    and none: "\<forall>j < CMAP_K. fst (S (i1 hash) j) \<noteq> hash" "\<forall>j < CMAP_K. fst (S (i2 hash) j) \<noteq> hash"
    and b: "b = i1 hash \<or> b = i2 hash"
  shows "slot_fits B i1 i2 S hash b i"
proof -
  have "\<not> tbl_live B S hash b' i'" for b' i'
  proof
    assume l: "tbl_live B S hash b' i'"
    from tbl_placed[OF inv l] none l show False by (auto simp: tbl_live_def)
  qed
  moreover have "fst (S b j) \<noteq> hash" if "j < i" for j
    using b
  proof
    assume "b = i1 hash"
    with none(1) that i(1) show ?thesis by simp
  next
    assume "b = i2 hash"
    with none(2) that i(1) show ?thesis by simp
  qed
  ultimately show ?thesis using bB i b none by (simp add: slot_fits_def)
qed

lemma no_hash_iff:
  assumes "cmap_shape impl" and "b < nbuckets impl"
  shows "cmap_insert_dup c hash (ci_buckets impl ! b) = None \<longleftrightarrow>
    (\<forall>j < CMAP_K. fst (slot_at impl b j) \<noteq> hash)"
proof -
  have "cmap_insert_dup c hash (ci_buckets impl ! b) = None \<longleftrightarrow>
      first_slot (\<lambda>s. fst s = hash) (cb_slots (ci_buckets impl ! b)) = None"
    by (simp add: cmap_insert_dup_def del: first_slot_None split: option.splits)
  then show ?thesis
    using cmap_shape_bucket[OF assms] by (auto simp: slot_at_def all_set_conv_all_nth)
qed

lemma dup_inserts:
  assumes wf: "cmap_wf impl" and k: "k < nbuckets impl"
    and b: "k = idx1 impl hash \<or>
      k = idx2 impl hash \<and> (\<forall>j < CMAP_K. fst (slot_at impl (idx1 impl hash) j) \<noteq> hash)"
    and ins: "cmap_insert_dup c hash (ci_buckets impl ! k) = Some b'"
  shows "inserts impl c hash (put_bucket impl k b')"
proof -
  from wf have shape: "cmap_shape impl" and inv: "tbl_inv (nbuckets impl) (idx1 impl) (idx2 impl) (slot_at impl)"
    by (simp_all add: cmap_wf_def)
  from ins obtain i where i: "first_slot (\<lambda>s. fst s = hash) (cb_slots (ci_buckets impl ! k)) = Some i"
    and b': "b' = (ci_buckets impl ! k)\<lparr>cb_slots := (cb_slots (ci_buckets impl ! k))
        [i := (hash, c @ snd (slot_at impl k i))]\<rparr>"
    by (auto simp: cmap_insert_dup_def slot_at_def split: option.splits)
  note D = first_slot_SomeD[OF i, unfolded cmap_shape_bucket[OF shape k], folded slot_at_def]
  have fits: "slot_fits (nbuckets impl) (idx1 impl) (idx2 impl) (slot_at impl) hash k i"
    by (rule slot_fits_dup[OF inv k D b])
  have "bucket_ok b'" using cmap_shape_nth_ok[OF shape k] by (simp add: b' bucket_ok_def)
  note put = put_slot_inserts[OF wf k D(1) fits this, of "c @ snd (slot_at impl k i)"]
  show ?thesis
    using put slot_fits_chain[OF fits D(2)] by (auto simp: inserts_def b')
qed

lemma bucket_inserts:
  assumes wf: "cmap_wf impl" and b: "k = idx1 impl hash \<or> k = idx2 impl hash"
    and none: "\<forall>j < CMAP_K. fst (slot_at impl (idx1 impl hash) j) \<noteq> hash"
      "\<forall>j < CMAP_K. fst (slot_at impl (idx2 impl hash) j) \<noteq> hash"
    and ins: "cmap_insert_bucket c hash (ci_buckets impl ! k) = Some b'"
  shows "inserts impl c hash (put_bucket impl k b')"
proof -
  from wf have shape: "cmap_shape impl" and inv: "tbl_inv (nbuckets impl) (idx1 impl) (idx2 impl) (slot_at impl)"
    by (simp_all add: cmap_wf_def)
  from b shape have k: "k < nbuckets impl" by auto
  from ins obtain i where i: "first_slot (\<lambda>s. snd s = []) (cb_slots (ci_buckets impl ! k)) = Some i"
    and b': "b' = cmap_set_bucket (ci_buckets impl ! k) i c hash"
    by (auto simp: cmap_insert_bucket_def cmap_find_empty_slot_protected_def split: option.splits)
  note D = first_slot_SomeD[OF i, unfolded cmap_shape_bucket[OF shape k], folded slot_at_def]
  have fits: "slot_fits (nbuckets impl) (idx1 impl) (idx2 impl) (slot_at impl) hash k i"
    by (rule slot_fits_free[OF inv k D(1,2) none b])
  have "bucket_ok b'" using cmap_shape_nth_ok[OF shape k] by (simp add: b' bucket_ok_set_bucket)
  note put = put_slot_inserts[OF wf k D(1) fits this, of c]
  have "fst (slot_at impl k i) \<noteq> hash" using none b D(1) by auto
  with put slot_fits_fresh[OF fits] show ?thesis by (auto simp: inserts_def b')
qed

lemma cmap_try_insert_inserts:
  assumes wf: "cmap_wf impl" and c: "c \<noteq> []" and ins: "cmap_try_insert impl c hash = Some impl'"
  shows "inserts impl c hash impl'"
proof -
  let ?b1 = "idx1 impl hash" and ?b2 = "idx2 impl hash"
  from wf have shape: "cmap_shape impl" by (rule cmap_wf_shape)
  note less = idx_less[OF shape, of hash]
  note none = no_hash_iff[OF shape less(1), of c hash] no_hash_iff[OF shape less(2), of c hash]
  note ins' = ins[unfolded cmap_try_insert_def Let_def, folded idx1_def idx2_def]
  consider (dup1) b where "cmap_insert_dup c hash (ci_buckets impl ! ?b1) = Some b"
    | (dup2) b where "cmap_insert_dup c hash (ci_buckets impl ! ?b1) = None"
        "cmap_insert_dup c hash (ci_buckets impl ! ?b2) = Some b"
    | (none) "cmap_insert_dup c hash (ci_buckets impl ! ?b1) = None"
        "cmap_insert_dup c hash (ci_buckets impl ! ?b2) = None"
    by fastforce
  then show ?thesis
  proof cases
    case dup1
    with dup_inserts[OF wf less(1) _ dup1] ins' show ?thesis by simp
  next
    case dup2
    with dup_inserts[OF wf less(2) _ dup2(2)] ins' none(1) show ?thesis by simp
  next
    case none': none
    note new = none'[unfolded none]
    note put = bucket_inserts[OF wf _ new]
    show ?thesis
    proof (cases "cmap_insert_bucket c hash (ci_buckets impl ! ?b1)";
        cases "cmap_insert_bucket c hash (ci_buckets impl ! ?b2)")
      assume f: "cmap_insert_bucket c hash (ci_buckets impl ! ?b1) = None"
        "cmap_insert_bucket c hash (ci_buckets impl ! ?b2) = None"
      then have "full impl ?b1" "full impl ?b2"
        by (simp_all add: full_def cmap_insert_bucket_def split: option.splits)
      with less shape new have "b = ?b1 \<or> b = ?b2 \<Longrightarrow>
          shift_start (idx1 impl) (idx2 impl) (slot_at impl) hash b" for b
        by (simp add: full_iff shift_start_def)
      with cmap_insert_bfs_inserts[OF wf c] ins' f none' show ?thesis by simp
    qed (use put ins' none' in auto)
  qed
qed

section \<open>Search and the multimap it sees\<close>

text \<open>The multimap a cuckoo map stands for: what \<open>cmap_find\<close> returns.\<close>

definition cmap_abs :: "'n cmap_impl \<Rightarrow> u32 \<Rightarrow> 'n list" where
  "cmap_abs impl h = (case cmap_find impl h of None \<Rightarrow> [] | Some c \<Rightarrow> c)"

lemma find_in_bucket_chain:
  assumes shape: "cmap_shape impl" and b: "b < nbuckets impl"
  shows "(\<exists>i < CMAP_K. fst (slot_at impl b i) = h \<and> (\<forall>j < i. fst (slot_at impl b j) \<noteq> h) \<and>
           cmap_find_in_bucket (ci_buckets impl ! b) h = snd (slot_at impl b i)) \<or>
         (\<forall>i < CMAP_K. fst (slot_at impl b i) \<noteq> h) \<and>
           cmap_find_in_bucket (ci_buckets impl ! b) h = []"
proof (cases "first_slot (\<lambda>s. fst s = h) (cb_slots (ci_buckets impl ! b))")
  case None
  then have "\<forall>i < CMAP_K. fst (slot_at impl b i) \<noteq> h"
    using cmap_shape_bucket[OF assms] by (auto simp: slot_at_def)
  with None show ?thesis by (simp add: cmap_find_in_bucket_def del: first_slot_None)
next
  case (Some i)
  note D = first_slot_SomeD[OF Some, unfolded cmap_shape_bucket[OF assms], folded slot_at_def]
  have "cmap_find_in_bucket (ci_buckets impl ! b) h = snd (slot_at impl b i)"
    by (simp add: cmap_find_in_bucket_def Some slot_at_def)
  with D show ?thesis by blast
qed

lemma find_in_bucket_live:
  assumes wf: "cmap_wf impl" and l: "tbl_live (nbuckets impl) (slot_at impl) h b i"
  shows "cmap_find_in_bucket (ci_buckets impl ! b) h = snd (slot_at impl b i)"
proof -
  from wf have shape: "cmap_shape impl" and inv: "tbl_inv (nbuckets impl) (idx1 impl) (idx2 impl) (slot_at impl)"
    by (simp_all add: cmap_wf_def)
  from l have b: "b < nbuckets impl" and i: "i < CMAP_K" "fst (slot_at impl b i) = h"
    by (simp_all add: tbl_live_def)
  from find_in_bucket_chain[OF shape b, of h] i obtain j where
    j: "j < CMAP_K" "fst (slot_at impl b j) = h" "\<forall>k < j. fst (slot_at impl b k) \<noteq> h"
    "cmap_find_in_bucket (ci_buckets impl ! b) h = snd (slot_at impl b j)" by blast
  from j i tbl_first[OF inv l, of j] have "j = i" by (metis linorder_neqE_nat)
  with j show ?thesis by simp
qed

lemma find_in_bucket_not_live:
  assumes shape: "cmap_shape impl" and b: "b < nbuckets impl"
    and l: "\<forall>i. \<not> tbl_live (nbuckets impl) (slot_at impl) h b i"
  shows "cmap_find_in_bucket (ci_buckets impl ! b) h = []"
  using find_in_bucket_chain[OF shape b, of h] b l unfolding tbl_live_def by metis

lemma cmap_find_buckets_eq:
  assumes "cmap_shape impl"
  shows "cmap_find impl h =
    (let c = cmap_find_in_bucket (ci_buckets impl ! idx1 impl h) h
     in Some (if c \<noteq> [] then c else cmap_find_in_bucket (ci_buckets impl ! idx2 impl h) h))"
  using cmap_shape_counter[OF assms] idx_less[OF assms, of h]
  by (simp add: cmap_find_def cmap_find_buckets_def read_even_counter_def Let_def
      flip: idx1_def idx2_def)

lemma cmap_find_abs: "cmap_shape impl \<Longrightarrow> cmap_find impl h = Some (cmap_abs impl h)"
  by (simp add: cmap_abs_def cmap_find_buckets_eq Let_def)

lemma cmap_abs_chain:
  assumes wf: "cmap_wf impl"
  shows "tbl_chain (nbuckets impl) (slot_at impl) h (cmap_abs impl h)"
proof -
  let ?f = "\<lambda>b. cmap_find_in_bucket (ci_buckets impl ! b) h"
  from wf have shape: "cmap_shape impl" and inv: "tbl_inv (nbuckets impl) (idx1 impl) (idx2 impl) (slot_at impl)"
    by (simp_all add: cmap_wf_def)
  have abs: "cmap_abs impl h = (if ?f (idx1 impl h) \<noteq> [] then ?f (idx1 impl h) else ?f (idx2 impl h))"
    by (simp add: cmap_abs_def cmap_find_buckets_eq[OF shape] Let_def)
  show ?thesis
  proof (cases "\<exists>b i. tbl_live (nbuckets impl) (slot_at impl) h b i")
    case True
    then obtain b i where l: "tbl_live (nbuckets impl) (slot_at impl) h b i" by blast
    have "?f (idx1 impl h) = []" if "b \<noteq> idx1 impl h"
      using find_in_bucket_not_live[OF shape idx_less(1)[OF shape]] tbl_unique[OF inv l] that by blast
    moreover have "?f b = snd (slot_at impl b i)" "snd (slot_at impl b i) \<noteq> []"
      using find_in_bucket_live[OF wf l] l by (simp_all add: tbl_live_def)
    ultimately have "cmap_abs impl h = snd (slot_at impl b i)"
      using tbl_placed[OF inv l] abs by (cases "b = idx1 impl h") simp_all
    with l show ?thesis by (auto simp: tbl_chain_def tbl_live_def)
  next
    case False
    with find_in_bucket_not_live[OF shape] shape abs show ?thesis by (simp add: tbl_chain_def)
  qed
qed

lemma cmap_abs_eq:
  assumes "cmap_wf impl" and "tbl_chain (nbuckets impl) (slot_at impl) h c"
  shows "cmap_abs impl h = c"
  using assms(1) by (intro tbl_chain_fun[OF _ cmap_abs_chain[OF assms(1)] assms(2)])
    (auto simp: cmap_wf_def)

lemma inserts_abs:
  assumes wf: "cmap_wf impl" and ins: "inserts impl c hash impl'"
  shows "cmap_abs impl' = (cmap_abs impl)(hash := c @ cmap_abs impl hash)"
proof
  fix h
  from ins have wf': "cmap_wf impl'" and cfg: "same_config impl impl'" by (simp_all add: inserts_def)
  have "tbl_chain (nbuckets impl') (slot_at impl') h
      (if h = hash then c @ cmap_abs impl h else cmap_abs impl h)"
    using ins cmap_abs_chain[OF wf, of h] same_config_idx[OF cfg] by (simp add: inserts_def)
  from cmap_abs_eq[OF wf' this] show "cmap_abs impl' h = ((cmap_abs impl)(hash := c @ cmap_abs impl hash)) h"
    by simp
qed

end
