(* ===== verification/Cmap_Ops.thy ===== *)
theory Cmap_Ops
  imports Cmap_Refine
begin

text \<open>
  The operations of the cuckoo map on the multimap it stands for: rehashing keeps the
  multimap, \<open>cmap_insert\<close> adds a node in front of the chain of its hash, \<open>cmap_remove\<close>
  takes it out. The retry loops draw random bases and need not end, so each operation
  either returns the right map or does not return; \<open>Cmap_Total\<close> says when it returns.
\<close>

unbundle bit_operations_syntax

section \<open>Rehashing\<close>

definition slots_of :: "'n cmap_impl \<Rightarrow> (u32 \<times> 'n list) list" where
  "slots_of impl = concat (map cb_slots (ci_buckets impl))"

definition slots_chain :: "(u32 \<times> 'n list) list \<Rightarrow> u32 \<Rightarrow> 'n list" where
  "slots_chain ss h = concat (rev (map snd (filter (\<lambda>s. fst s = h) ss)))"

lemma slots_chain_simps [simp]:
  "slots_chain [] h = []"
  "slots_chain (s # ss) h = slots_chain ss h @ (if fst s = h then snd s else [])"
  "slots_chain (ss @ ts) h = slots_chain ts h @ slots_chain ss h"
  by (simp_all add: slots_chain_def)

lemma slots_chain_Nil: "(\<And>s. s \<in> set ss \<Longrightarrow> fst s = h \<Longrightarrow> snd s = []) \<Longrightarrow> slots_chain ss h = []"
  by (induction ss) auto

lemma try_rehash_slots_abs:
  "cmap_wf new \<Longrightarrow> try_rehash_slots ss new = Some new' \<Longrightarrow>
     cmap_wf new' \<and> same_config new new' \<and>
     cmap_abs new' = (\<lambda>h. slots_chain ss h @ cmap_abs new h)"
proof (induction ss new rule: try_rehash_slots.induct)
  case (2 h c ss new)
  show ?case
  proof (cases "c = []")
    case True
    with "2.IH"(2) "2.prems" show ?thesis by (auto simp: fun_eq_iff)
  next
    case False
    then obtain mid where mid: "cmap_try_insert new c h = Some mid"
      and rest: "try_rehash_slots ss mid = Some new'"
      using "2.prems"(2) by (auto split: option.splits)
    note ins = cmap_try_insert_inserts[OF "2.prems"(1) False mid]
    then have "cmap_wf mid" "same_config new mid" by (simp_all add: inserts_def)
    with "2.IH"(1)[OF False mid] rest inserts_abs[OF "2.prems"(1) ins] show ?thesis
      by (auto simp: fun_eq_iff intro: same_config_trans)
  qed
qed simp

text \<open>The slots in the order \<open>cmap_try_rehash\<close> visits them.\<close>

definition positions :: "'n cmap_impl \<Rightarrow> (nat \<times> nat) list" where
  "positions impl = List.product [0..<nbuckets impl] [0..<CMAP_K]"

lemma positions_simps [simp]:
  "distinct (positions impl)"
  "(b, i) \<in> set (positions impl) \<longleftrightarrow> b < nbuckets impl \<and> i < CMAP_K"
  by (auto simp: positions_def distinct_product)

lemma slots_of_positions:
  assumes "cmap_shape impl"
  shows "slots_of impl = map (\<lambda>(b, i). slot_at impl b i) (positions impl)"
proof -
  have "cb_slots (ci_buckets impl ! b) = map (slot_at impl b) [0..<CMAP_K]" if "b < nbuckets impl" for b
    using cmap_shape_bucket[OF assms that] map_nth[of "cb_slots (ci_buckets impl ! b)"]
    by (simp add: slot_at_def[abs_def])
  then have "map cb_slots (map ((!) (ci_buckets impl)) [0..<nbuckets impl]) =
      map (\<lambda>b. map (slot_at impl b) [0..<CMAP_K]) [0..<nbuckets impl]"
    by simp
  then have "map cb_slots (ci_buckets impl) =
      map (\<lambda>b. map (slot_at impl b) [0..<CMAP_K]) [0..<nbuckets impl]"
    by (simp only: map_nth)
  then show ?thesis
    by (simp add: slots_of_def positions_def product_concat_map map_concat comp_def)
qed

lemma slots_chain_unique:
  assumes "distinct ps" and "p \<in> set ps" and "fst (f p) = h"
    and "\<And>q. q \<in> set ps \<Longrightarrow> q \<noteq> p \<Longrightarrow> fst (f q) = h \<Longrightarrow> snd (f q) = []"
  shows "slots_chain (map f ps) h = snd (f p)"
  using assms
proof (induction ps)
  case (Cons q ps)
  show ?case
  proof (cases "q = p")
    case True
    have "slots_chain (map f ps) h = []"
    proof (rule slots_chain_Nil)
      fix s
      assume "s \<in> set (map f ps)" "fst s = h"
      then obtain q' where "q' \<in> set ps" "s = f q'" "fst (f q') = h" by auto
      with Cons.prems(1) Cons.prems(4)[of q'] True show "snd s = []" by auto
    qed
    with True Cons.prems(3) show ?thesis by simp
  next
    case False
    with Cons show ?thesis by auto
  qed
qed simp

lemma slots_chain_abs:
  assumes wf: "cmap_wf impl"
  shows "slots_chain (slots_of impl) h = cmap_abs impl h"
proof (rule sym, rule cmap_abs_eq[OF wf])
  from wf have shape: "cmap_shape impl" and inv: "tbl_inv (nbuckets impl) (idx1 impl) (idx2 impl) (slot_at impl)"
    by (simp_all add: cmap_wf_def)
  let ?f = "\<lambda>(b, i). slot_at impl b i"
  show "tbl_chain (nbuckets impl) (slot_at impl) h (slots_chain (slots_of impl) h)"
  proof (cases "\<exists>b i. tbl_live (nbuckets impl) (slot_at impl) h b i")
    case True
    then obtain b i where l: "tbl_live (nbuckets impl) (slot_at impl) h b i" by blast
    have other: "snd (?f q) = []" if q: "q \<in> set (positions impl)" "q \<noteq> (b, i)" "fst (?f q) = h" for q
    proof (cases q)
      case (Pair b' i')
      from q[unfolded Pair] tbl_unique[OF inv l, of b' i'] show ?thesis
        by (auto simp: tbl_live_def Pair)
    qed
    with l have "slots_chain (map ?f (positions impl)) h = snd (?f (b, i))"
      by (intro slots_chain_unique) (auto simp: tbl_live_def)
    with l show ?thesis
      by (auto simp: slots_of_positions[OF shape] tbl_chain_def tbl_live_def)
  next
    case False
    then have "slots_chain (map ?f (positions impl)) h = []"
      by (intro slots_chain_Nil) (auto simp: tbl_live_def)
    with False show ?thesis by (simp add: slots_of_positions[OF shape] tbl_chain_def)
  qed
qed

text \<open>An empty table, whatever its basis, is well formed.\<close>

lemma zero_buckets_wf:
  assumes "ci_buckets impl = zero_buckets (Suc (unat (ci_mask impl)))"
  shows "cmap_wf impl" and "cmap_abs impl = (\<lambda>h. [])"
proof -
  have shape: "cmap_shape impl"
    using assms by (auto simp: cmap_shape_def zero_buckets_def bucket_ok_def)
  have no: "\<not> tbl_live (nbuckets impl) (slot_at impl) h b i" for h b i
    using assms by (auto simp: tbl_live_def slot_at_def zero_buckets_def simp del: replicate_Suc)
  with shape show wf: "cmap_wf impl" by (simp add: cmap_wf_def tbl_inv_def)
  show "cmap_abs impl = (\<lambda>h. [])"
    by (rule ext, rule cmap_abs_eq[OF wf]) (simp add: tbl_chain_def no)
qed

definition rehashed :: "'n cmap_impl \<Rightarrow> 'n cmap_impl \<Rightarrow> 'n cmap_impl \<Rightarrow> bool" where
  "rehashed old new new' \<longleftrightarrow>
     cmap_wf new' \<and> cmap_abs new' = cmap_abs old \<and> ci_mask new' = ci_mask new \<and>
     ci_max_n new' = ci_max_n new \<and> ci_min_n new' = ci_min_n new"

lemma rehash_loop_rehashed:
  "rehash_loop old new seed = Some r \<Longrightarrow> cmap_wf old \<Longrightarrow> ci_mask new + 1 \<noteq> 0 \<Longrightarrow>
     ci_buckets new = zero_buckets (Suc (unat (ci_mask new))) \<Longrightarrow> rehashed old new (fst r)"
proof (induction rule: rehash_loop.raw_induct[rotated, consumes 1, case_names step])
  case (step loop old new seed r)
  show ?case
  proof (cases "cmap_try_rehash old new")
    case (Some new')
    note zero = zero_buckets_wf[OF step.prems(3)]
    from Some have "try_rehash_slots (slots_of old) new = Some new'"
      by (simp add: cmap_try_rehash_def slots_of_def)
    from try_rehash_slots_abs[OF zero(1) this] slots_chain_abs[OF step.prems(1)] zero(2)
    have "rehashed old new new'" by (simp add: rehashed_def same_config_def)
    with step.hyps Some show ?thesis by auto
  next
    case None
    let ?new = "new\<lparr>ci_basis := fst (random_uint32 seed),
      ci_buckets := zero_buckets (unat (ci_mask new + 1))\<rparr>"
    from None step.hyps have "loop old ?new (snd (random_uint32 seed)) = Some r"
      by (simp add: case_prod_beta Let_def)
    from step.IH[OF this step.prems(1)] step.prems(2) have "rehashed old ?new (fst r)"
      by (simp add: unatSuc[symmetric] add.commute)
    then show ?thesis by (simp add: rehashed_def)
  qed
qed

section \<open>The invariant of the map\<close>

text \<open>The limits follow from the mask, the mask is one less than a power of two, and \<open>n\<close>
  counts the nodes in all chains.\<close>

definition cmap_limits :: "'n cmap_impl \<Rightarrow> bool" where
  "cmap_limits impl \<longleftrightarrow>
     is_pow2 (ucast (ci_mask impl + 1)) \<and> ci_max_n impl = calc_max_n (ci_mask impl) \<and>
     ci_min_n impl = calc_min_n (ci_mask impl)"

definition cmap_size :: "'n cmap_impl \<Rightarrow> nat" where
  "cmap_size impl = (\<Sum>h \<in> UNIV. length (cmap_abs impl h))"

definition cmap_inv :: "'n cmap_impl \<Rightarrow> bool" where
  "cmap_inv impl \<longleftrightarrow>
     cmap_wf impl \<and> cmap_limits impl \<and> ci_n impl \<le> ci_max_n impl \<and>
     unat (ci_n impl) = cmap_size impl"

lemma cmap_limits_mask: "cmap_limits impl \<Longrightarrow> ci_mask impl + 1 \<noteq> 0"
  by (auto simp: cmap_limits_def is_pow2_def)

lemma cmap_abs_n [simp]: "cmap_abs (impl\<lparr>ci_n := n\<rparr>) = cmap_abs impl"
  by (simp add: fun_eq_iff cmap_abs_def cmap_find_def rehash_def bucket_idx_def)

lemma cmap_wf_n [simp]: "cmap_wf (impl\<lparr>ci_n := n\<rparr>) = cmap_wf impl"
  using idx_cong[of "impl\<lparr>ci_n := n\<rparr>" impl]
  by (simp add: cmap_wf_def cmap_shape_def slot_at_def[abs_def])

lemma cmap_limits_n [simp]: "cmap_limits (impl\<lparr>ci_n := n\<rparr>) = cmap_limits impl"
  by (simp add: cmap_limits_def)

lemma cmap_size_n [simp]: "cmap_size (impl\<lparr>ci_n := n\<rparr>) = cmap_size impl"
  by (simp add: cmap_size_def)

lemma cmap_size_cong: "cmap_abs impl = cmap_abs impl' \<Longrightarrow> cmap_size impl = cmap_size impl'"
  by (simp add: cmap_size_def)

lemma sum_update:
  fixes f :: "u32 \<Rightarrow> nat"
  shows "(\<Sum>h \<in> UNIV. (f(k := v)) h) + f k = (\<Sum>h \<in> UNIV. f h) + v"
proof -
  have *: "(\<Sum>h \<in> UNIV. g h) = g k + (\<Sum>h \<in> UNIV - {k}. g h)" for g :: "u32 \<Rightarrow> nat"
    by (simp add: sum.remove)
  show ?thesis unfolding *[of f] *[of "f(k := v)"] by simp
qed

lemma cmap_size_update:
  assumes "cmap_abs impl' = (cmap_abs impl)(hash := c)"
  shows "cmap_size impl' + length (cmap_abs impl hash) = cmap_size impl + length c"
proof -
  have "length (cmap_abs impl' h) = ((\<lambda>h. length (cmap_abs impl h))(hash := length c)) h" for h
    by (simp add: assms)
  then have "cmap_size impl' = (\<Sum>h \<in> UNIV. ((\<lambda>h. length (cmap_abs impl h))(hash := length c)) h)"
    by (simp only: cmap_size_def)
  then show ?thesis
    using sum_update[of "\<lambda>h. length (cmap_abs impl h)" hash "length c"]
    by (simp only: cmap_size_def)
qed

lemma cmap_impl_create_zero:
  assumes "cmap_impl_create msk seed = Inr (impl, seed')"
  shows "ci_mask impl = msk" and "cmap_limits impl" and "ci_n impl = 0"
    and "ci_buckets impl = zero_buckets (Suc (unat (ci_mask impl)))"
proof -
  from assms have p: "is_pow2 (ucast (msk + 1))"
    by (auto simp: cmap_impl_create_def split: if_splits)
  then have "msk + 1 \<noteq> 0" by (auto simp: is_pow2_def)
  with assms p show "ci_mask impl = msk" "cmap_limits impl" "ci_n impl = 0"
      "ci_buckets impl = zero_buckets (Suc (unat (ci_mask impl)))"
    by (auto simp: cmap_impl_create_def cmap_limits_def Let_def case_prod_beta
        unatSuc[symmetric] add.commute)
qed

lemma cmap_rehash_correct:
  assumes run: "cmap_rehash old msk seed = Inr (new, seed')" and wf: "cmap_wf old"
  shows "cmap_wf new" and "cmap_abs new = cmap_abs old" and "cmap_limits new"
    and "ci_mask new = msk" and "ci_n new = ci_n old" and "ci_n new < ci_max_n new"
proof -
  from run obtain z s r where z: "cmap_impl_create msk seed = Inr (z, s)"
    and less: "ci_n old < ci_max_n z" and loop: "rehash_loop old z s = Some r"
    and new: "new = (fst r)\<lparr>ci_n := ci_n old\<rparr>"
    by (auto simp: cmap_rehash_def rbind_eq_Inr split: prod.splits if_splits)
  note c = cmap_impl_create_zero[OF z]
  have "rehashed old z (fst r)"
    using rehash_loop_rehashed[OF loop wf cmap_limits_mask[OF c(2)] c(4)] .
  with c less new show "cmap_wf new" "cmap_abs new = cmap_abs old" "cmap_limits new"
    "ci_mask new = msk" "ci_n new = ci_n old" "ci_n new < ci_max_n new"
    by (simp_all add: rehashed_def cmap_limits_def)
qed

section \<open>Insertion\<close>

lemma insert_loop_correct:
  "insert_loop impl node hash seed = Some r \<Longrightarrow> cmap_wf impl \<Longrightarrow> cmap_limits impl \<Longrightarrow>
     ci_n impl < ci_max_n impl \<Longrightarrow> r = Inr (impl', seed') \<Longrightarrow>
     cmap_wf impl' \<and> cmap_limits impl' \<and> ci_n impl' = ci_n impl \<and> ci_n impl' < ci_max_n impl' \<and>
     cmap_abs impl' = (cmap_abs impl)(hash := node # cmap_abs impl hash)"
proof (induction rule: insert_loop.raw_induct[rotated, consumes 1, case_names step])
  case (step loop impl node hash seed r)
  note wf = step.prems(1)
  show ?case
  proof (cases "cmap_try_insert impl [node] hash")
    case (Some mid)
    note ins = cmap_try_insert_inserts[OF wf _ Some]
    from step.hyps Some step.prems(4) have "impl' = mid" by simp
    with ins inserts_abs[OF wf ins] step.prems(2,3) show ?thesis
      by (simp add: inserts_def same_config_def cmap_limits_def)
  next
    case None
    then obtain q where q: "cmap_rehash impl (ci_mask impl) seed = Inr q"
      and rest: "loop (fst q) node hash (snd q) = Some r"
      using step.hyps step.prems(4) by (auto split: sum.splits)
    from q have "cmap_rehash impl (ci_mask impl) seed = Inr (fst q, snd q)" by simp
    note R = cmap_rehash_correct[OF this wf]
    from step.IH[OF rest R(1,3,6) step.prems(4)] R show ?thesis by auto
  qed
qed

lemma word_inc:
  fixes x :: "'a :: len word"
  assumes "x < y"
  shows "unat (x + 1) = Suc (unat x)" and "x + 1 \<le> y"
proof -
  have "x + 1 \<noteq> 0"
  proof
    assume "x + 1 = 0"
    then have "x = - 1" by (simp add: eq_neg_iff_add_eq_0)
    with assms show False using word_n1_ge[of y] by simp
  qed
  then show "unat (x + 1) = Suc (unat x)" using unatSuc[of x] by (simp add: add.commute)
  with assms show "x + 1 \<le> y" by (simp add: word_le_nat_alt word_less_nat_alt)
qed

lemma cmap_insert_correct:
  assumes inv: "cmap_inv impl" and run: "cmap_insert impl node hash seed = Inr (impl', seed')"
  shows "cmap_inv impl'" and "cmap_abs impl' = (cmap_abs impl)(hash := node # cmap_abs impl hash)"
    and "ci_n impl' = ci_n impl + 1"
proof -
  have wf: "cmap_wf impl" and lim: "cmap_limits impl" and size: "unat (ci_n impl) = cmap_size impl"
    using inv by (simp_all add: cmap_inv_def)
  from run obtain mid s r where
    grow: "(if ci_max_n impl \<le> ci_n impl then cmap_rehash impl (push_bit 1 (ci_mask impl) OR 1) seed
       else Inr (impl, seed)) = Inr (mid, s)"
    and loop: "insert_loop mid node hash s = Some (Inr r)"
    and impl': "impl' = (fst r)\<lparr>ci_n := ci_n (fst r) + 1\<rparr>"
    by (auto simp: cmap_insert_def rbind_eq_Inr split: prod.splits)
  have mid: "cmap_wf mid \<and> cmap_limits mid \<and> cmap_abs mid = cmap_abs impl \<and>
      ci_n mid = ci_n impl \<and> ci_n mid < ci_max_n mid"
    using grow wf lim cmap_rehash_correct[of impl _ seed mid s] by (auto split: if_splits)
  have "r = (fst r, snd r)" by simp
  with insert_loop_correct[OF loop, of "fst r" "snd r"] mid
  have r: "cmap_wf (fst r)" "cmap_limits (fst r)" "ci_n (fst r) = ci_n impl"
    "ci_n (fst r) < ci_max_n (fst r)"
    "cmap_abs (fst r) = (cmap_abs impl)(hash := node # cmap_abs impl hash)" by auto
  show abs: "cmap_abs impl' = (cmap_abs impl)(hash := node # cmap_abs impl hash)"
    and n: "ci_n impl' = ci_n impl + 1"
    using r by (simp_all add: impl')
  have le: "ci_n impl' \<le> ci_max_n impl'" and "unat (ci_n impl') = Suc (unat (ci_n impl))"
    using r word_inc[OF r(4)] by (simp_all add: impl')
  with cmap_size_update[OF abs] size r show "cmap_inv impl'"
    by (simp add: cmap_inv_def) (simp add: impl')
qed

section \<open>Replacement and removal\<close>

lemma chain_replace_None:
  "chain_replace node None c = (if node \<in> set c then Inr (remove1 node c) else Inl Null_Deref)"
  by (induction c) auto

lemma chain_replace_Some:
  "chain_replace node (Some r) c =
     (if node \<in> set c
      then Inr (takeWhile (\<lambda>x. x \<noteq> node) c @ r # tl (dropWhile (\<lambda>x. x \<noteq> node) c))
      else Inl Null_Deref)"
  by (induction c) auto

lemma length_replace_first:
  "x \<in> set xs \<Longrightarrow>
     length (takeWhile (\<lambda>y. y \<noteq> x) xs @ r # tl (dropWhile (\<lambda>y. y \<noteq> x) xs)) = length xs"
proof (drule split_list_first, elim exE conjE)
  fix ys zs assume *: "xs = ys @ x # zs" "x \<notin> set ys"
  then have "takeWhile (\<lambda>y. y \<noteq> x) xs = ys" "dropWhile (\<lambda>y. y \<noteq> x) xs = x # zs"
    by (auto simp: takeWhile_append dropWhile_append)
  with * show ?thesis by simp
qed

lemma slot_fits_live:
  assumes inv: "tbl_inv B i1 i2 S" and l: "tbl_live B S h b i"
  shows "slot_fits B i1 i2 S h b i"
proof -
  have "b' = b \<and> i' = i" if "tbl_live B S h b' i'" for b' i'
    using tbl_unique[OF inv that l] .
  moreover from l have "b < B" "i < CMAP_K" "fst (S b i) = h" by (simp_all add: tbl_live_def)
  ultimately show ?thesis
    using tbl_placed[OF inv l] tbl_first[OF inv l] tbl_primary[OF inv l]
    unfolding slot_fits_def by blast
qed

lemma live_abs:
  assumes wf: "cmap_wf impl" and l: "tbl_live (nbuckets impl) (slot_at impl) h b i"
  shows "cmap_abs impl h = snd (slot_at impl b i)"
  using l by (intro cmap_abs_eq[OF wf]) (auto simp: tbl_chain_def tbl_live_def)

text \<open>The map after the chain of \<open>hash\<close> became \<open>c\<close>.\<close>

definition rechained :: "'n cmap_impl \<Rightarrow> u32 \<Rightarrow> 'n list \<Rightarrow> 'n cmap_impl \<Rightarrow> bool" where
  "rechained impl hash c impl' \<longleftrightarrow>
     cmap_wf impl' \<and> same_config impl impl' \<and> cmap_abs impl' = (cmap_abs impl)(hash := c)"

lemma put_slot_rechained:
  assumes wf: "cmap_wf impl" and l: "tbl_live (nbuckets impl) (slot_at impl) hash k i"
    and b: "b = (ci_buckets impl ! k)\<lparr>cb_slots := (cb_slots (ci_buckets impl ! k))[i := (hash, c)]\<rparr>"
  shows "rechained impl hash c (put_bucket impl k b)"
proof -
  from wf have shape: "cmap_shape impl" and inv: "tbl_inv (nbuckets impl) (idx1 impl) (idx2 impl) (slot_at impl)"
    by (simp_all add: cmap_wf_def)
  from l have ki: "k < nbuckets impl" "i < CMAP_K" by (simp_all add: tbl_live_def)
  have "bucket_ok b" using cmap_shape_nth_ok[OF shape ki(1)] by (simp add: b bucket_ok_def)
  note put = put_slot_inserts[OF wf ki slot_fits_live[OF inv l] this, of c]
  have slots: "cb_slots b = (cb_slots (ci_buckets impl ! k))[i := (hash, c)]" by (simp add: b)
  have "cmap_abs (put_bucket impl k b) h = ((cmap_abs impl)(hash := c)) h" for h
    using put(2)[OF slots, of h] cmap_abs_chain[OF wf, of h]
    by (intro cmap_abs_eq[OF put(1)[OF slots]]) simp
  with put(1)[OF slots] show ?thesis by (auto simp: rechained_def)
qed

lemma find_slot_protected_live:
  assumes "cmap_shape impl" and "k < nbuckets impl"
  shows "cmap_find_slot_protected (ci_buckets impl ! k) hash = Some i \<Longrightarrow>
      tbl_live (nbuckets impl) (slot_at impl) hash k i"
    and "cmap_find_slot_protected (ci_buckets impl ! k) hash = None \<Longrightarrow>
      \<not> tbl_live (nbuckets impl) (slot_at impl) hash k j"
  using assms(2) cmap_shape_bucket[OF assms]
  by (auto simp: cmap_find_slot_protected_def tbl_live_def slot_at_def first_slot_Some)

text \<open>One candidate bucket: it is left alone if the hash is not in use there, otherwise the
  chain is rewritten or walked past its end.\<close>

lemma cmap_replace_bucket_cases:
  assumes wf: "cmap_wf impl" and k: "k = bucket_idx impl h"
  obtains (absent) "cmap_replace_bucket impl node rep hash h = Inr None"
      "\<And>i. \<not> tbl_live (nbuckets impl) (slot_at impl) hash k i"
    | (fault) e where "cmap_replace_bucket impl node rep hash h = Inl e"
      "chain_replace node rep (cmap_abs impl hash) = Inl e" "cmap_abs impl hash \<noteq> []"
    | (found) c impl' where "cmap_replace_bucket impl node rep hash h = Inr (Some impl')"
      "chain_replace node rep (cmap_abs impl hash) = Inr c" "rechained impl hash c impl'"
      "cmap_abs impl hash \<noteq> []"
proof (cases "cmap_find_slot_protected (ci_buckets impl ! k) hash")
  case None
  have "k < nbuckets impl" using bucket_idx_less cmap_wf_shape[OF wf] k by blast
  with None find_slot_protected_live(2)[OF cmap_wf_shape[OF wf]] k show ?thesis
    by (intro absent) (auto simp: cmap_replace_bucket_def Let_def)
next
  case (Some i)
  have kB: "k < nbuckets impl" using bucket_idx_less cmap_wf_shape[OF wf] k by blast
  note l = find_slot_protected_live(1)[OF cmap_wf_shape[OF wf] kB Some]
  note abs = live_abs[OF wf l]
  from l have h: "fst (cb_slots (ci_buckets impl ! k) ! i) = hash" and ne: "cmap_abs impl hash \<noteq> []"
    by (simp_all add: tbl_live_def abs slot_at_def[symmetric])
  show ?thesis
  proof (cases "chain_replace node rep (cmap_abs impl hash)")
    case (Inl e)
    with Some k abs ne show ?thesis
      by (intro fault) (auto simp: cmap_replace_bucket_def Let_def slot_at_def)
  next
    case (Inr c)
    with Some k abs h ne put_slot_rechained[OF wf l refl] show ?thesis
      by (intro found) (auto simp: cmap_replace_bucket_def Let_def slot_at_def)
  qed
qed

lemma not_live_abs:
  assumes wf: "cmap_wf impl"
    and "\<And>i. \<not> tbl_live (nbuckets impl) (slot_at impl) hash (idx1 impl hash) i"
    and "\<And>i. \<not> tbl_live (nbuckets impl) (slot_at impl) hash (idx2 impl hash) i"
  shows "cmap_abs impl hash = []"
proof (rule cmap_abs_eq[OF wf])
  have "\<not> tbl_live (nbuckets impl) (slot_at impl) hash b i" for b i
  proof
    assume l: "tbl_live (nbuckets impl) (slot_at impl) hash b i"
    have "tbl_inv (nbuckets impl) (idx1 impl) (idx2 impl) (slot_at impl)"
      using wf by (simp add: cmap_wf_def)
    from tbl_placed[OF this l] l assms(2,3) show False by blast
  qed
  then show "tbl_chain (nbuckets impl) (slot_at impl) hash []" by (simp add: tbl_chain_def)
qed

lemma cmap_replace_cases:
  assumes wf: "cmap_wf impl"
  obtains (absent) "cmap_replace impl node rep hash seed = Inl Assert_Fail" "cmap_abs impl hash = []"
    | (fault) e where "cmap_replace impl node rep hash seed = Inl e"
      "chain_replace node rep (cmap_abs impl hash) = Inl e" "cmap_abs impl hash \<noteq> []"
    | (found) c mid where "chain_replace node rep (cmap_abs impl hash) = Inr c"
      "rechained impl hash c mid" "cmap_abs impl hash \<noteq> []"
      "cmap_replace impl node rep hash seed =
         (let m = mid\<lparr>ci_n := ci_n mid - 1\<rparr>
          in if rep \<noteq> None then Inr (mid, seed)
             else if ci_n m < ci_min_n m then cmap_rehash m (drop_bit 1 (ci_mask m)) seed
             else Inr (m, seed))"
proof -
  note defs = cmap_replace_def Let_def
  show ?thesis
  proof (cases rule: cmap_replace_bucket_cases[OF wf refl, of node rep hash "rehash impl hash"])
    case b1: 1
    show ?thesis
    proof (cases rule: cmap_replace_bucket_cases[OF wf refl, of node rep hash "other_hash (rehash impl hash)"])
      case b2: 1
      from not_live_abs[OF wf] b1(2) b2(2) have "cmap_abs impl hash = []"
        by (simp add: idx1_def idx2_def)
      with b1 b2 show ?thesis by (intro absent) (simp_all add: defs)
    next
      case (2 e)
      with b1 show ?thesis by (intro fault) (simp_all add: defs)
    next
      case (3 c mid)
      with b1 show ?thesis by (intro found) (auto simp: defs)
    qed
  next
    case (2 e)
    then show ?thesis by (intro fault) (simp_all add: defs)
  next
    case (3 c mid)
    then show ?thesis by (intro found) (auto simp: defs)
  qed
qed

lemma cmap_remove_correct:
  assumes inv: "cmap_inv impl" and run: "cmap_remove impl node hash seed = Inr (impl', seed')"
  shows "cmap_inv impl'"
    and "cmap_abs impl' = (cmap_abs impl)(hash := remove1 node (cmap_abs impl hash))"
    and "ci_n impl' = ci_n impl - 1" and "node \<in> set (cmap_abs impl hash)"
proof -
  have wf: "cmap_wf impl" and lim: "cmap_limits impl" and size: "unat (ci_n impl) = cmap_size impl"
    and le: "ci_n impl \<le> ci_max_n impl"
    using inv by (simp_all add: cmap_inv_def)
  from run show node: "node \<in> set (cmap_abs impl hash)"
    by (cases rule: cmap_replace_cases[OF wf, of node None hash seed])
      (auto simp: cmap_remove_def chain_replace_None split: if_splits)
  obtain mid where mid: "rechained impl hash (remove1 node (cmap_abs impl hash)) mid"
    and r: "(let m = mid\<lparr>ci_n := ci_n mid - 1\<rparr>
       in if ci_n m < ci_min_n m then cmap_rehash m (drop_bit 1 (ci_mask m)) seed
          else Inr (m, seed)) = Inr (impl', seed')"
    using run by (cases rule: cmap_replace_cases[OF wf, of node None hash seed])
      (auto simp: cmap_remove_def chain_replace_None split: if_splits)
  define m where "m = mid\<lparr>ci_n := ci_n mid - 1\<rparr>"
  have m: "cmap_wf m" "cmap_abs m = (cmap_abs impl)(hash := remove1 node (cmap_abs impl hash))"
    "cmap_limits m" "ci_n m = ci_n impl - 1" "ci_max_n m = ci_max_n impl"
    using mid lim by (simp_all add: m_def rechained_def same_config_def cmap_limits_def)
  have len: "length (cmap_abs impl hash) = Suc (length (remove1 node (cmap_abs impl hash)))"
    using node by (auto simp: length_remove1 dest: length_pos_if_in_set)
  with cmap_size_update[OF m(2)] have msize: "cmap_size impl = Suc (cmap_size m)" by simp
  have un: "unat (ci_n m) = cmap_size m"
    using size msize unat_minus_one[of "ci_n impl"] m(4) by fastforce
  from r have "m = impl' \<or> cmap_rehash m (drop_bit 1 (ci_mask m)) seed = Inr (impl', seed')"
    by (auto simp: m_def Let_def split: if_splits)
  then have *: "cmap_abs impl' = cmap_abs m \<and> cmap_wf impl' \<and> cmap_limits impl' \<and>
      ci_n impl' = ci_n m \<and> (impl' = m \<or> ci_n impl' < ci_max_n impl')"
    using m cmap_rehash_correct[of m _ seed impl' seed'] by auto
  then show "cmap_abs impl' = (cmap_abs impl)(hash := remove1 node (cmap_abs impl hash))"
    and "ci_n impl' = ci_n impl - 1"
    using m by auto
  have "ci_n m \<le> ci_max_n m"
    using le m(4,5) un msize size by (simp add: word_le_nat_alt)
  then have "ci_n impl' \<le> ci_max_n impl'" using * by auto
  with * un cmap_size_cong[of impl' m] show "cmap_inv impl'" by (simp add: cmap_inv_def)
qed

text \<open>Removing a node that is not in the map is a crash, of one kind or the other.\<close>

lemma cmap_remove_absent:
  assumes "cmap_wf impl" and "node \<notin> set (cmap_abs impl hash)"
  shows "cmap_remove impl node hash seed =
    Inl (if cmap_abs impl hash = [] then Assert_Fail else Null_Deref)"
  using assms by (cases rule: cmap_replace_cases[OF assms(1), of node None hash seed])
    (auto simp: cmap_remove_def chain_replace_None)

lemma cmap_replace_correct:
  assumes inv: "cmap_inv impl" and node: "node \<in> set (cmap_abs impl hash)"
  obtains impl' where "cmap_replace impl node (Some new_node) hash seed = Inr (impl', seed)"
    and "cmap_inv impl'"
    and "cmap_abs impl' = (cmap_abs impl)(hash :=
      takeWhile (\<lambda>x. x \<noteq> node) (cmap_abs impl hash) @ new_node #
      tl (dropWhile (\<lambda>x. x \<noteq> node) (cmap_abs impl hash)))"
proof -
  have wf: "cmap_wf impl" using inv by (simp add: cmap_inv_def)
  let ?c = "takeWhile (\<lambda>x. x \<noteq> node) (cmap_abs impl hash) @ new_node #
      tl (dropWhile (\<lambda>x. x \<noteq> node) (cmap_abs impl hash))"
  obtain mid where mid: "rechained impl hash ?c mid"
    and run: "cmap_replace impl node (Some new_node) hash seed = Inr (mid, seed)"
    using node by (cases rule: cmap_replace_cases[OF wf, of node "Some new_node" hash seed])
      (auto simp: chain_replace_Some)
  have "length ?c = length (cmap_abs impl hash)" by (rule length_replace_first[OF node])
  then have "cmap_inv mid"
    using inv mid cmap_size_update[of mid impl hash ?c]
    by (auto simp: rechained_def cmap_inv_def same_config_def cmap_limits_def)
  with run mid that show ?thesis by (simp add: rechained_def)
qed

end
