(* ===== verification/Cmap_Total.thy ===== *)
theory Cmap_Total
  imports Cmap_Ops
begin

text \<open>
  When the operations of the cuckoo map return: the assertions on the size of the new
  table never fire for tables of up to \<open>2 ^ 28\<close> buckets, so that the only way for an
  insertion, or the removal of a node that is in the map, not to return is the retry
  loop of \<open>cmap_rehash\<close>; and an insertion that finds a free slot needs no retry.
\<close>

unbundle bit_operations_syntax

section \<open>Powers of two\<close>

lemma unat_less_u32: "unat (x :: u32) < 2 ^ 32"
  using unsigned_less[of x, where ?'a = nat] by simp

lemma unat_ucast_u64 [simp]: "unat (ucast (x :: u32) :: u64) = unat x"
proof -
  have "unat x < 2 ^ 64" using unat_less_u32[of x] by simp
  then show ?thesis by (simp add: unsigned_ucast_eq take_bit_eq_mod)
qed

lemma pow2_unat_succ:
  fixes m :: u32
  assumes "is_pow2 (ucast (m + 1))"
  obtains k where "unat m + 1 = 2 ^ k" and "k < 32"
proof -
  from assms obtain k where k: "unat (ucast (m + 1) :: u64) = 2 ^ k" by (auto simp: is_pow2_unat)
  have "m + 1 \<noteq> 0" using assms by (auto simp: is_pow2_def)
  then have "unat (m + 1) = unat m + 1" using unatSuc[of m] by (simp add: add.commute)
  with k have e: "unat m + 1 = 2 ^ k" by simp
  moreover have "(2 :: nat) ^ k < 2 ^ 32" using k unat_less_u32[of "m + 1"] by simp
  then have "k < 32" by (rule power_less_imp_less_exp[rotated]) simp
  ultimately show ?thesis using that by blast
qed

lemma pow2_succ_unat:
  fixes m :: u32
  assumes "unat m + 1 = 2 ^ k" and "k < 32"
  shows "is_pow2 (ucast (m + 1))"
proof -
  have "(2 :: nat) ^ k \<le> 2 ^ 31" using assms(2) by (intro power_increasing) auto
  then have "unat (m + 1) = 2 ^ k" using assms(1) by (simp add: unat_word_ariths)
  then show ?thesis by (auto simp: is_pow2_unat)
qed

section \<open>The load limits\<close>

lemma load_limit:
  fixes m :: u32 and load :: u64
  assumes m: "unat m < 2 ^ 29" and l: "unat load < 2 ^ 32"
  shows "unat (ucast (drop_bit 32 (ucast (m + 1) * of_nat CMAP_K * load)) :: u32) =
    (unat m + 1) * 5 * unat load div 2 ^ 32"
proof -
  have m1: "unat (m + 1) = unat m + 1" using m by (simp add: unat_word_ariths)
  have "(unat m + 1) * 5 * unat load \<le> 2 ^ 29 * 5 * (2 ^ 32 - 1)"
    using m l by (intro mult_mono) auto
  then have less: "(unat m + 1) * 5 * unat load < 2 ^ 64" by simp
  have "unat (ucast (m + 1) * of_nat CMAP_K * load :: u64) = (unat m + 1) * 5 * unat load"
    using less m by (simp add: unat_word_ariths m1 CMAP_K_def)
  then have d: "unat (drop_bit 32 (ucast (m + 1) * of_nat CMAP_K * load)) =
      (unat m + 1) * 5 * unat load div 2 ^ 32"
    by (simp only: unat_drop_bit_eq) (simp only: drop_bit_eq_div)
  have "(unat m + 1) * 5 * unat load div 2 ^ 32 < 2 ^ 32"
    using less by (simp add: less_mult_imp_div_less)
  with d show ?thesis by (simp add: unsigned_ucast_eq take_bit_eq_mod)
qed

lemma calc_limits:
  assumes "unat m < 2 ^ 29"
  shows "unat (calc_max_n m) = (unat m + 1) * 5 * 3650722200 div 2 ^ 32"
    and "unat (calc_min_n m) = (unat m + 1) * 5 * 858993459 div 2 ^ 32"
  using load_limit[OF assms, of CMAP_MAX_LOAD] load_limit[OF assms, of CMAP_MIN_LOAD]
  by (simp_all add: calc_max_n_def calc_min_n_def CMAP_MAX_LOAD_def CMAP_MIN_LOAD_def)

text \<open>The masks that growing and shrinking ask for.\<close>

lemma grown_mask:
  fixes m :: u32
  assumes "unat m < 2 ^ 28"
  shows "unat (push_bit 1 m OR 1) = 2 * unat m + 1"
proof -
  have "push_bit 1 m OR 1 = 2 * m + 1"
    by (simp add: push_bit_eq_mult or_one_eq mult.commute)
  then show ?thesis using assms by (simp add: unat_word_ariths)
qed

lemma grow_ok:
  fixes m :: u32
  assumes m: "unat m < 2 ^ 28" and p: "is_pow2 (ucast (m + 1))"
  shows "is_pow2 (ucast ((push_bit 1 m OR 1) + 1))"
    and "calc_max_n m < calc_max_n (push_bit 1 m OR 1)"
proof -
  note g = grown_mask[OF m]
  from p obtain k where k: "unat m + 1 = 2 ^ k" by (rule pow2_unat_succ)
  with m have "(2 :: nat) ^ k < 2 ^ 29" by simp
  then have "k < 29" by (rule power_less_imp_less_exp[rotated]) simp
  with k g show "is_pow2 (ucast ((push_bit 1 m OR 1) + 1))"
    by (intro pow2_succ_unat[of _ "Suc k"]) simp_all
  show "calc_max_n m < calc_max_n (push_bit 1 m OR 1)"
    using m g by (simp add: word_less_nat_alt calc_limits)
qed

lemma shrink_ok:
  fixes m :: u32
  assumes m: "unat m < 2 ^ 29" and p: "is_pow2 (ucast (m + 1))" and n: "n < calc_min_n m"
  shows "is_pow2 (ucast (drop_bit 1 m + 1))" and "n < calc_max_n (drop_bit 1 m)"
proof -
  have d: "unat (drop_bit 1 m) = unat m div 2" by (simp only: unat_drop_bit_eq) (simp add: drop_bit_eq_div)
  from p obtain k where k: "unat m + 1 = 2 ^ k" "k < 32" by (rule pow2_unat_succ)
  have "k \<noteq> 0"
  proof
    assume "k = 0"
    with k have "m = 0" by (simp add: unat_eq_0)
    with n calc_limits(2)[of m] show False by (simp add: word_less_nat_alt)
  qed
  then obtain j where j: "k = Suc j" by (cases k) auto
  with k have m2: "unat m + 1 = 2 * 2 ^ j" by simp
  have "a + 1 = 2 * x \<Longrightarrow> a div 2 + 1 = x" for a x :: nat by presburger
  from this[OF m2] have e: "unat (drop_bit 1 m) + 1 = 2 ^ j" using d by simp
  with j k show "is_pow2 (ucast (drop_bit 1 m + 1))" by (intro pow2_succ_unat) auto
  have "unat (drop_bit 1 m) < 2 ^ 29" using d m by simp
  from n calc_limits(1)[OF this] calc_limits(2)[OF m] e m2
  show "n < calc_max_n (drop_bit 1 m)" by (simp add: word_less_nat_alt)
qed

section \<open>Which faults are possible\<close>

lemma cmap_rehash_fault:
  assumes "cmap_rehash old msk seed = Inl e" and "is_pow2 (ucast (msk + 1))"
    and "ci_n old < calc_max_n msk"
  shows "e = No_Return"
  using assms
  by (auto simp: cmap_rehash_def cmap_impl_create_def Let_def rbind_def of_option_def
      split: prod.splits sum.splits option.splits if_splits)

lemma insert_loop_fault:
  "insert_loop impl node hash seed = Some r \<Longrightarrow> cmap_wf impl \<Longrightarrow> cmap_limits impl \<Longrightarrow>
     ci_n impl < ci_max_n impl \<Longrightarrow> r = Inl e \<Longrightarrow> e = No_Return"
proof (induction rule: insert_loop.raw_induct[rotated, consumes 1, case_names step])
  case (step loop impl node hash seed r)
  show ?case
  proof (cases "cmap_rehash impl (ci_mask impl) seed")
    case (Inl e')
    with step.prems(2,3) have "e' = No_Return"
      by (intro cmap_rehash_fault[OF Inl]) (simp_all add: cmap_limits_def)
    with Inl step.hyps step.prems(4) show ?thesis by (auto split: option.splits)
  next
    case (Inr q)
    then have "cmap_rehash impl (ci_mask impl) seed = Inr (fst q, snd q)" by simp
    note R = cmap_rehash_correct[OF this step.prems(1)]
    from step.hyps Inr step.prems(4) have "loop (fst q) node hash (snd q) = Some r"
      by (auto split: option.splits)
    from step.IH[OF this R(1,3,6) step.prems(4)] show ?thesis .
  qed
qed

lemma cmap_insert_fault:
  assumes inv: "cmap_inv impl" and small: "unat (ci_mask impl) < 2 ^ 28"
    and run: "cmap_insert impl node hash seed = Inl e"
  shows "e = No_Return"
proof -
  let ?grow = "if ci_max_n impl \<le> ci_n impl
    then cmap_rehash impl (push_bit 1 (ci_mask impl) OR 1) seed else Inr (impl, seed)"
  have wf: "cmap_wf impl" and lim: "cmap_limits impl" and le: "ci_n impl \<le> ci_max_n impl"
    using inv by (simp_all add: cmap_inv_def)
  show ?thesis
  proof (cases ?grow)
    case (Inl e')
    then have r: "cmap_rehash impl (push_bit 1 (ci_mask impl) OR 1) seed = Inl e'"
      by (simp split: if_splits)
    have "e' = No_Return"
      using grow_ok[OF small] lim le
      by (intro cmap_rehash_fault[OF r]) (auto simp: cmap_limits_def)
    with Inl run show ?thesis by (simp add: cmap_insert_def)
  next
    case (Inr q)
    have mid: "cmap_wf (fst q)" "cmap_limits (fst q)" "ci_n (fst q) < ci_max_n (fst q)"
      using Inr wf lim cmap_rehash_correct[of impl _ seed "fst q" "snd q"] by (auto split: if_splits)
    from Inr run insert_loop_fault[OF _ mid] show ?thesis
      by (auto simp: cmap_insert_def rbind_def of_option_def case_prod_beta
          split: sum.splits option.splits)
  qed
qed

lemma cmap_remove_fault:
  assumes inv: "cmap_inv impl" and small: "unat (ci_mask impl) < 2 ^ 29"
    and node: "node \<in> set (cmap_abs impl hash)"
    and run: "cmap_remove impl node hash seed = Inl e"
  shows "e = No_Return"
proof -
  have wf: "cmap_wf impl" and lim: "cmap_limits impl" using inv by (simp_all add: cmap_inv_def)
  from run node obtain c mid where mid: "rechained impl hash c mid" and
    r: "cmap_rehash (mid\<lparr>ci_n := ci_n mid - 1\<rparr>) (drop_bit 1 (ci_mask mid)) seed = Inl e"
    and n: "ci_n mid - 1 < ci_min_n mid"
    by (cases rule: cmap_replace_cases[OF wf, of node None hash seed])
      (auto simp: cmap_remove_def chain_replace_None Let_def split: if_splits)
  from mid lim have "ci_mask mid = ci_mask impl" "ci_min_n mid = calc_min_n (ci_mask impl)"
    "is_pow2 (ucast (ci_mask impl + 1))"
    by (simp_all add: rechained_def same_config_def cmap_limits_def)
  with shrink_ok[OF small, of "ci_n mid - 1"] n show ?thesis
    by (intro cmap_rehash_fault[OF r]) simp_all
qed

section \<open>Insertions that return\<close>

lemma cmap_try_insert_room:
  assumes "\<not> full impl (idx1 impl hash) \<or> \<not> full impl (idx2 impl hash)"
  shows "\<exists>impl'. cmap_try_insert impl c hash = Some impl'"
  using assms
  by (auto simp: cmap_try_insert_def Let_def full_def cmap_insert_bucket_def
      split: option.splits simp flip: idx1_def idx2_def)

lemma cmap_insert_returns:
  assumes "ci_n impl < ci_max_n impl"
    and "\<not> full impl (idx1 impl hash) \<or> \<not> full impl (idx2 impl hash)"
  shows "\<exists>impl'. cmap_insert impl node hash seed = Inr (impl', seed)"
proof -
  obtain mid where "cmap_try_insert impl [node] hash = Some mid"
    using cmap_try_insert_room[OF assms(2)] by blast
  then have "insert_loop impl node hash seed = Some (Inr (mid, seed))"
    by (simp add: insert_loop.simps)
  moreover have "\<not> ci_max_n impl \<le> ci_n impl" using assms(1) by simp
  ultimately show ?thesis by (simp add: cmap_insert_def)
qed

end
