(* ===== verification/Cmap_Multimap.thy ===== *)
theory Cmap_Multimap
  imports Cmap_Total
begin

text \<open>
  The interface of the cuckoo map as its clients use it. \<open>hash_multimap\<close> states what the
  operations promise about the multimap from hashes to chains of nodes;
  \<open>partitioned_map\<close> adds what \<^verbatim>\<open>gtp-manager.c\<close> builds on top: an array of maps, one
  of which is chosen by some bits of the key, and a hash that tells keys apart. Both are
  interpreted on the model of \<^verbatim>\<open>lib/cmap.c\<close>.
\<close>

unbundle bit_operations_syntax

section \<open>A map from hashes to chains\<close>

locale hash_multimap =
  fixes inv :: "'m \<Rightarrow> bool"
    and view :: "'m \<Rightarrow> u32 \<Rightarrow> 'n list"
    and lookup :: "'m \<Rightarrow> u32 \<Rightarrow> 'n list option"
    and ins :: "'m \<Rightarrow> 'n \<Rightarrow> u32 \<Rightarrow> u32 \<Rightarrow> ('m \<times> u32) result"
    and rem :: "'m \<Rightarrow> 'n \<Rightarrow> u32 \<Rightarrow> u32 \<Rightarrow> ('m \<times> u32) result"
  assumes find_abs: "inv m \<Longrightarrow> lookup m h = Some (view m h)"
    and insert_inv: "inv m \<Longrightarrow> ins m x h s = Inr (m', s') \<Longrightarrow> inv m'"
    and insert_abs: "inv m \<Longrightarrow> ins m x h s = Inr (m', s') \<Longrightarrow> view m' = (view m)(h := x # view m h)"
    and remove_inv: "inv m \<Longrightarrow> rem m x h s = Inr (m', s') \<Longrightarrow> inv m'"
    and remove_abs: "inv m \<Longrightarrow> rem m x h s = Inr (m', s') \<Longrightarrow>
      view m' = (view m)(h := remove1 x (view m h))"
    and insert_fault: "inv m \<Longrightarrow> ins m x h s = Inl e \<Longrightarrow> e = No_Return \<or> e = Assert_Fail"
    and remove_fault: "inv m \<Longrightarrow> x \<in> set (view m h) \<Longrightarrow> rem m x h s = Inl e \<Longrightarrow>
      e = No_Return \<or> e = Assert_Fail"
begin

text \<open>A node that was inserted and then removed leaves the multimap as it was.\<close>

lemma insert_remove:
  assumes "inv m" and i: "ins m x h s = Inr (m', s')" and r: "rem m' x h t = Inr (m'', t')"
  shows "inv m''" and "view m'' = view m"
  using insert_inv[OF assms(1,2)] insert_abs[OF assms(1,2)] remove_inv[OF _ r] remove_abs[OF _ r]
  by (auto simp: fun_eq_iff)

end

section \<open>An array of maps\<close>

text \<open>The chain of key \<open>k\<close> in an array of maps.\<close>

definition part_chain :: "('m \<Rightarrow> u32 \<Rightarrow> 'n list) \<Rightarrow> (u32 \<Rightarrow> nat) \<Rightarrow> (u32 \<Rightarrow> u32) \<Rightarrow> 'm list \<Rightarrow> u32
    \<Rightarrow> 'n list" where
  "part_chain view part hash ms k = view (ms ! part k) (hash k)"

locale partitioned_map = hash_multimap +
  fixes N :: nat and part :: "u32 \<Rightarrow> nat" and hash :: "u32 \<Rightarrow> u32"
  assumes part_less: "part k < N" and hash_inject: "hash k = hash k' \<Longrightarrow> k = k'"
begin

lemma chain_find:
  assumes "length ms = N" and "\<forall>m \<in> set ms. inv m"
  shows "lookup (ms ! part k) (hash k) = Some (part_chain view part hash ms k)"
  using assms part_less[of k] by (simp add: part_chain_def find_abs)

lemma chain_insert:
  assumes len: "length ms = N" and inv: "\<forall>m \<in> set ms. inv m"
    and i: "ins (ms ! part k) x (hash k) s = Inr (m', s')"
  shows "\<forall>m \<in> set (ms[part k := m']). inv m"
    and "part_chain view part hash (ms[part k := m']) =
      (part_chain view part hash ms)(k := x # part_chain view part hash ms k)"
proof -
  have m: "inv (ms ! part k)" using inv len part_less[of k] by simp
  from insert_inv[OF m i] inv show "\<forall>m \<in> set (ms[part k := m']). inv m"
    by (auto dest!: set_update_subset_insert[THEN subsetD])
  show "part_chain view part hash (ms[part k := m']) =
      (part_chain view part hash ms)(k := x # part_chain view part hash ms k)"
    using len part_less insert_abs[OF m i]
    by (auto simp: part_chain_def fun_eq_iff nth_list_update dest: hash_inject)
qed

lemma chain_remove:
  assumes len: "length ms = N" and inv: "\<forall>m \<in> set ms. inv m"
    and r: "rem (ms ! part k) x (hash k) s = Inr (m', s')"
  shows "\<forall>m \<in> set (ms[part k := m']). inv m"
    and "part_chain view part hash (ms[part k := m']) =
      (part_chain view part hash ms)(k := remove1 x (part_chain view part hash ms k))"
proof -
  have m: "inv (ms ! part k)" using inv len part_less[of k] by simp
  from remove_inv[OF m r] inv show "\<forall>m \<in> set (ms[part k := m']). inv m"
    by (auto dest!: set_update_subset_insert[THEN subsetD])
  show "part_chain view part hash (ms[part k := m']) =
      (part_chain view part hash ms)(k := remove1 x (part_chain view part hash ms k))"
    using len part_less remove_abs[OF m r]
    by (auto simp: part_chain_def fun_eq_iff nth_list_update dest: hash_inject)
qed

lemma chain_insert_fault:
  assumes "length ms = N" and "\<forall>m \<in> set ms. inv m"
    and "ins (ms ! part k) x (hash k) s = Inl e"
  shows "e = No_Return \<or> e = Assert_Fail"
  using assms part_less[of k] insert_fault by (metis nth_mem)

lemma chain_remove_fault:
  assumes "length ms = N" and "\<forall>m \<in> set ms. inv m" and "x \<in> set (part_chain view part hash ms k)"
    and "rem (ms ! part k) x (hash k) s = Inl e"
  shows "e = No_Return \<or> e = Assert_Fail"
  using assms part_less[of k] remove_fault unfolding part_chain_def by (metis nth_mem)

end

section \<open>The cuckoo map provides the interface\<close>

lemma cmap_rehash_fault_any: "cmap_rehash old msk seed = Inl e \<Longrightarrow> e = No_Return \<or> e = Assert_Fail"
  by (auto simp: cmap_rehash_def cmap_impl_create_def Let_def rbind_def of_option_def
      split: prod.splits sum.splits option.splits if_splits)

lemma insert_loop_fault_any:
  "insert_loop impl node hash seed = Some r \<Longrightarrow> r = Inl e \<Longrightarrow> e = No_Return \<or> e = Assert_Fail"
proof (induction rule: insert_loop.raw_induct[rotated, consumes 1, case_names step])
  case (step loop impl node hash seed r)
  show ?case
    using step.hyps step.prems step.IH cmap_rehash_fault_any[of impl "ci_mask impl" seed e]
    by (cases "cmap_rehash impl (ci_mask impl) seed") (auto split: option.splits)
qed

lemma cmap_insert_fault_any:
  "cmap_insert impl node hash seed = Inl e \<Longrightarrow> e = No_Return \<or> e = Assert_Fail"
  by (auto simp: cmap_insert_def rbind_def of_option_def
      split: sum.splits option.splits prod.splits if_splits
      dest: cmap_rehash_fault_any insert_loop_fault_any)

lemma cmap_remove_fault_any:
  assumes "cmap_inv impl" and "node \<in> set (cmap_abs impl hash)"
    and run: "cmap_remove impl node hash seed = Inl e"
  shows "e = No_Return \<or> e = Assert_Fail"
proof -
  have wf: "cmap_wf impl" using assms(1) by (simp add: cmap_inv_def)
  from run assms(2) show ?thesis
    by (cases rule: cmap_replace_cases[OF wf, of node None hash seed])
      (auto simp: cmap_remove_def chain_replace_None Let_def split: if_splits
        dest: cmap_rehash_fault_any)
qed

interpretation cm: hash_multimap cmap_inv cmap_abs cmap_find cmap_insert cmap_remove
proof (unfold_locales, goal_cases)
  case (1 m h)
  then show ?case by (simp add: cmap_inv_def cmap_wf_def cmap_find_abs)
next
  case (2 m x h s m' s')
  then show ?case by (rule cmap_insert_correct(1))
next
  case (3 m x h s m' s')
  then show ?case by (rule cmap_insert_correct(2))
next
  case (4 m x h s m' s')
  then show ?case by (rule cmap_remove_correct(1))
next
  case (5 m x h s m' s')
  then show ?case by (rule cmap_remove_correct(2))
next
  case (6 m x h s e)
  then show ?case by (intro cmap_insert_fault_any)
next
  case (7 m x h s e)
  then show ?case by (rule cmap_remove_fault_any)
qed

end
