(* ===== verification/Dp_Packet.thy ===== *)
theory Dp_Packet
  imports Ovs_Prelude
begin

text \<open>
  Packets as \<^verbatim>\<open>lib/dp-packet.h\<close> sees them: the bytes, the offset of the transport header
  and the padding, with the accessors the GTP code uses. Multi-byte fields are loaded the
  way a little-endian host loads them, and \<open>ntohs\<close> and \<open>ntohl\<close> swap the bytes.
\<close>

unbundle bit_operations_syntax

section \<open>Byte order\<close>

definition le16 :: "u8 \<Rightarrow> u8 \<Rightarrow> u16" where
  "le16 b0 b1 = ucast b0 OR push_bit 8 (ucast b1)"

definition le32 :: "u8 \<Rightarrow> u8 \<Rightarrow> u8 \<Rightarrow> u8 \<Rightarrow> u32" where
  "le32 b0 b1 b2 b3 =
     ucast b0 OR push_bit 8 (ucast b1) OR push_bit 16 (ucast b2) OR push_bit 24 (ucast b3)"

definition ntohs :: "ovs_be16 \<Rightarrow> u16" where
  "ntohs x = push_bit 8 x OR drop_bit 8 x"

definition htons :: "u16 \<Rightarrow> ovs_be16" where
  "htons x = push_bit 8 x OR drop_bit 8 x"

definition ntohl :: "ovs_be32 \<Rightarrow> u32" where
  "ntohl x = le32 (ucast (drop_bit 24 x)) (ucast (drop_bit 16 x)) (ucast (drop_bit 8 x)) (ucast x)"

definition htonl :: "u32 \<Rightarrow> ovs_be32" where
  "htonl x = le32 (ucast (drop_bit 24 x)) (ucast (drop_bit 16 x)) (ucast (drop_bit 8 x)) (ucast x)"

lemma ntohs_htons [simp]: "ntohs (htons x) = x"
  unfolding ntohs_def htons_def by (rule bit_word_eqI) (auto simp: bit_simps dest: bit_imp_le_length)

lemma ntohs_le16: "ntohs (le16 b0 b1) = push_bit 8 (ucast b0) OR ucast b1"
  unfolding ntohs_def le16_def
  by (rule bit_word_eqI) (auto simp: bit_simps dest: bit_imp_le_length)

lemma bit_le32:
  "bit (le32 b0 b1 b2 b3) n \<longleftrightarrow> (if n < 8 then bit b0 n else if n < 16 then bit b1 (n - 8)
     else if n < 24 then bit b2 (n - 16) else bit b3 (n - 24))"
  by (auto simp: le32_def bit_simps dest: bit_imp_le_length)

text \<open>The bytes of a word in memory order.\<close>

lemma le32_bytes [simp]:
  "ucast (le32 b0 b1 b2 b3) = b0"
  "ucast (drop_bit 8 (le32 b0 b1 b2 b3)) = b1"
  "ucast (drop_bit 16 (le32 b0 b1 b2 b3)) = b2"
  "ucast (drop_bit 24 (le32 b0 b1 b2 b3)) = b3"
  by (rule bit_word_eqI; simp add: bit_simps bit_le32)+

lemma le32_of_bytes [simp]:
  "le32 (ucast x) (ucast (drop_bit 8 x)) (ucast (drop_bit 16 x)) (ucast (drop_bit 24 x)) = x"
  by (rule bit_word_eqI) (auto simp: bit_simps bit_le32)

lemma ntohl_le32 [simp]: "ntohl (le32 b0 b1 b2 b3) = le32 b3 b2 b1 b0"
  by (simp add: ntohl_def)

lemma htonl_eq_ntohl: "htonl = ntohl"
  by (simp add: fun_eq_iff htonl_def ntohl_def)

lemma ntohl_ntohl [simp]: "ntohl (ntohl x) = x"
  by (subst (2) ntohl_def) simp

lemma ntohl_htonl [simp]: "ntohl (htonl x) = x" "htonl (ntohl x) = x"
  by (simp_all add: htonl_eq_ntohl)

section \<open>Packets\<close>

record dp_packet =
  pkt_data :: "u8 list"
  pkt_l4_ofs :: u16
  pkt_l2_pad_size :: u8

definition dp_packet_size :: "dp_packet \<Rightarrow> nat" where
  "dp_packet_size b = length (pkt_data b)"

text \<open>A pointer into the packet is its offset; \<open>None\<close> is the null pointer.\<close>

definition dp_packet_at :: "dp_packet \<Rightarrow> nat \<Rightarrow> nat \<Rightarrow> nat option" where
  "dp_packet_at b offset len = (if offset + len \<le> dp_packet_size b then Some offset else None)"

definition dp_packet_l4 :: "dp_packet \<Rightarrow> nat option" where
  "dp_packet_l4 b = (if pkt_l4_ofs b \<noteq> 0xFFFF then Some (unat (pkt_l4_ofs b)) else None)"

text \<open>The size is a pointer difference converted to \<^verbatim>\<open>size_t\<close>: it wraps when the header
  lies beyond the end of the packet.\<close>

definition dp_packet_l4_size :: "dp_packet \<Rightarrow> u64" where
  "dp_packet_l4_size b =
     (case dp_packet_l4 b of
        None \<Rightarrow> 0
      | Some l4 \<Rightarrow> of_nat (dp_packet_size b) - of_nat l4 - ucast (pkt_l2_pad_size b))"

definition UDP_HEADER_LEN :: nat where
  "UDP_HEADER_LEN = 8"

definition dp_packet_get_udp_payload :: "dp_packet \<Rightarrow> nat option" where
  "dp_packet_get_udp_payload b =
     (if of_nat UDP_HEADER_LEN \<le> dp_packet_l4_size b
      then map_option (\<lambda>l4. l4 + UDP_HEADER_LEN) (dp_packet_l4 b) else None)"

text \<open>Reading through the pointer that \<open>dp_packet_at\<close> returned, as all its callers do
  without looking at it first.\<close>

definition read_u8 :: "dp_packet \<Rightarrow> nat \<Rightarrow> u8 result" where
  "read_u8 b offset = rbind (of_option Null_Deref (dp_packet_at b offset 1)) (\<lambda>p.
     Inr (pkt_data b ! p))"

definition read_be16 :: "dp_packet \<Rightarrow> nat \<Rightarrow> ovs_be16 result" where
  "read_be16 b offset = rbind (of_option Null_Deref (dp_packet_at b offset 2)) (\<lambda>p.
     Inr (le16 (pkt_data b ! p) (pkt_data b ! (p + 1))))"

definition read_be32 :: "dp_packet \<Rightarrow> nat \<Rightarrow> ovs_be32 result" where
  "read_be32 b offset = rbind (of_option Null_Deref (dp_packet_at b offset 4)) (\<lambda>p.
     Inr (le32 (pkt_data b ! p) (pkt_data b ! (p + 1)) (pkt_data b ! (p + 2)) (pkt_data b ! (p + 3))))"

lemmas read_defs = read_u8_def read_be16_def read_be32_def dp_packet_at_def dp_packet_size_def

text \<open>A read returns if and only if the field lies inside the packet.\<close>

lemma read_returns:
  "(\<exists>v. read_u8 b ofs = Inr v) \<longleftrightarrow> ofs + 1 \<le> dp_packet_size b"
  "(\<exists>v. read_be16 b ofs = Inr v) \<longleftrightarrow> ofs + 2 \<le> dp_packet_size b"
  "(\<exists>v. read_be32 b ofs = Inr v) \<longleftrightarrow> ofs + 4 \<le> dp_packet_size b"
  by (simp_all add: read_defs)

lemma read_fault:
  "read_u8 b ofs = Inl e \<Longrightarrow> e = Null_Deref"
  "read_be16 b ofs = Inl e \<Longrightarrow> e = Null_Deref"
  "read_be32 b ofs = Inl e \<Longrightarrow> e = Null_Deref"
  by (simp_all add: read_defs split: if_splits)

text \<open>Reading from a packet whose data is known around the offset.\<close>

lemma read_at:
  assumes "pkt_data b = pre @ d"
  shows "ofs = length pre \<Longrightarrow> d = b0 # rest \<Longrightarrow> read_u8 b ofs = Inr b0"
    and "ofs = length pre \<Longrightarrow> d = b0 # b1 # rest \<Longrightarrow> read_be16 b ofs = Inr (le16 b0 b1)"
    and "ofs = length pre \<Longrightarrow> d = b0 # b1 # b2 # b3 # rest \<Longrightarrow> read_be32 b ofs = Inr (le32 b0 b1 b2 b3)"
  using assms by (simp_all add: read_defs nth_append)

end
