(* ===== verification/Xlate.thy ===== *)
theory Xlate
  imports Dp_Packet
begin

text \<open>
  The part of the translation context of \<^verbatim>\<open>ofproto/ofproto-dpif-xlate.c\<close> that the GTP
  handlers read and write: the flow, the wildcard masks of the fields they set, the packet,
  and \<open>xlate_output_action\<close>. Composing the datapath actions of an output is left to the
  functions it calls; a call is an entry of the trace \<open>xc_calls\<close> together with the flow as
  it was at that time.
\<close>

unbundle bit_operations_syntax

section \<open>Flows\<close>

type_synonym eth_addr = "48 word"
type_synonym ofp_port = u16

record flow =
  fl_in_port :: ofp_port
  fl_dl_dst :: eth_addr
  fl_dl_type :: ovs_be16
  fl_nw_src :: ovs_be32
  fl_nw_dst :: ovs_be32
  fl_nw_proto :: u8
  fl_tp_src :: ovs_be16
  fl_tp_dst :: ovs_be16

definition ETH_TYPE_IP :: u16 where
  "ETH_TYPE_IP = 0x0800"

definition ETH_TYPE_IPV6 :: u16 where
  "ETH_TYPE_IPV6 = 0x86dd"

definition IPPROTO_UDP :: u8 where
  "IPPROTO_UDP = 17"

definition dl_type_is_ip_any :: "ovs_be16 \<Rightarrow> bool" where
  "dl_type_is_ip_any dl_type \<longleftrightarrow> dl_type = htons ETH_TYPE_IP \<or> dl_type = htons ETH_TYPE_IPV6"

definition is_ip_any :: "flow \<Rightarrow> bool" where
  "is_ip_any flow \<longleftrightarrow> dl_type_is_ip_any (fl_dl_type flow)"

section \<open>The translation context\<close>

datatype xlate_call =
    compose_output_action ofp_port
  | xlate_table_action ofp_port bool
  | xlate_normal
  | flood_packets bool
  | execute_controller_action u16
  | skipping_output_to_input_port

record xlate_ctx =
  xc_flow :: flow
  xc_wc_nw_dst :: ovs_be32
  xc_wc_dl_dst :: eth_addr
  xc_packet :: "dp_packet option"
  xc_calls :: "(xlate_call \<times> flow) list"

definition OFPP_IN_PORT :: ofp_port where "OFPP_IN_PORT = 0xfff8"
definition OFPP_TABLE :: ofp_port where "OFPP_TABLE = 0xfff9"
definition OFPP_NORMAL :: ofp_port where "OFPP_NORMAL = 0xfffa"
definition OFPP_FLOOD :: ofp_port where "OFPP_FLOOD = 0xfffb"
definition OFPP_ALL :: ofp_port where "OFPP_ALL = 0xfffc"
definition OFPP_CONTROLLER :: ofp_port where "OFPP_CONTROLLER = 0xfffd"
definition OFPP_LOCAL :: ofp_port where "OFPP_LOCAL = 0xfffe"
definition OFPP_NONE :: ofp_port where "OFPP_NONE = 0xffff"

lemmas ofpp_defs = OFPP_IN_PORT_def OFPP_TABLE_def OFPP_NORMAL_def OFPP_FLOOD_def OFPP_ALL_def
  OFPP_CONTROLLER_def OFPP_LOCAL_def OFPP_NONE_def

definition call :: "xlate_ctx \<Rightarrow> xlate_call \<Rightarrow> xlate_ctx" where
  "call ctx c = ctx\<lparr>xc_calls := xc_calls ctx @ [(c, xc_flow ctx)]\<rparr>"

definition xlate_output_action :: "xlate_ctx \<Rightarrow> ofp_port \<Rightarrow> u16 \<Rightarrow> bool \<Rightarrow> xlate_ctx" where
  "xlate_output_action ctx port max_len may_packet_in =
     (let in_port = fl_in_port (xc_flow ctx) in
      if port = OFPP_IN_PORT then call ctx (compose_output_action in_port)
      else if port = OFPP_TABLE then call ctx (xlate_table_action in_port may_packet_in)
      else if port = OFPP_NORMAL then call ctx xlate_normal
      else if port = OFPP_FLOOD then call ctx (flood_packets False)
      else if port = OFPP_ALL then call ctx (flood_packets True)
      else if port = OFPP_CONTROLLER then call ctx (execute_controller_action max_len)
      else if port = OFPP_NONE then ctx
      else if port \<noteq> in_port then call ctx (compose_output_action port)
      else call ctx skipping_output_to_input_port)"

text \<open>An ordinary switch port: neither reserved nor the one the packet came from.\<close>

definition plain_port :: "flow \<Rightarrow> ofp_port \<Rightarrow> bool" where
  "plain_port flow port \<longleftrightarrow> port < OFPP_IN_PORT \<and> port \<noteq> fl_in_port flow"

lemma xlate_output_plain:
  assumes "plain_port (xc_flow ctx) port"
  shows "xlate_output_action ctx port max_len mpi = call ctx (compose_output_action port)"
proof -
  have "port \<noteq> p" if "OFPP_IN_PORT \<le> p" for p
    using assms that by (auto simp: plain_port_def)
  then show ?thesis
    using assms by (simp add: xlate_output_action_def plain_port_def ofpp_defs)
qed

lemma call_simps [simp]:
  "xc_flow (call ctx c) = xc_flow ctx"
  "xc_calls (call ctx c) = xc_calls ctx @ [(c, xc_flow ctx)]"
  by (simp_all add: call_def)

end
