(* ===== verification/Gtp_Manager.thy ===== *)
theory Gtp_Manager
  imports Cmap_Multimap Xlate
begin

text \<open>
  The tables of \<^verbatim>\<open>ofproto/gtp-manager.c\<close>: the list of packet gateways with its round-robin
  cursor, and the maps from tunnel endpoint identifiers and user addresses to tunnels. The
  file's statics are the fields of \<open>gtp_state\<close>; allocated objects live in heaps indexed by
  address, from which \<^verbatim>\<open>free()\<close> removes them. The model is that of one thread: the
  mutexes have no counterpart.
\<close>

unbundle bit_operations_syntax

section \<open>State\<close>

type_synonym addr = nat

definition HASHMAP_PART_NUM :: nat where
  "HASHMAP_PART_NUM = 32"

definition MAX_PGW_PER_NODE :: nat where
  "MAX_PGW_PER_NODE = 1024"

record gtp_pgw_node =
  gtp_pgw_port :: u16
  gtp_pgw_eth :: eth_addr
  pgw_sgi_port :: u16
  pgw_sgi_eth :: eth_addr
  gtp_pgw_ip :: ovs_be32

text \<open>\<^verbatim>\<open>struct gtp_teid_to_pgw_node\<close> and \<^verbatim>\<open>struct gtp_ueip_to_pgw_node\<close> differ only in the name
  of the key, and so do the functions on them; both are \<open>map_node\<close>.\<close>

record map_node =
  mn_key :: u32
  mn_tunnel :: addr
  mn_ref_count :: u8

text \<open>Fields that \<^verbatim>\<open>xmalloc()\<close> leaves unset are \<open>None\<close>.\<close>

record gtp_tunnel_node =
  teid4_sgw_c :: u32
  teid5_sgw_u :: u32
  teid2_pgw_c :: u32
  teid3_pgw_u :: "u32 option"
  ue_ip :: ovs_be32
  pgw_index :: "u16 option"
  tun_ref_count :: "int option"

record node_table =
  nt_maps :: "addr cmap_impl list"
  nt_nodes :: "addr \<rightharpoonup> map_node"

record gtp_state =
  ovs_id :: u16
  ovs_total :: u16
  ovs_phy_port :: u16
  pgw_fastpath :: u8
  pgw_list :: "gtp_pgw_node list"
  pgw_current :: u16
  pgw_end :: u16
  teid2pgw :: node_table
  ueip2pgw :: node_table
  tunnels :: "addr \<rightharpoonup> gtp_tunnel_node"
  next_addr :: addr
  hdr_live :: int
  rand_seed :: u32

section \<open>The list of packet gateways\<close>

definition gtp_manager_set_params :: "gtp_state \<Rightarrow> u16 \<Rightarrow> u16 \<Rightarrow> u16 \<Rightarrow> u8 \<Rightarrow> gtp_state" where
  "gtp_manager_set_params st ovsid tot phyport fastpath =
     st\<lparr>ovs_id := ovsid, ovs_total := tot, ovs_phy_port := phyport, pgw_fastpath := fastpath\<rparr>"

text \<open>The loops over \<^verbatim>\<open>pgw_list[from..end)\<close> that stop at the first entry with property \<open>P\<close>.\<close>

definition pgw_first :: "gtp_state \<Rightarrow> nat \<Rightarrow> (gtp_pgw_node \<Rightarrow> bool) \<Rightarrow> nat option" where
  "pgw_first st from P =
     map_option (\<lambda>i. from + i) (first_slot (\<lambda>i. P (pgw_list st ! i)) [from..<unat (pgw_end st)])"

definition gtp_manager_add_pgw :: "gtp_state \<Rightarrow> ovs_be32 \<Rightarrow> u16 \<Rightarrow> eth_addr \<Rightarrow> u16 \<Rightarrow> eth_addr
    \<Rightarrow> gtp_state result" where
  "gtp_manager_add_pgw st ip port eth sgi_port sgi_eth =
     (let pgw = \<lparr>gtp_pgw_port = port, gtp_pgw_eth = eth, pgw_sgi_port = sgi_port,
                 pgw_sgi_eth = sgi_eth, gtp_pgw_ip = ip\<rparr>
      in case pgw_first st 0 (\<lambda>p. gtp_pgw_ip p = 0) of
           Some i \<Rightarrow> Inr (st\<lparr>pgw_list := (pgw_list st)[i := pgw]\<rparr>)
         | None \<Rightarrow>
             if \<not> unat (pgw_end st) < MAX_PGW_PER_NODE then Inl Assert_Fail
             else Inr (st\<lparr>pgw_list := (pgw_list st)[unat (pgw_end st) := pgw],
                          pgw_end := pgw_end st + 1\<rparr>))"

definition gtp_manager_del_pgw :: "gtp_state \<Rightarrow> ovs_be32 \<Rightarrow> gtp_state" where
  "gtp_manager_del_pgw st ip =
     (case pgw_first st 0 (\<lambda>p. gtp_pgw_ip p = ip) of
        Some i \<Rightarrow> st\<lparr>pgw_list := (pgw_list st)[i :=
                       (pgw_list st ! i)\<lparr>gtp_pgw_ip := 0, gtp_pgw_port := 0, pgw_sgi_port := 0\<rparr>]\<rparr>
      | None \<Rightarrow> st)"

definition gtp_manager_get_pgw :: "gtp_state \<Rightarrow> nat \<times> gtp_state" where
  "gtp_manager_get_pgw st =
     (case pgw_first st (unat (pgw_current st)) (\<lambda>p. gtp_pgw_ip p \<noteq> 0) of
        Some i \<Rightarrow> (i, st\<lparr>pgw_current := of_nat i + 1\<rparr>)
      | None \<Rightarrow> (0, st\<lparr>pgw_current := 1\<rparr>))"

definition gtp_manager_find_pgw :: "gtp_state \<Rightarrow> ovs_be32 \<Rightarrow> int" where
  "gtp_manager_find_pgw st ip =
     (case pgw_first st 0 (\<lambda>p. gtp_pgw_ip p = ip) of Some i \<Rightarrow> int i | None \<Rightarrow> - 1)"

text \<open>Reading an entry of the array.\<close>

definition pgw_at :: "gtp_state \<Rightarrow> nat \<Rightarrow> gtp_pgw_node result" where
  "pgw_at st i = (if i < length (pgw_list st) then Inr (pgw_list st ! i) else Inl Wild_Pointer)"

section \<open>Maps from keys to tunnels\<close>

definition teid_part :: "u32 \<Rightarrow> nat" where
  "teid_part teid = unat (teid AND 0x0000001F)"

definition ueip_part :: "u32 \<Rightarrow> nat" where
  "ueip_part ueip = unat (drop_bit 24 (ueip AND 0x1F000000))"

definition key_hash :: "u32 \<Rightarrow> u32" where
  "key_hash key = hash_int key 0"

text \<open>Walking \<^verbatim>\<open>CMAP_FOR_EACH_WITH_HASH\<close> for the node with the right key.\<close>

fun chain_lookup :: "(addr \<rightharpoonup> map_node) \<Rightarrow> u32 \<Rightarrow> addr list \<Rightarrow> addr option result" where
  "chain_lookup nodes key [] = Inr None"
| "chain_lookup nodes key (a # as) =
     rbind (of_option Use_After_Free (nodes a)) (\<lambda>n.
     if mn_key n = key then Inr (Some a) else chain_lookup nodes key as)"

definition put_node :: "(u32 \<Rightarrow> nat) \<Rightarrow> node_table \<Rightarrow> u32 \<Rightarrow> addr \<Rightarrow> addr \<Rightarrow> u32
    \<Rightarrow> (node_table \<times> u32) result" where
  "put_node part tab key tunnel a seed =
     (let id = part key;
          nodes = (nt_nodes tab)(a \<mapsto> \<lparr>mn_key = key, mn_tunnel = tunnel, mn_ref_count = 1\<rparr>)
      in rbind (cmap_insert (nt_maps tab ! id) a (key_hash key) seed) (\<lambda>(m, seed).
         Inr (\<lparr>nt_maps = (nt_maps tab)[id := m], nt_nodes = nodes\<rparr>, seed)))"

definition get_node :: "(u32 \<Rightarrow> nat) \<Rightarrow> node_table \<Rightarrow> u32 \<Rightarrow> (node_table \<times> addr option) result" where
  "get_node part tab key =
     rbind (of_option No_Return (cmap_find (nt_maps tab ! part key) (key_hash key))) (\<lambda>chain.
     rbind (chain_lookup (nt_nodes tab) key chain) (\<lambda>found.
     case found of
       None \<Rightarrow> Inr (tab, None)
     | Some a \<Rightarrow>
         rbind (of_option Use_After_Free (nt_nodes tab a)) (\<lambda>n.
         Inr (tab\<lparr>nt_nodes := (nt_nodes tab)(a \<mapsto> n\<lparr>mn_ref_count := mn_ref_count n + 1\<rparr>)\<rparr>,
              Some a))))"

text \<open>Dropping a reference, as it is written out at the end of every user of a node: the
  last one drops the node's reference to its tunnel and frees both as needed.\<close>

definition unref_tunnel :: "(addr \<rightharpoonup> gtp_tunnel_node) \<Rightarrow> addr \<Rightarrow> (addr \<rightharpoonup> gtp_tunnel_node) result" where
  "unref_tunnel tuns t =
     rbind (of_option Use_After_Free (tuns t)) (\<lambda>tn.
     rbind (of_option Uninit_Read (tun_ref_count tn)) (\<lambda>rc.
     if rc - 1 = 0 then Inr (tuns(t := None))
     else Inr (tuns(t \<mapsto> tn\<lparr>tun_ref_count := Some (rc - 1)\<rparr>))))"

definition unref_node :: "node_table \<Rightarrow> (addr \<rightharpoonup> gtp_tunnel_node) \<Rightarrow> addr
    \<Rightarrow> (node_table \<times> (addr \<rightharpoonup> gtp_tunnel_node)) result" where
  "unref_node tab tuns a =
     rbind (of_option Use_After_Free (nt_nodes tab a)) (\<lambda>n.
     let rc = mn_ref_count n - 1 in
     if rc = 0
     then rbind (unref_tunnel tuns (mn_tunnel n)) (\<lambda>tuns.
          Inr (tab\<lparr>nt_nodes := (nt_nodes tab)(a := None)\<rparr>, tuns))
     else Inr (tab\<lparr>nt_nodes := (nt_nodes tab)(a \<mapsto> n\<lparr>mn_ref_count := rc\<rparr>)\<rparr>, tuns))"

text \<open>Without a match \<^verbatim>\<open>found_node\<close> is read uninitialised.\<close>

definition del_node :: "(u32 \<Rightarrow> nat) \<Rightarrow> node_table \<Rightarrow> (addr \<rightharpoonup> gtp_tunnel_node) \<Rightarrow> u32 \<Rightarrow> u32
    \<Rightarrow> (node_table \<times> (addr \<rightharpoonup> gtp_tunnel_node) \<times> u32) result" where
  "del_node part tab tuns key seed =
     (let id = part key; hash = key_hash key in
      rbind (of_option No_Return (cmap_find (nt_maps tab ! id) hash)) (\<lambda>chain.
      rbind (chain_lookup (nt_nodes tab) key chain) (\<lambda>found.
      rbind (of_option Uninit_Read found) (\<lambda>a.
      rbind (cmap_remove (nt_maps tab ! id) a hash seed) (\<lambda>(m, seed).
      rbind (unref_node (tab\<lparr>nt_maps := (nt_maps tab)[id := m]\<rparr>) tuns a) (\<lambda>(tab, tuns).
      Inr (tab, tuns, seed)))))))"

section \<open>The functions of the source on the global state\<close>

definition gtp_manager_put_teid_pgw :: "gtp_state \<Rightarrow> u32 \<Rightarrow> addr \<Rightarrow> gtp_state result" where
  "gtp_manager_put_teid_pgw st teid tunnel =
     rbind (put_node teid_part (teid2pgw st) teid tunnel (next_addr st) (rand_seed st))
       (\<lambda>(tab, seed). Inr (st\<lparr>teid2pgw := tab, next_addr := next_addr st + 1, rand_seed := seed\<rparr>))"

definition gtp_manager_get_teid_pgw :: "gtp_state \<Rightarrow> u32 \<Rightarrow> (gtp_state \<times> addr option) result" where
  "gtp_manager_get_teid_pgw st teid =
     rbind (get_node teid_part (teid2pgw st) teid) (\<lambda>(tab, a). Inr (st\<lparr>teid2pgw := tab\<rparr>, a))"

definition gtp_manager_del_teid_pgw :: "gtp_state \<Rightarrow> u32 \<Rightarrow> gtp_state result" where
  "gtp_manager_del_teid_pgw st teid =
     rbind (del_node teid_part (teid2pgw st) (tunnels st) teid (rand_seed st))
       (\<lambda>(tab, tuns, seed). Inr (st\<lparr>teid2pgw := tab, tunnels := tuns, rand_seed := seed\<rparr>))"

definition gtp_manager_put_ueip_pgw :: "gtp_state \<Rightarrow> ovs_be32 \<Rightarrow> addr \<Rightarrow> gtp_state result" where
  "gtp_manager_put_ueip_pgw st ueip tunnel =
     rbind (put_node ueip_part (ueip2pgw st) ueip tunnel (next_addr st) (rand_seed st))
       (\<lambda>(tab, seed). Inr (st\<lparr>ueip2pgw := tab, next_addr := next_addr st + 1, rand_seed := seed\<rparr>))"

definition gtp_manager_get_ueip_pgw :: "gtp_state \<Rightarrow> ovs_be32 \<Rightarrow> (gtp_state \<times> addr option) result" where
  "gtp_manager_get_ueip_pgw st ueip =
     rbind (get_node ueip_part (ueip2pgw st) ueip) (\<lambda>(tab, a). Inr (st\<lparr>ueip2pgw := tab\<rparr>, a))"

definition gtp_manager_del_ueip_pgw :: "gtp_state \<Rightarrow> ovs_be32 \<Rightarrow> gtp_state result" where
  "gtp_manager_del_ueip_pgw st ueip =
     rbind (del_node ueip_part (ueip2pgw st) (tunnels st) ueip (rand_seed st))
       (\<lambda>(tab, tuns, seed). Inr (st\<lparr>ueip2pgw := tab, tunnels := tuns, rand_seed := seed\<rparr>))"

text \<open>\<open>unref_teid_node\<close> and \<open>unref_ueip_node\<close> are the blocks that end the handlers.\<close>

definition unref_teid_node :: "gtp_state \<Rightarrow> addr \<Rightarrow> gtp_state result" where
  "unref_teid_node st a =
     rbind (unref_node (teid2pgw st) (tunnels st) a)
       (\<lambda>(tab, tuns). Inr (st\<lparr>teid2pgw := tab, tunnels := tuns\<rparr>))"

definition unref_ueip_node :: "gtp_state \<Rightarrow> addr \<Rightarrow> gtp_state result" where
  "unref_ueip_node st a =
     rbind (unref_node (ueip2pgw st) (tunnels st) a)
       (\<lambda>(tab, tuns). Inr (st\<lparr>ueip2pgw := tab, tunnels := tuns\<rparr>))"

text \<open>\<open>gtp_manager_init\<close> initialises a \<open>teid2pgw\<close> and a \<open>ueip2pgw\<close> map in turn.\<close>

fun init_maps :: "nat \<Rightarrow> u32 \<Rightarrow> (addr cmap_impl list \<times> addr cmap_impl list \<times> u32) result" where
  "init_maps 0 seed = Inr ([], [], seed)"
| "init_maps (Suc k) seed =
     rbind (cmap_init seed) (\<lambda>(m1, seed).
     rbind (cmap_init seed) (\<lambda>(m2, seed).
     rbind (init_maps k seed) (\<lambda>(ms1, ms2, seed).
     Inr (m1 # ms1, m2 # ms2, seed))))"

definition gtp_manager_init :: "gtp_state \<Rightarrow> gtp_state result" where
  "gtp_manager_init st =
     rbind (init_maps HASHMAP_PART_NUM (rand_seed st)) (\<lambda>(ms1, ms2, seed).
     Inr (st\<lparr>pgw_current := 0, pgw_end := 0,
             pgw_list := map (\<lambda>p. p\<lparr>gtp_pgw_ip := 0\<rparr>) (pgw_list st),
             teid2pgw := (teid2pgw st)\<lparr>nt_maps := ms1\<rparr>,
             ueip2pgw := (ueip2pgw st)\<lparr>nt_maps := ms2\<rparr>, rand_seed := seed\<rparr>))"

text \<open>The statics before \<open>gtp_manager_init\<close> runs.\<close>

definition gtp_static :: "u32 \<Rightarrow> gtp_state" where
  "gtp_static seed =
     \<lparr>ovs_id = 0, ovs_total = 0, ovs_phy_port = 0, pgw_fastpath = 0,
      pgw_list = replicate MAX_PGW_PER_NODE
        \<lparr>gtp_pgw_port = 0, gtp_pgw_eth = 0, pgw_sgi_port = 0, pgw_sgi_eth = 0, gtp_pgw_ip = 0\<rparr>,
      pgw_current = 0, pgw_end = 0,
      teid2pgw = \<lparr>nt_maps = [], nt_nodes = Map.empty\<rparr>,
      ueip2pgw = \<lparr>nt_maps = [], nt_nodes = Map.empty\<rparr>,
      tunnels = Map.empty, next_addr = 0, hdr_live = 0, rand_seed = seed\<rparr>"

end
