(* ===== verification/Gtp_Tables.thy ===== *)
theory Gtp_Tables
  imports Gtp_Manager
begin

text \<open>
  The contract of the key-to-tunnel tables. \<open>gtp_table\<close> is the interface both tables
  share; it extends the interface of a partitioned map. Its lemmas say what looking up,
  adding, deleting and unreferencing a node do to the chains of nodes and to the
  reference counts, and which faults remain possible.
\<close>

unbundle bit_operations_syntax

section \<open>The invariant of one table\<close>

definition tab_chain :: "(u32 \<Rightarrow> nat) \<Rightarrow> node_table \<Rightarrow> u32 \<Rightarrow> addr list" where
  "tab_chain part tab = part_chain cmap_abs part key_hash (nt_maps tab)"

text \<open>\<open>H\<close> is the node a handler holds a reference to. A node is counted once for being in
  the map and once for being held, and is freed when neither is the case.\<close>

definition node_inv :: "(u32 \<Rightarrow> nat) \<Rightarrow> node_table \<Rightarrow> addr option \<Rightarrow> bool" where
  "node_inv part tab H \<longleftrightarrow>
     length (nt_maps tab) = HASHMAP_PART_NUM \<and> (\<forall>m \<in> set (nt_maps tab). cmap_inv m) \<and>
     finite (dom (nt_nodes tab)) \<and>
     (\<forall>k. distinct (tab_chain part tab k)) \<and>
     (\<forall>k. \<forall>a \<in> set (tab_chain part tab k). \<exists>n. nt_nodes tab a = Some n \<and> mn_key n = k) \<and>
     (\<forall>a n. nt_nodes tab a = Some n \<longrightarrow> 
        unat (mn_ref_count n) =
          of_bool (a \<in> set (tab_chain part tab (mn_key n))) + of_bool (H = Some a) \<and>
        (a \<in> set (tab_chain part tab (mn_key n)) \<or> H = Some a)) \<and>
     (\<forall>a. H = Some a \<longrightarrow> a \<in> dom (nt_nodes tab))"

lemma node_invD:
  assumes "node_inv part tab H"
  shows "length (nt_maps tab) = HASHMAP_PART_NUM" and "\<forall>m \<in> set (nt_maps tab). cmap_inv m"
    and "finite (dom (nt_nodes tab))" and "distinct (tab_chain part tab k)"
    and "a \<in> set (tab_chain part tab k) \<Longrightarrow> \<exists>n. nt_nodes tab a = Some n \<and> mn_key n = k"
    and "nt_nodes tab a = Some n \<Longrightarrow> unat (mn_ref_count n) =
      of_bool (a \<in> set (tab_chain part tab (mn_key n))) + of_bool (H = Some a)"
    and "nt_nodes tab a = Some n \<Longrightarrow> a \<in> set (tab_chain part tab (mn_key n)) \<or> H = Some a"
    and "H = Some a \<Longrightarrow> \<exists>n. nt_nodes tab a = Some n"
  using assms unfolding node_inv_def by (blast+)

text \<open>The number of nodes that refer to a tunnel.\<close>

definition tab_refs :: "node_table \<Rightarrow> addr \<Rightarrow> nat" where
  "tab_refs tab t = card {a. \<exists>n. nt_nodes tab a = Some n \<and> mn_tunnel n = t}"

lemma finite_refs: "finite (dom f) \<Longrightarrow> finite {a. \<exists>n. f a = Some n \<and> Q n}"
  by (rule finite_subset[of _ "dom f"]) auto

lemma tab_refs_add:
  assumes "finite (dom (nt_nodes tab))" and "nt_nodes tab a = None"
    and "nt_nodes tab' = (nt_nodes tab)(a \<mapsto> n)"
  shows "tab_refs tab' t = tab_refs tab t + of_bool (mn_tunnel n = t)"
proof -
  have "{b. \<exists>n. nt_nodes tab' b = Some n \<and> mn_tunnel n = t} =
      {b. \<exists>n. nt_nodes tab b = Some n \<and> mn_tunnel n = t} \<union> (if mn_tunnel n = t then {a} else {})"
    using assms(2,3) by auto
  then show ?thesis
    using finite_refs[OF assms(1), of "\<lambda>n. mn_tunnel n = t"] assms(2) by (simp add: tab_refs_def)
qed

lemma tab_refs_remove:
  assumes "finite (dom (nt_nodes tab))" and "nt_nodes tab a = Some n"
    and "nt_nodes tab' = (nt_nodes tab)(a := None)"
  shows "tab_refs tab t = tab_refs tab' t + of_bool (mn_tunnel n = t)"
proof -
  have "nt_nodes tab = (nt_nodes tab')(a \<mapsto> n)" using assms(2,3) by auto
  moreover have "finite (dom (nt_nodes tab'))" "nt_nodes tab' a = None" using assms(1,3) by auto
  ultimately show ?thesis using tab_refs_add[of tab' a tab n t] by simp
qed

lemma tab_refs_change:
  assumes "nt_nodes tab a = Some n" and "nt_nodes tab' = (nt_nodes tab)(a \<mapsto> n')"
    and "mn_tunnel n' = mn_tunnel n"
  shows "tab_refs tab' t = tab_refs tab t"
proof -
  have "{b. \<exists>n. nt_nodes tab' b = Some n \<and> mn_tunnel n = t} =
      {b. \<exists>n. nt_nodes tab b = Some n \<and> mn_tunnel n = t}"
    using assms by (auto split: if_splits)
  then show ?thesis by (simp add: tab_refs_def)
qed

lemma tab_refs_pos: "finite (dom (nt_nodes tab)) \<Longrightarrow> nt_nodes tab a = Some n \<Longrightarrow>
    0 < tab_refs tab (mn_tunnel n)"
  unfolding tab_refs_def using finite_refs[of "nt_nodes tab" "\<lambda>m. mn_tunnel m = mn_tunnel n"]
  by (subst card_gt_0_iff) blast

section \<open>The interface of a table\<close>

lemma key_hash_inject: "key_hash k = key_hash k' \<Longrightarrow> k = k'"
  unfolding key_hash_def by (rule injD[OF inj_hash_int])

locale gtp_table =
  fixes part :: "u32 \<Rightarrow> nat"
  assumes part_bound: "part k < HASHMAP_PART_NUM"

sublocale gtp_table \<subseteq> pm: partitioned_map cmap_inv cmap_abs cmap_find cmap_insert cmap_remove
    HASHMAP_PART_NUM part key_hash
  by unfold_locales (simp_all add: part_bound key_hash_inject)

context gtp_table
begin

lemma find_chain:
  "node_inv part tab H \<Longrightarrow>
     cmap_find (nt_maps tab ! part k) (key_hash k) = Some (tab_chain part tab k)"
  using pm.chain_find[OF node_invD(1,2)] by (simp add: tab_chain_def)

text \<open>Every node of a chain has the key that was looked up, so the first one is taken.\<close>

lemma chain_lookup_first:
  assumes "node_inv part tab H"
  shows "chain_lookup (nt_nodes tab) k (tab_chain part tab k) =
    Inr (case tab_chain part tab k of [] \<Rightarrow> None | a # _ \<Rightarrow> Some a)"
  using node_invD(5)[OF assms, of _ k] by (cases "tab_chain part tab k") fastforce+

lemma get_node_none:
  assumes "node_inv part tab H" and "tab_chain part tab k = []"
  shows "get_node part tab k = Inr (tab, None)"
  using chain_lookup_first[OF assms(1), of k] assms(2)
  by (simp add: get_node_def find_chain[OF assms(1)])

lemma get_node_some:
  assumes inv: "node_inv part tab None" and chain: "tab_chain part tab k = a # rest"
  obtains n where "nt_nodes tab a = Some n" and "mn_key n = k"
    and "get_node part tab k =
      Inr (tab\<lparr>nt_nodes := (nt_nodes tab)(a \<mapsto> n\<lparr>mn_ref_count := mn_ref_count n + 1\<rparr>)\<rparr>, Some a)"
    and "node_inv part (tab\<lparr>nt_nodes := (nt_nodes tab)(a \<mapsto> n\<lparr>mn_ref_count := mn_ref_count n + 1\<rparr>)\<rparr>)
      (Some a)"
proof -
  let ?tab' = "\<lambda>n. tab\<lparr>nt_nodes := (nt_nodes tab)(a \<mapsto> n\<lparr>mn_ref_count := mn_ref_count n + 1\<rparr>)\<rparr>"
  from node_invD(5)[OF inv, of a k] chain obtain n where n: "nt_nodes tab a = Some n" "mn_key n = k"
    by auto
  have "unat (mn_ref_count n) = 1" using node_invD(6)[OF inv n(1)] n(2) chain by simp
  then have rc: "unat (mn_ref_count n + 1) = 2"
    by (simp add: unat_word_ariths)
  have c: "tab_chain part (?tab' n) = tab_chain part tab" by (simp add: tab_chain_def)
  have key: "mn_key n = k'" if "a \<in> set (tab_chain part tab k')" for k'
    using node_invD(5)[OF inv that] n by simp
  have "node_inv part (?tab' n) (Some a)"
    using inv n rc chain unfolding node_inv_def c by (auto dest: key)
  moreover have "get_node part tab k = Inr (?tab' n, Some a)"
    using chain_lookup_first[OF inv, of k] chain n by (simp add: get_node_def find_chain[OF inv])
  ultimately show ?thesis using that n by blast
qed

lemma put_node_ok:
  assumes inv: "node_inv part tab None" and a: "nt_nodes tab a = None"
    and run: "put_node part tab k t a seed = Inr (tab', seed')"
  shows "node_inv part tab' None"
    and "tab_chain part tab' = (tab_chain part tab)(k := a # tab_chain part tab k)"
    and "nt_nodes tab' = (nt_nodes tab)(a \<mapsto> \<lparr>mn_key = k, mn_tunnel = t, mn_ref_count = 1\<rparr>)"
proof -
  from run obtain m where m: "cmap_insert (nt_maps tab ! part k) a (key_hash k) seed = Inr (m, seed')"
    and tab': "tab' = \<lparr>nt_maps = (nt_maps tab)[part k := m],
        nt_nodes = (nt_nodes tab)(a \<mapsto> \<lparr>mn_key = k, mn_tunnel = t, mn_ref_count = 1\<rparr>)\<rparr>"
    by (auto simp: put_node_def rbind_eq_Inr Let_def split: prod.splits)
  note D = node_invD[OF inv]
  note ins = pm.chain_insert[OF D(1,2) m]
  show chain: "tab_chain part tab' = (tab_chain part tab)(k := a # tab_chain part tab k)"
    using ins(2) by (simp add: tab_chain_def tab')
  show nodes: "nt_nodes tab' = (nt_nodes tab)(a \<mapsto> \<lparr>mn_key = k, mn_tunnel = t, mn_ref_count = 1\<rparr>)"
    by (simp add: tab')
  have new: "a \<notin> set (tab_chain part tab k')" for k' using D(5)[of a k'] a by auto
  have maps: "length (nt_maps tab') = HASHMAP_PART_NUM" "\<forall>m \<in> set (nt_maps tab'). cmap_inv m"
    using D(1) ins(1) by (simp_all add: tab')
  have keys: "\<exists>n. nt_nodes tab' b = Some n \<and> mn_key n = k'"
    if "b \<in> set (tab_chain part tab' k')" for b k'
    using that D(5)[of b k'] new[of k'] by (auto simp: chain nodes split: if_splits)
  have refs: "unat (mn_ref_count n) = of_bool (b \<in> set (tab_chain part tab' (mn_key n)))"
    "b \<in> set (tab_chain part tab' (mn_key n))" if "nt_nodes tab' b = Some n" for b n
    using that D(6)[of b n] D(7)[of b n] by (auto simp: chain nodes split: if_splits)
  show "node_inv part tab' None"
    unfolding node_inv_def using maps keys refs D(3,4) new
    by (auto simp: nodes chain)
qed

lemma put_node_fault:
  assumes inv: "node_inv part tab H" and run: "put_node part tab k t a seed = Inl e"
  shows "e = No_Return \<or> e = Assert_Fail"
  using run pm.chain_insert_fault[OF node_invD(1,2)[OF inv]]
  by (auto simp: put_node_def rbind_def Let_def split: sum.splits prod.splits)

text \<open>Taking the first node of a chain out of the map.\<close>

lemma unchain_inv:
  assumes inv: "node_inv part tab H" and chain: "tab_chain part tab k = a # rest"
    and m: "cmap_remove (nt_maps tab ! part k) a (key_hash k) seed = Inr (m, seed')"
  shows "\<forall>m' \<in> set ((nt_maps tab)[part k := m]). cmap_inv m'"
    and "tab_chain part (tab\<lparr>nt_maps := (nt_maps tab)[part k := m]\<rparr>) = (tab_chain part tab)(k := rest)"
  using pm.chain_remove[OF node_invD(1,2)[OF inv] m] chain by (simp_all add: tab_chain_def)

text \<open>Deleting a key: the node goes if nobody holds it, otherwise the holder's reference
  keeps it.\<close>

lemma del_node_none:
  assumes "node_inv part tab H" and "tab_chain part tab k = []"
  shows "del_node part tab tuns k seed = Inl Uninit_Read"
  using chain_lookup_first[OF assms(1), of k] assms(2)
  by (simp add: del_node_def find_chain[OF assms(1)] Let_def)

lemma del_node_some:
  assumes inv: "node_inv part tab H" and chain: "tab_chain part tab k = a # rest"
    and n: "nt_nodes tab a = Some n"
  shows "del_node part tab tuns k seed =
    rbind (cmap_remove (nt_maps tab ! part k) a (key_hash k) seed) (\<lambda>(m, seed).
    let tab = tab\<lparr>nt_maps := (nt_maps tab)[part k := m]\<rparr> in
    if H = Some a
    then Inr (tab\<lparr>nt_nodes := (nt_nodes tab)(a \<mapsto> n\<lparr>mn_ref_count := 1\<rparr>)\<rparr>, tuns, seed)
    else rbind (unref_tunnel tuns (mn_tunnel n)) (\<lambda>tuns.
         Inr (tab\<lparr>nt_nodes := (nt_nodes tab)(a := None)\<rparr>, tuns, seed)))"
proof -
  have key: "mn_key n = k" using node_invD(5)[OF inv, of a k] chain n by simp
  have "unat (mn_ref_count n) = 1 + of_bool (H = Some a)"
    using node_invD(6)[OF inv n] key chain by simp
  then have rc: "mn_ref_count n = 1 + of_bool (H = Some a)"
    by (cases "H = Some a") (simp_all add: word_unat_eq_iff)
  show ?thesis
    using chain_lookup_first[OF inv, of k] chain n rc
    by (cases "cmap_remove (nt_maps tab ! part k) a (key_hash k) seed")
      (auto simp: del_node_def find_chain[OF inv] Let_def unref_node_def rbind_def
        split: prod.splits sum.splits)
qed

lemma del_node_ok:
  assumes inv: "node_inv part tab H" and run: "del_node part tab tuns k seed = Inr (tab', tuns', seed')"
  obtains a rest n where "tab_chain part tab k = a # rest" and "nt_nodes tab a = Some n"
    and "mn_key n = k" and "tab_chain part tab' = (tab_chain part tab)(k := rest)"
    and "node_inv part tab' H"
    and "nt_nodes tab' = (nt_nodes tab)(a := if H = Some a then Some (n\<lparr>mn_ref_count := 1\<rparr>) else None)"
    and "if H = Some a then tuns' = tuns else unref_tunnel tuns (mn_tunnel n) = Inr tuns'"
proof -
  note D = node_invD[OF inv]
  have "tab_chain part tab k \<noteq> []" using run del_node_none[OF inv, of k tuns seed] by auto
  then obtain a rest where chain: "tab_chain part tab k = a # rest" by (cases "tab_chain part tab k") auto
  with D(5)[of a k] obtain n where n: "nt_nodes tab a = Some n" "mn_key n = k" by auto
  from run[unfolded del_node_some[OF inv chain n(1)] rbind_eq_Inr[of "cmap_remove _ _ _ _"]]
  obtain q where q: "cmap_remove (nt_maps tab ! part k) a (key_hash k) seed = Inr q" and
    r: "(case q of (m, seed) \<Rightarrow> let tab = tab\<lparr>nt_maps := (nt_maps tab)[part k := m]\<rparr> in
      if H = Some a
      then Inr (tab\<lparr>nt_nodes := (nt_nodes tab)(a \<mapsto> n\<lparr>mn_ref_count := 1\<rparr>)\<rparr>, tuns, seed)
      else rbind (unref_tunnel tuns (mn_tunnel n)) (\<lambda>tuns.
           Inr (tab\<lparr>nt_nodes := (nt_nodes tab)(a := None)\<rparr>, tuns, seed))) = Inr (tab', tuns', seed')"
    by blast
  obtain m s where ms: "q = (m, s)" by (cases q)
  note m = q[unfolded ms]
  have maps: "nt_maps tab' = (nt_maps tab)[part k := m]"
    and nodes: "nt_nodes tab' = (nt_nodes tab)(a := if H = Some a then Some (n\<lparr>mn_ref_count := 1\<rparr>) else None)"
    and tuns: "if H = Some a then tuns' = tuns else unref_tunnel tuns (mn_tunnel n) = Inr tuns'"
    using r by (cases "H = Some a"; auto simp: ms rbind_eq_Inr Let_def)+
  note U = unchain_inv[OF inv chain m]
  have chain': "tab_chain part tab' = (tab_chain part tab)(k := rest)"
    using U(2) by (simp add: tab_chain_def maps)
  have dist: "a \<notin> set rest" "distinct rest" using D(4)[of k] chain by auto
  have notin: "a \<notin> set (tab_chain part tab' k')" for k'
    using D(5)[of a k'] n dist by (auto simp: chain')
  have keys: "\<exists>n. nt_nodes tab' b = Some n \<and> mn_key n = k'"
    if "b \<in> set (tab_chain part tab' k')" for b k'
  proof -
    have "b \<noteq> a" "b \<in> set (tab_chain part tab k')" 
      using that notin[of k'] chain by (auto simp: chain' split: if_splits)
    with D(5)[of b k'] show ?thesis by (simp add: nodes)
  qed
  have same: "b \<in> set (tab_chain part tab' k') \<longleftrightarrow> b \<in> set (tab_chain part tab k')" if "b \<noteq> a" for b k'
    using that chain by (simp add: chain')
  have refs: "unat (mn_ref_count n') = of_bool (b \<in> set (tab_chain part tab' (mn_key n'))) +
        of_bool (H = Some b) \<and> (b \<in> set (tab_chain part tab' (mn_key n')) \<or> H = Some b)"
    if b: "nt_nodes tab' b = Some n'" for b n'
  proof (cases "b = a")
    case True
    with b show ?thesis using notin by (auto simp: nodes split: if_splits)
  next
    case False
    with b have "nt_nodes tab b = Some n'" by (simp add: nodes)
    from D(6)[OF this] D(7)[OF this] show ?thesis by (simp add: same[OF False])
  qed
  have held: "\<forall>b. H = Some b \<longrightarrow> b \<in> dom (nt_nodes tab')"
    using D(8) by (auto simp: nodes)
  have "length (nt_maps tab') = HASHMAP_PART_NUM" "finite (dom (nt_nodes tab'))"
    "\<And>k'. distinct (tab_chain part tab' k')"
    using D(1,3,4) dist by (auto simp: maps nodes chain')
  with keys refs held U(1) have "node_inv part tab' H"
    unfolding node_inv_def by (simp add: maps)
  with chain n chain' nodes tuns that show ?thesis by blast
qed

lemma del_node_fault:
  assumes inv: "node_inv part tab H" and run: "del_node part tab tuns k seed = Inl e"
  shows "e = Uninit_Read \<or> e = No_Return \<or> e = Assert_Fail \<or>
    (\<exists>a n. nt_nodes tab a = Some n \<and> unref_tunnel tuns (mn_tunnel n) = Inl e)"
proof (cases "tab_chain part tab k")
  case Nil
  with run del_node_none[OF inv Nil] show ?thesis by simp
next
  case (Cons a rest)
  with node_invD(5)[OF inv, of a k] obtain n where n: "nt_nodes tab a = Some n" by auto
  have "e' = No_Return \<or> e' = Assert_Fail"
    if "cmap_remove (nt_maps tab ! part k) a (key_hash k) seed = Inl e'" for e'
    using pm.chain_remove_fault[OF node_invD(1,2)[OF inv] _ that] Cons by (simp add: tab_chain_def)
  with run[unfolded del_node_some[OF inv Cons n]] n show ?thesis
    by (auto simp: rbind_def Let_def split: sum.splits prod.splits if_splits)
qed

text \<open>Giving up the reference a handler holds.\<close>

lemma unref_node_held:
  assumes inv: "node_inv part tab (Some a)" and n: "nt_nodes tab a = Some n"
  defines "gone \<equiv> a \<notin> set (tab_chain part tab (mn_key n))"
  defines "tab' \<equiv> tab\<lparr>nt_nodes := (nt_nodes tab)(a := if gone then None else Some (n\<lparr>mn_ref_count := 1\<rparr>))\<rparr>"
  shows "unref_node tab tuns a =
      (if gone then rbind (unref_tunnel tuns (mn_tunnel n)) (\<lambda>tuns. Inr (tab', tuns))
       else Inr (tab', tuns))"
    and "node_inv part tab' None" and "tab_chain part tab' = tab_chain part tab"
proof -
  note D = node_invD[OF inv]
  have "unat (mn_ref_count n) = of_bool (\<not> gone) + 1" using D(6)[OF n] by (simp add: gone_def)
  then have rc: "mn_ref_count n = of_bool (\<not> gone) + 1"
    by (cases gone) (simp_all add: word_unat_eq_iff)
  show "unref_node tab tuns a =
      (if gone then rbind (unref_tunnel tuns (mn_tunnel n)) (\<lambda>tuns. Inr (tab', tuns))
       else Inr (tab', tuns))"
    using n rc by (simp add: unref_node_def Let_def tab'_def)
  show chain: "tab_chain part tab' = tab_chain part tab" by (simp add: tab_chain_def tab'_def)
  have key: "mn_key n = k'" if "a \<in> set (tab_chain part tab k')" for k'
    using D(5)[OF that] n by simp
  have keys: "\<exists>n. nt_nodes tab' b = Some n \<and> mn_key n = k'"
    if b: "b \<in> set (tab_chain part tab k')" for b k'
  proof (cases "b = a")
    case True
    with b key[of k'] show ?thesis by (simp add: tab'_def gone_def)
  next
    case False
    with D(5)[OF b] show ?thesis by (simp add: tab'_def)
  qed
  have refs: "unat (mn_ref_count n') = of_bool (b \<in> set (tab_chain part tab (mn_key n'))) \<and>
        b \<in> set (tab_chain part tab (mn_key n'))"
    if b: "nt_nodes tab' b = Some n'" for b n'
  proof (cases "b = a")
    case True
    with b show ?thesis by (auto simp: tab'_def gone_def split: if_splits)
  next
    case False
    with b have "nt_nodes tab b = Some n'" by (simp add: tab'_def)
    from D(6)[OF this] D(7)[OF this] False show ?thesis by auto
  qed
  show "node_inv part tab' None"
    unfolding node_inv_def chain using D(1-4) keys refs by (simp add: tab'_def)
qed

end

section \<open>Both tables are instances\<close>

lemma teid_part_bound: "teid_part k < HASHMAP_PART_NUM"
proof -
  have "unat (k AND 0x1F) \<le> unat (0x1F :: u32)"
    using word_and_le1[of k "0x1F"] by (simp only: word_le_nat_alt)
  then show ?thesis by (simp add: teid_part_def HASHMAP_PART_NUM_def)
qed

lemma ueip_part_bound: "ueip_part k < HASHMAP_PART_NUM"
proof -
  have "unat (k AND 0x1F000000) \<le> unat (0x1F000000 :: u32)"
    using word_and_le1[of k "0x1F000000"] by (simp only: word_le_nat_alt)
  then have "unat (k AND 0x1F000000) div 2 ^ 24 \<le> 0x1F000000 div 2 ^ 24"
    by (intro div_le_mono) simp
  moreover have "ueip_part k = unat (k AND 0x1F000000) div 2 ^ 24"
    unfolding ueip_part_def unat_drop_bit_eq by (simp only: drop_bit_eq_div)
  ultimately show ?thesis by (simp add: HASHMAP_PART_NUM_def)
qed

interpretation teid: gtp_table teid_part
  by unfold_locales (rule teid_part_bound)

interpretation ueip: gtp_table ueip_part
  by unfold_locales (rule ueip_part_bound)

end
