(* ===== verification/Gtp_Message.thy ===== *)
theory Gtp_Message
  imports Dp_Packet
begin

text \<open>
  Parsing GTP messages in \<^verbatim>\<open>ofproto/gtp-manager.c\<close>: the headers of GTP-C version 2 and
  GTP-U version 1, and the scan of a Create Session Response for the two tunnel endpoint
  identifiers of the serving gateway and the address of the user equipment. The scan is
  compared with a fold over the list of information elements the bytes encode.
\<close>

unbundle bit_operations_syntax

section \<open>Headers\<close>

text \<open>Memory from \<^verbatim>\<open>xmalloc()\<close> that the parser leaves alone is \<open>None\<close>: \<^verbatim>\<open>teid\<close> of a
  header without one.\<close>

record gtpc_msg_header =
  gc_version :: u8
  gc_has_teid :: bool
  gc_message_type :: u8
  gc_message_length :: u16
  gc_teid :: "u32 option"
  gc_seq_num :: u32
  gc_header_length :: nat
  gc_body_offset :: nat

record gtpu_msg_header =
  gu_version :: u8
  gu_message_type :: u8
  gu_message_length :: u16
  gu_teid :: u32
  gu_header_length :: nat
  gu_body_offset :: nat

text \<open>\<open>Inr None\<close> is the null pointer the parsers return for another version. Without a
  UDP payload they subtract from a null pointer.\<close>

definition parse_gtpc_msg_header :: "dp_packet \<Rightarrow> gtpc_msg_header option result" where
  "parse_gtpc_msg_header packet =
     rbind (of_option Wild_Pointer (dp_packet_get_udp_payload packet)) (\<lambda>offset.
     rbind (read_u8 packet offset) (\<lambda>flag.
     let version = drop_bit 5 (flag AND 0xe0) in
     if version \<noteq> 2 then Inr None
     else
       let has_teid = (if flag AND 0x08 = 0 then False else True);
           offset = offset + 1; header_length = 1 in
       rbind (read_u8 packet offset) (\<lambda>message_type.
       let offset = offset + 1; header_length = header_length + 1 in
       rbind (read_be16 packet offset) (\<lambda>message_length.
       let offset = offset + 2; header_length = header_length + 2 in
       rbind (if has_teid
              then rbind (read_be32 packet offset) (\<lambda>teid.
                     Inr (Some (ntohl teid), offset + 4, header_length + 4))
              else Inr (None, offset, header_length)) (\<lambda>(teid, offset, header_length).
       rbind (read_be32 packet offset) (\<lambda>seq_num.
       Inr (Some \<lparr>gc_version = version, gc_has_teid = has_teid,
                  gc_message_type = message_type, gc_message_length = ntohs message_length,
                  gc_teid = teid, gc_seq_num = drop_bit 8 (ntohl (seq_num AND 0xFFFFFF00)),
                  gc_header_length = header_length + 4, gc_body_offset = offset + 4\<rparr>)))))))"

definition parse_gtpu_message :: "dp_packet \<Rightarrow> gtpu_msg_header option result" where
  "parse_gtpu_message packet =
     rbind (of_option Wild_Pointer (dp_packet_get_udp_payload packet)) (\<lambda>offset.
     rbind (read_u8 packet offset) (\<lambda>flag.
     let version = drop_bit 5 (flag AND 0xe0) in
     if version \<noteq> 1 then Inr None
     else
       let offset = offset + 1; header_length = 1 in
       rbind (read_u8 packet offset) (\<lambda>message_type.
       let offset = offset + 1; header_length = header_length + 1 in
       rbind (read_be16 packet offset) (\<lambda>message_length.
       let offset = offset + 2; header_length = header_length + 2 in
       rbind (read_be32 packet offset) (\<lambda>teid.
       Inr (Some \<lparr>gu_version = version, gu_message_type = message_type,
                  gu_message_length = ntohs message_length, gu_teid = ntohl teid,
                  gu_header_length = header_length + 4, gu_body_offset = offset + 4\<rparr>))))))"

section \<open>The information elements of a Create Session Response\<close>

text \<open>The inner loop over a bearer context: it stops at the first F-TEID (type 87).\<close>

function bearer_scan :: "dp_packet \<Rightarrow> nat \<Rightarrow> nat \<Rightarrow> u32 \<Rightarrow> u32 result" where
  "bearer_scan packet bcstart bcstartend t5 =
     (if bcstart < bcstartend
      then rbind (read_be16 packet (bcstart + 1)) (\<lambda>bc_ie_length.
           rbind (read_u8 packet bcstart) (\<lambda>bc_ie_type.
           if bc_ie_type = 87
           then rbind (read_be32 packet (bcstart + 5)) (\<lambda>t5p. Inr (ntohl t5p))
           else bearer_scan packet (bcstart + unat (ntohs bc_ie_length) + 4) bcstartend t5))
      else Inr t5)"
  by pat_completeness auto
termination
  by (relation "measure (\<lambda>(packet, bcstart, bcstartend, t5). bcstartend - bcstart)") auto

declare bearer_scan.simps [simp del]

record session_ies =
  si_t4 :: u32
  si_t5 :: u32
  si_ueip :: ovs_be32

definition ies_complete :: "session_ies \<Rightarrow> bool" where
  "ies_complete s \<longleftrightarrow> si_t4 s \<noteq> 0 \<and> si_t5 s \<noteq> 0 \<and> si_ueip s \<noteq> 0"

text \<open>The outer loop; \<open>finish\<close> is an \<^verbatim>\<open>int\<close> and lies before \<open>start\<close> when the length field of
  the header is too small.\<close>

function session_scan :: "dp_packet \<Rightarrow> nat \<Rightarrow> int \<Rightarrow> session_ies \<Rightarrow> session_ies result" where
  "session_scan packet start finish s =
     (if int start < finish
      then rbind (read_be16 packet (start + 1)) (\<lambda>ie_length.
           rbind (read_u8 packet start) (\<lambda>ie_type.
           let ie_length_t = unat (ntohs ie_length) in
           rbind (if ie_type = 87
                  then rbind (read_be32 packet (start + 5)) (\<lambda>t4p. Inr (s\<lparr>si_t4 := ntohl t4p\<rparr>))
                  else if ie_type = 79
                  then rbind (read_be32 packet (start + 5)) (\<lambda>ueipp. Inr (s\<lparr>si_ueip := ueipp\<rparr>))
                  else if ie_type = 93
                  then rbind (bearer_scan packet (start + 4) (start + 4 + ie_length_t) (si_t5 s))
                         (\<lambda>t5. Inr (s\<lparr>si_t5 := t5\<rparr>))
                  else Inr s) (\<lambda>s.
           if ies_complete s then Inr s
           else session_scan packet (start + ie_length_t + 4) finish s)))
      else Inr s)"
  by pat_completeness auto
termination
  by (relation "measure (\<lambda>(packet, start, finish, s). nat (finish - int start))")
    (auto intro: le_less_trans[of _ 0])

declare session_scan.simps [simp del]

definition scan_session_response :: "gtpc_msg_header \<Rightarrow> dp_packet \<Rightarrow> session_ies result" where
  "scan_session_response gtpcmsg packet =
     (let start = gc_body_offset gtpcmsg;
          len = int (unat (gc_message_length gtpcmsg)) + 4;
          finish = int start + (len - int (gc_header_length gtpcmsg))
      in session_scan packet start finish \<lparr>si_t4 = 0, si_t5 = 0, si_ueip = 0\<rparr>)"

text \<open>The only fault of the scans is a field beyond the end of the packet.\<close>

lemma bearer_scan_fault: "bearer_scan packet s f t5 = Inl e \<Longrightarrow> e = Null_Deref"
proof (induction packet s f t5 rule: bearer_scan.induct)
  case (1 packet bcstart bcstartend t5)
  show ?case
  proof (cases "bcstart < bcstartend")
    case False
    with "1.prems" show ?thesis by (simp add: bearer_scan.simps)
  next
    case True
    note run = "1.prems"[unfolded bearer_scan.simps[of packet bcstart]]
    from run "1.IH"[OF True] True show ?thesis
      by (auto simp: rbind_def split: sum.splits if_splits dest: read_fault)
  qed
qed

lemma session_scan_fault: "session_scan packet start finish s = Inl e \<Longrightarrow> e = Null_Deref"
proof (induction packet start finish s rule: session_scan.induct)
  case (1 packet start finish s)
  show ?case
  proof (cases "int start < finish")
    case False
    with "1.prems" show ?thesis by (simp add: session_scan.simps)
  next
    case True
    note run = "1.prems"[unfolded session_scan.simps[of packet start]]
    from run "1.IH"[OF True] True show ?thesis
      by (auto simp: rbind_def Let_def split: sum.splits if_splits
          dest: read_fault bearer_scan_fault)
  qed
qed

lemma parse_gtp_fault:
  "parse_gtpc_msg_header packet = Inl e \<Longrightarrow> e = Wild_Pointer \<or> e = Null_Deref"
  "parse_gtpu_message packet = Inl e \<Longrightarrow> e = Wild_Pointer \<or> e = Null_Deref"
  by (auto simp: parse_gtpc_msg_header_def parse_gtpu_message_def rbind_def of_option_def Let_def
      split: sum.splits if_splits option.splits prod.splits dest: read_fault)

section \<open>What the bytes encode\<close>

text \<open>Big-endian fields on the wire.\<close>

definition wire16 :: "u16 \<Rightarrow> u8 list" where
  "wire16 x = [ucast (drop_bit 8 x), ucast x]"

definition wire32 :: "u32 \<Rightarrow> u8 list" where
  "wire32 x = [ucast (drop_bit 24 x), ucast (drop_bit 16 x), ucast (drop_bit 8 x), ucast x]"

lemma ntohs_wire16 [simp]: "ntohs (le16 (ucast (drop_bit 8 x)) (ucast x)) = x"
  unfolding ntohs_le16 by (rule bit_word_eqI) (auto simp: bit_simps dest: bit_imp_le_length)

lemma le32_wire32 [simp]:
  "le32 (ucast (drop_bit 24 x)) (ucast (drop_bit 16 x)) (ucast (drop_bit 8 x)) (ucast x) = htonl x"
  by (simp add: htonl_def)

text \<open>A GTP-C version 2 header with a TEID, and a GTP-U version 1 header, as 3GPP
  TS 29.274 and TS 29.281 lay them out.\<close>

definition wire_gtpc :: "u8 \<Rightarrow> u16 \<Rightarrow> u32 \<Rightarrow> u32 \<Rightarrow> u8 \<Rightarrow> u8 list" where
  "wire_gtpc message_type message_length teid seq_num spare =
     [0x48, message_type] @ wire16 message_length @ wire32 teid @ tl (wire32 seq_num) @ [spare]"

definition wire_gtpu :: "u8 \<Rightarrow> u16 \<Rightarrow> u32 \<Rightarrow> u8 list" where
  "wire_gtpu message_type message_length teid =
     [0x30, message_type] @ wire16 message_length @ wire32 teid"

text \<open>A packet whose UDP payload starts with the bytes \<open>d\<close>.\<close>

definition udp_packet :: "dp_packet \<Rightarrow> u8 list \<Rightarrow> u8 list \<Rightarrow> bool" where
  "udp_packet packet pre d \<longleftrightarrow>
     pkt_data packet = pre @ d \<and> dp_packet_get_udp_payload packet = Some (length pre)"

text \<open>The mask is applied to the loaded word, so it clears the first octet of the three
  that hold the sequence number, not the spare octet behind them.\<close>

lemma seq_num_mask:
  "drop_bit 8 (ntohl (le32 b0 b1 b2 b3 AND 0xFFFFFF00)) = le32 b2 b1 0 0"
proof -
  have m: "(0xFFFFFF00 :: u32) = NOT (mask 8)" by (simp add: mask_eq_exp_minus_1)
  have "le32 b0 b1 b2 b3 AND 0xFFFFFF00 = le32 0 b1 b2 b3"
    unfolding m by (rule bit_word_eqI) (auto simp: bit_simps bit_le32)
  moreover have "drop_bit 8 (le32 b3 b2 b1 0) = le32 b2 b1 0 0"
    by (rule bit_word_eqI) (auto simp: bit_simps bit_le32)
  ultimately show ?thesis by simp
qed

lemma parse_gtpc_wire:
  assumes pkt: "udp_packet packet pre (wire_gtpc mt ml teid seq sp @ body)"
  shows "parse_gtpc_msg_header packet =
    Inr (Some \<lparr>gc_version = 2, gc_has_teid = True, gc_message_type = mt,
               gc_message_length = ml, gc_teid = Some teid, gc_seq_num = seq AND 0xFFFF,
               gc_header_length = 12, gc_body_offset = length pre + 12\<rparr>)"
proof -
  let ?d = "wire_gtpc mt ml teid seq sp @ body"
  have pay: "dp_packet_get_udp_payload packet = Some (length pre)" and
    data: "pkt_data packet = pre @ ?d" using pkt by (simp_all add: udp_packet_def)
  have d: "pkt_data packet = pre @ [0x48, mt] @ wire16 ml @ wire32 teid @ tl (wire32 seq) @ [sp] @ body"
    using data by (simp add: wire_gtpc_def)
  have r0: "read_u8 packet (length pre) = Inr 0x48"
    by (rule read_at(1)[OF data]) (simp_all add: wire_gtpc_def)
  have r1: "read_u8 packet (length pre + 1) = Inr mt"
    by (rule read_at(1)[where pre = "pre @ [0x48]"]) (simp_all add: d)
  have r2: "read_be16 packet (length pre + 2) = Inr (le16 (ucast (drop_bit 8 ml)) (ucast ml))"
    by (rule read_at(2)[where pre = "pre @ [0x48, mt]"]) (simp_all add: d wire16_def)
  have r4: "read_be32 packet (length pre + 4) = Inr (htonl teid)"
    unfolding le32_wire32[symmetric]
    by (rule read_at(3)[where pre = "pre @ [0x48, mt] @ wire16 ml"]) (simp_all add: d wire16_def wire32_def)
  have r8: "read_be32 packet (length pre + 8) =
      Inr (le32 (ucast (drop_bit 16 seq)) (ucast (drop_bit 8 seq)) (ucast seq) sp)"
    by (rule read_at(3)[where pre = "pre @ [0x48, mt] @ wire16 ml @ wire32 teid"])
      (simp_all add: d wire16_def wire32_def)
  have seq: "le32 (ucast seq) (ucast (drop_bit 8 seq)) 0 0 = seq AND 0xFFFF"
  proof -
    have m: "(0xFFFF :: u32) = mask 16" by (simp add: mask_eq_exp_minus_1)
    show ?thesis unfolding m by (rule bit_word_eqI) (auto simp: bit_simps bit_le32)
  qed
  have flags: "drop_bit 5 ((0x48 :: u8) AND 0xe0) = 2" "\<not> (0x48 :: u8) AND 0x08 = 0" by simp_all
  have ofs: "n + 1 + 1 = n + 2" "n + 2 + 2 = n + 4" "n + 4 + 4 = n + 8" "n + 8 + 4 = n + 12"
    "1 + 1 = (2 :: nat)" "2 + 2 = (4 :: nat)" "4 + 4 = (8 :: nat)" "8 + 4 = (12 :: nat)" for n :: nat
    by simp_all
  show ?thesis
    by (simp only: parse_gtpc_msg_header_def pay of_option_simps rbind_simps r0 r1 r2 r4 r8 flags
        ofs Let_def seq_num_mask seq ntohs_wire16 ntohl_htonl if_True if_False simp_thms prod.case)
qed

lemma parse_gtpu_wire:
  assumes pkt: "udp_packet packet pre (wire_gtpu mt ml teid @ body)"
  shows "parse_gtpu_message packet =
    Inr (Some \<lparr>gu_version = 1, gu_message_type = mt, gu_message_length = ml, gu_teid = teid,
               gu_header_length = 8, gu_body_offset = length pre + 8\<rparr>)"
proof -
  have pay: "dp_packet_get_udp_payload packet = Some (length pre)" and
    d: "pkt_data packet = pre @ [0x30, mt] @ wire16 ml @ wire32 teid @ body"
    using pkt by (simp_all add: udp_packet_def wire_gtpu_def)
  have r0: "read_u8 packet (length pre) = Inr 0x30"
    by (rule read_at(1)[where pre = pre]) (simp_all add: d)
  have r1: "read_u8 packet (length pre + 1) = Inr mt"
    by (rule read_at(1)[where pre = "pre @ [0x30]"]) (simp_all add: d)
  have r2: "read_be16 packet (length pre + 2) = Inr (le16 (ucast (drop_bit 8 ml)) (ucast ml))"
    by (rule read_at(2)[where pre = "pre @ [0x30, mt]"]) (simp_all add: d wire16_def)
  have r4: "read_be32 packet (length pre + 4) = Inr (htonl teid)"
    unfolding le32_wire32[symmetric]
    by (rule read_at(3)[where pre = "pre @ [0x30, mt] @ wire16 ml"]) (simp_all add: d wire16_def wire32_def)
  have flags: "drop_bit 5 ((0x30 :: u8) AND 0xe0) = 1" by simp
  have ofs: "n + 1 + 1 = n + 2" "n + 2 + 2 = n + 4" "n + 4 + 4 = n + 8"
    "1 + 1 = (2 :: nat)" "2 + 2 = (4 :: nat)" "4 + 4 = (8 :: nat)" for n :: nat
    by simp_all
  show ?thesis
    by (simp only: parse_gtpu_message_def pay of_option_simps rbind_simps r0 r1 r2 r4 flags
        ofs Let_def ntohs_wire16 ntohl_htonl if_False simp_thms)
qed

text \<open>An information element is a type, a length, a spare octet with the instance, and a
  body; a bearer context (type 93) has elements as its body.\<close>

type_synonym bare_ie = "u8 \<times> u8 \<times> u8 list"

definition wire_ie :: "bare_ie \<Rightarrow> u8 list" where
  "wire_ie ie = (case ie of (t, sp, body) \<Rightarrow> [t] @ wire16 (of_nat (length body)) @ [sp] @ body)"

definition wire_ies :: "bare_ie list \<Rightarrow> u8 list" where
  "wire_ies ies = concat (map wire_ie ies)"

datatype gtp_ie = Ie bare_ie | Bearer_Context u8 "bare_ie list"

fun flat_ie :: "gtp_ie \<Rightarrow> bare_ie" where
  "flat_ie (Ie ie) = ie"
| "flat_ie (Bearer_Context sp ies) = (93, sp, wire_ies ies)"

text \<open>An F-TEID (87) and a PDN address allocation (79) hold their four octets behind one
  octet of flags.\<close>

definition ie_word :: "bare_ie \<Rightarrow> ovs_be32" where
  "ie_word ie = (case ie of (t, sp, body) \<Rightarrow> le32 (body ! 1) (body ! 2) (body ! 3) (body ! 4))"

definition bare_ok :: "bare_ie \<Rightarrow> bool" where
  "bare_ok ie \<longleftrightarrow> (case ie of (t, sp, body) \<Rightarrow>
     length body < 65536 \<and> (t = 87 \<or> t = 79 \<longrightarrow> 5 \<le> length body))"

fun ie_ok :: "gtp_ie \<Rightarrow> bool" where
  "ie_ok (Ie ie) \<longleftrightarrow> bare_ok ie \<and> fst ie \<noteq> 93"
| "ie_ok (Bearer_Context sp ies) \<longleftrightarrow> (\<forall>ie \<in> set ies. bare_ok ie) \<and> length (wire_ies ies) < 65536"

fun bearer_spec :: "bare_ie list \<Rightarrow> u32 \<Rightarrow> u32" where
  "bearer_spec [] t5 = t5"
| "bearer_spec (ie # ies) t5 = (if fst ie = 87 then ntohl (ie_word ie) else bearer_spec ies t5)"

fun ie_effect :: "gtp_ie \<Rightarrow> session_ies \<Rightarrow> session_ies" where
  "ie_effect (Ie ie) s =
     (if fst ie = 87 then s\<lparr>si_t4 := ntohl (ie_word ie)\<rparr>
      else if fst ie = 79 then s\<lparr>si_ueip := ie_word ie\<rparr> else s)"
| "ie_effect (Bearer_Context sp ies) s = s\<lparr>si_t5 := bearer_spec ies (si_t5 s)\<rparr>"

fun session_spec :: "gtp_ie list \<Rightarrow> session_ies \<Rightarrow> session_ies" where
  "session_spec [] s = s"
| "session_spec (ie # ies) s =
     (if ies_complete (ie_effect ie s) then ie_effect ie s
      else session_spec ies (ie_effect ie s))"

lemma length_wire_ie: "length (wire_ie (t, sp, body)) = length body + 4"
  by (simp add: wire_ie_def wire16_def)

lemma read_wire_ie:
  assumes data: "pkt_data packet = pre @ wire_ie (t, sp, body) @ post"
    and ok: "length body < 65536"
  shows "read_u8 packet (length pre) = Inr t"
    and "\<exists>l. read_be16 packet (length pre + 1) = Inr l \<and> unat (ntohs l) = length body"
    and "5 \<le> length body \<Longrightarrow> read_be32 packet (length pre + 5) = Inr (ie_word (t, sp, body))"
proof -
  let ?l = "of_nat (length body) :: u16"
  have d: "pkt_data packet = pre @ [t] @ wire16 ?l @ [sp] @ body @ post"
    using data by (simp add: wire_ie_def)
  show "read_u8 packet (length pre) = Inr t"
    by (rule read_at(1)[where pre = pre]) (simp_all add: d)
  have "read_be16 packet (length pre + 1) = Inr (le16 (ucast (drop_bit 8 ?l)) (ucast ?l))"
    by (rule read_at(2)[where pre = "pre @ [t]"]) (simp_all add: d wire16_def)
  moreover have "unat ?l = length body" using ok by (simp add: unat_of_nat take_bit_eq_mod)
  ultimately show "\<exists>l. read_be16 packet (length pre + 1) = Inr l \<and> unat (ntohs l) = length body"
    by simp
  assume "5 \<le> length body"
  then obtain b0 b1 b2 b3 b4 rest where body: "body = b0 # b1 # b2 # b3 # b4 # rest"
    by (auto simp: numeral_eq_Suc Suc_le_length_iff)
  show "read_be32 packet (length pre + 5) = Inr (ie_word (t, sp, body))"
  proof -
    have "ie_word (t, sp, body) = le32 b1 b2 b3 b4" by (simp add: ie_word_def body)
    moreover have "read_be32 packet (length pre + 5) = Inr (le32 b1 b2 b3 b4)"
      by (rule read_at(3)[where pre = "pre @ [t] @ wire16 ?l @ [sp, b0]"])
        (simp_all add: d body wire16_def)
    ultimately show ?thesis by simp
  qed
qed

lemma bearer_scan_wire:
  "pkt_data packet = pre @ wire_ies ies @ post \<Longrightarrow> \<forall>ie \<in> set ies. bare_ok ie \<Longrightarrow>
     bearer_scan packet (length pre) (length pre + length (wire_ies ies)) t5 =
       Inr (bearer_spec ies t5)"
proof (induction ies arbitrary: pre)
  case Nil
  then show ?case by (simp add: bearer_scan.simps wire_ies_def)
next
  case (Cons ie ies)
  obtain t sp body where ie: "ie = (t, sp, body)" by (cases ie)
  from Cons.prems(2) have ok: "length body < 65536" "t = 87 \<longrightarrow> 5 \<le> length body"
    by (simp_all add: ie bare_ok_def)
  have data: "pkt_data packet = pre @ wire_ie (t, sp, body) @ wire_ies ies @ post"
    using Cons.prems(1) by (simp add: ie wire_ies_def)
  note R = read_wire_ie[OF data ok(1)]
  from R(2) obtain l where l: "read_be16 packet (length pre + 1) = Inr l" "unat (ntohs l) = length body"
    by blast
  have IH: "bearer_scan packet (length pre + length body + 4)
      (length pre + length (wire_ies (ie # ies))) t5 = Inr (bearer_spec ies t5)"
    using Cons.IH[of "pre @ wire_ie ie"] Cons.prems data
    by (simp add: ie length_wire_ie wire_ies_def add.assoc)
  have less: "length pre < length pre + length (wire_ies (ie # ies))"
    by (simp add: ie wire_ies_def length_wire_ie)
  show ?case
    by (subst bearer_scan.simps) (use R(1,3) l IH less ok in \<open>simp add: ie\<close>)
qed

lemma ie_step_wire:
  assumes data: "pkt_data packet = pre @ wire_ie (flat_ie ie) @ post" and ok: "ie_ok ie"
  obtains t l where "read_u8 packet (length pre) = Inr t"
    and "read_be16 packet (length pre + 1) = Inr l"
    and "length pre + unat (ntohs l) + 4 = length pre + length (wire_ie (flat_ie ie))"
    and "(if t = 87 then rbind (read_be32 packet (length pre + 5)) (\<lambda>t4p. Inr (s\<lparr>si_t4 := ntohl t4p\<rparr>))
          else if t = 79 then rbind (read_be32 packet (length pre + 5)) (\<lambda>ueipp. Inr (s\<lparr>si_ueip := ueipp\<rparr>))
          else if t = 93 then rbind (bearer_scan packet (length pre + 4)
              (length pre + 4 + unat (ntohs l)) (si_t5 s)) (\<lambda>t5. Inr (s\<lparr>si_t5 := t5\<rparr>))
          else Inr s) = Inr (ie_effect ie s)"
proof -
  obtain t sp body where ie: "flat_ie ie = (t, sp, body)" by (cases "flat_ie ie")
  have len: "length body < 65536"
    using ok ie by (cases ie) (auto simp: bare_ok_def)
  note R = read_wire_ie[OF data[unfolded ie] len]
  from R(2) obtain l where l: "read_be16 packet (length pre + 1) = Inr l" "unat (ntohs l) = length body"
    by blast
  show ?thesis
  proof (rule that[OF R(1) l(1)])
    show "length pre + unat (ntohs l) + 4 = length pre + length (wire_ie (flat_ie ie))"
      by (simp add: ie l length_wire_ie)
    show "(if t = 87 then rbind (read_be32 packet (length pre + 5)) (\<lambda>t4p. Inr (s\<lparr>si_t4 := ntohl t4p\<rparr>))
          else if t = 79 then rbind (read_be32 packet (length pre + 5)) (\<lambda>ueipp. Inr (s\<lparr>si_ueip := ueipp\<rparr>))
          else if t = 93 then rbind (bearer_scan packet (length pre + 4)
              (length pre + 4 + unat (ntohs l)) (si_t5 s)) (\<lambda>t5. Inr (s\<lparr>si_t5 := t5\<rparr>))
          else Inr s) = Inr (ie_effect ie s)"
    proof (cases ie)
      case (Ie x)
      with ok ie R(3) show ?thesis by (auto simp: bare_ok_def)
    next
      case (Bearer_Context sp' ies)
      with ie have b: "t = 93" "sp = sp'" "body = wire_ies ies" by simp_all
      let ?pre = "pre @ [93] @ wire16 (of_nat (length body)) @ [sp]"
      from data ie b have d: "pkt_data packet = ?pre @ wire_ies ies @ post"
        by (simp add: wire_ie_def)
      have "length ?pre = length pre + 4" by (simp add: wire16_def)
      with bearer_scan_wire[OF d, of "si_t5 s"] ok Bearer_Context l b show ?thesis
        by (simp only: ie_ok.simps ie_effect.simps) simp
    qed
  qed
qed

definition wire_session :: "gtp_ie list \<Rightarrow> u8 list" where
  "wire_session ies = concat (map (\<lambda>ie. wire_ie (flat_ie ie)) ies)"

lemma wire_session_simps [simp]:
  "wire_session [] = []"
  "wire_session (ie # ies) = wire_ie (flat_ie ie) @ wire_session ies"
  by (simp_all add: wire_session_def)

lemma session_scan_wire:
  "pkt_data packet = pre @ wire_session ies @ post \<Longrightarrow> \<forall>ie \<in> set ies. ie_ok ie \<Longrightarrow>
     session_scan packet (length pre)
       (int (length pre) + int (length (wire_session ies))) s =
       Inr (session_spec ies s)"
proof (induction ies arbitrary: pre s)
  case Nil
  then show ?case by (simp add: session_scan.simps)
next
  case (Cons ie ies)
  let ?rest = "wire_session ies"
  have data: "pkt_data packet = pre @ wire_ie (flat_ie ie) @ ?rest @ post" using Cons.prems by simp
  from Cons.prems have "ie_ok ie" by simp
  from ie_step_wire[OF data this, of s] obtain t l where
    R: "read_u8 packet (length pre) = Inr t" "read_be16 packet (length pre + 1) = Inr l"
    and next_ofs: "length pre + unat (ntohs l) + 4 = length pre + length (wire_ie (flat_ie ie))"
    and step: "(if t = 87 then rbind (read_be32 packet (length pre + 5)) (\<lambda>t4p. Inr (s\<lparr>si_t4 := ntohl t4p\<rparr>))
          else if t = 79 then rbind (read_be32 packet (length pre + 5)) (\<lambda>ueipp. Inr (s\<lparr>si_ueip := ueipp\<rparr>))
          else if t = 93 then rbind (bearer_scan packet (length pre + 4)
              (length pre + 4 + unat (ntohs l)) (si_t5 s)) (\<lambda>t5. Inr (s\<lparr>si_t5 := t5\<rparr>))
          else Inr s) = Inr (ie_effect ie s)" by blast
  have IH: "session_scan packet (length pre + length (wire_ie (flat_ie ie)))
      (int (length pre) + int (length (wire_ie (flat_ie ie) @ ?rest))) (ie_effect ie s) =
      Inr (session_spec ies (ie_effect ie s))"
    using Cons.IH[of "pre @ wire_ie (flat_ie ie)" "ie_effect ie s"] Cons.prems
    by (simp add: add.assoc)
  have "0 < length (wire_ie (flat_ie ie))" using next_ofs by linarith
  then have less: "int (length pre) < int (length pre) + int (length (wire_ie (flat_ie ie) @ ?rest))"
    by (simp only: length_append of_nat_add)
  have "session_scan packet (length pre)
      (int (length pre) + int (length (wire_ie (flat_ie ie) @ ?rest))) s =
      (if ies_complete (ie_effect ie s) then Inr (ie_effect ie s)
       else Inr (session_spec ies (ie_effect ie s)))"
    by (subst session_scan.simps)
      (simp only: less R rbind_simps Let_def next_ofs step IH if_True)
  then show ?case by simp
qed

end
