(* ===== verification/Gtp_Handlers.thy ===== *)
theory Gtp_Handlers
  imports Gtp_Manager Gtp_Message
begin

text \<open>
  The packet handlers of \<^verbatim>\<open>ofproto/gtp-manager.c\<close>. Each takes the manager's state and the
  translation context and returns both, or the fault that the C code runs into. The
  \<^verbatim>\<open>flow\<close> and \<^verbatim>\<open>wc\<close> arguments of the source point into the context, so they are fields of it.
\<close>

unbundle bit_operations_syntax

section \<open>Which flows are GTP\<close>

definition GTPU_PORT :: u16 where
  "GTPU_PORT = 2152"

definition GTPC_PORT :: u16 where
  "GTPC_PORT = 2123"

definition maybe_gtpc_message :: "flow \<Rightarrow> bool" where
  "maybe_gtpc_message flow \<longleftrightarrow>
     is_ip_any flow \<and> fl_nw_proto flow = IPPROTO_UDP \<and>
     (fl_tp_dst flow = htons GTPC_PORT \<or> fl_tp_src flow = htons GTPC_PORT)"

definition maybe_gtpu_message :: "flow \<Rightarrow> bool" where
  "maybe_gtpu_message flow \<longleftrightarrow>
     is_ip_any flow \<and> fl_nw_proto flow = IPPROTO_UDP \<and>
     (fl_tp_dst flow = htons GTPU_PORT \<or> fl_tp_src flow = htons GTPU_PORT)"

definition check_is_gtp :: "flow \<Rightarrow> bool" where
  "check_is_gtp flow \<longleftrightarrow> maybe_gtpc_message flow \<or> maybe_gtpu_message flow"

section \<open>Forwarding\<close>

text \<open>Readdressing a packet to a gateway and sending it out of the gateway's port.\<close>

definition output_to_pgw :: "xlate_ctx \<Rightarrow> gtp_pgw_node \<Rightarrow> xlate_ctx" where
  "output_to_pgw ctx pgw =
     (let ctx = ctx\<lparr>xc_wc_nw_dst := - 1,
                    xc_flow := (xc_flow ctx)\<lparr>fl_nw_dst := gtp_pgw_ip pgw\<rparr>\<rparr>;
          ctx = ctx\<lparr>xc_wc_dl_dst := - 1,
                    xc_flow := (xc_flow ctx)\<lparr>fl_dl_dst := gtp_pgw_eth pgw\<rparr>\<rparr>
      in xlate_output_action ctx (gtp_pgw_port pgw) 0 False)"

definition output_to_sgi :: "xlate_ctx \<Rightarrow> gtp_pgw_node \<Rightarrow> xlate_ctx" where
  "output_to_sgi ctx pgw =
     (let ctx = ctx\<lparr>xc_wc_dl_dst := - 1,
                    xc_flow := (xc_flow ctx)\<lparr>fl_dl_dst := pgw_sgi_eth pgw\<rparr>\<rparr>
      in xlate_output_action ctx (pgw_sgi_port pgw) 0 False)"

definition output_to_phy :: "gtp_state \<Rightarrow> xlate_ctx \<Rightarrow> xlate_ctx" where
  "output_to_phy st ctx = xlate_output_action ctx (ovs_phy_port st) 0 False"

text \<open>The branch for a tunnel that was found: its gateway may have been deleted since.
  The reference taken by the lookup is dropped at the end.\<close>

definition node_tunnel :: "node_table \<Rightarrow> (addr \<rightharpoonup> gtp_tunnel_node) \<Rightarrow> addr \<Rightarrow> gtp_tunnel_node result" where
  "node_tunnel tab tuns a =
     rbind (of_option Use_After_Free (nt_nodes tab a)) (\<lambda>n.
     of_option Use_After_Free (tuns (mn_tunnel n)))"

definition tunnel_pgw :: "gtp_state \<Rightarrow> gtp_tunnel_node \<Rightarrow> gtp_pgw_node result" where
  "tunnel_pgw st tn =
     rbind (of_option Uninit_Read (pgw_index tn)) (\<lambda>i. pgw_at st (unat i))"

definition forward_teid :: "gtp_state \<Rightarrow> xlate_ctx \<Rightarrow> u32 \<Rightarrow> (gtp_state \<times> xlate_ctx) result" where
  "forward_teid st ctx teid =
     rbind (gtp_manager_get_teid_pgw st teid) (\<lambda>(st, selectedpgw).
     case selectedpgw of
       None \<Rightarrow> Inr (st, ctx)
     | Some a \<Rightarrow>
         rbind (node_tunnel (teid2pgw st) (tunnels st) a) (\<lambda>tn.
         rbind (tunnel_pgw st tn) (\<lambda>pgw.
         let ctx = (if gtp_pgw_ip pgw = 0 then ctx else output_to_pgw ctx pgw) in
         rbind (unref_teid_node st a) (\<lambda>st. Inr (st, ctx)))))"

definition forward_ueip :: "gtp_state \<Rightarrow> xlate_ctx \<Rightarrow> ovs_be32 \<Rightarrow> (gtp_state \<times> xlate_ctx) result" where
  "forward_ueip st ctx ueip =
     rbind (gtp_manager_get_ueip_pgw st ueip) (\<lambda>(st, selectedpgw).
     case selectedpgw of
       None \<Rightarrow> Inr (st, ctx)
     | Some a \<Rightarrow>
         rbind (node_tunnel (ueip2pgw st) (tunnels st) a) (\<lambda>tn.
         rbind (tunnel_pgw st tn) (\<lambda>pgw.
         let ctx = (if gtp_pgw_ip pgw = 0 then ctx else output_to_sgi ctx pgw) in
         rbind (unref_ueip_node st a) (\<lambda>st. Inr (st, ctx)))))"

section \<open>GTP-C\<close>

text \<open>A message without a TEID from the serving gateway belongs to the switch its sequence
  number selects, which sends it to the next gateway of the list.\<close>

definition handle_initial :: "gtp_state \<Rightarrow> xlate_ctx \<Rightarrow> gtpc_msg_header
    \<Rightarrow> (gtp_state \<times> xlate_ctx) result" where
  "handle_initial st ctx gtpcmsg =
     (if ovs_total st = 0 then Inl Div_By_Zero
      else if gc_seq_num gtpcmsg mod ucast (ovs_total st) = ucast (ovs_id st)
      then let (ramdompgw, st) = gtp_manager_get_pgw st in
           rbind (pgw_at st ramdompgw) (\<lambda>pgw. Inr (st, output_to_pgw ctx pgw))
      else Inr (st, ctx))"

text \<open>The four entries of a new session, in the order the code makes them.\<close>

definition put_session :: "gtp_state \<Rightarrow> u32 \<Rightarrow> u32 \<Rightarrow> ovs_be32 \<Rightarrow> u32 \<Rightarrow> addr \<Rightarrow> gtp_state result" where
  "put_session st t4 t5 ueip t2 node =
     rbind (gtp_manager_put_teid_pgw st t4 node) (\<lambda>st.
     rbind (gtp_manager_put_teid_pgw st t5 node) (\<lambda>st.
     rbind (gtp_manager_put_ueip_pgw st ueip node) (\<lambda>st.
     gtp_manager_put_teid_pgw st t2 node)))"

definition create_session_response :: "gtp_state \<Rightarrow> xlate_ctx \<Rightarrow> gtpc_msg_header \<Rightarrow> u32 \<Rightarrow> dp_packet
    \<Rightarrow> (gtp_state \<times> xlate_ctx) result" where
  "create_session_response st ctx gtpcmsg t2 packet =
     rbind (scan_session_response gtpcmsg packet) (\<lambda>s.
     if ies_complete s \<and> pgw_fastpath st = 0
     then let node = next_addr st;
              tn = \<lparr>teid4_sgw_c = si_t4 s, teid5_sgw_u = si_t5 s, teid2_pgw_c = t2,
                    teid3_pgw_u = None, ue_ip = si_ueip s, pgw_index = None,
                    tun_ref_count = None\<rparr>;
              pgwindex = gtp_manager_find_pgw st (fl_nw_src (xc_flow ctx))
          in if pgwindex \<noteq> - 1
             then rbind (put_session (st\<lparr>next_addr := node + 1,
                        tunnels := (tunnels st)(node \<mapsto>
                          tn\<lparr>pgw_index := Some (of_int pgwindex), tun_ref_count := Some 4\<rparr>)\<rparr>)
                      (si_t4 s) (si_t5 s) (si_ueip s) t2 node) (\<lambda>st.
                  Inr (st, output_to_phy st ctx))
             else Inr (st\<lparr>next_addr := node + 1, tunnels := (tunnels st)(node \<mapsto> tn)\<rparr>, ctx)
     else Inr (st, ctx))"

definition delete_session_response :: "gtp_state \<Rightarrow> xlate_ctx \<Rightarrow> u32
    \<Rightarrow> (gtp_state \<times> xlate_ctx) result" where
  "delete_session_response st ctx t2 =
     rbind (gtp_manager_get_teid_pgw st t2) (\<lambda>(st, node).
     rbind (of_option Null_Deref node) (\<lambda>a.
     rbind (node_tunnel (teid2pgw st) (tunnels st) a) (\<lambda>tn.
     rbind (gtp_manager_del_teid_pgw st (teid4_sgw_c tn)) (\<lambda>st.
     rbind (gtp_manager_del_teid_pgw st (teid5_sgw_u tn)) (\<lambda>st.
     rbind (gtp_manager_del_ueip_pgw st (ue_ip tn)) (\<lambda>st.
     rbind (gtp_manager_del_teid_pgw st t2) (\<lambda>st.
     rbind (unref_teid_node st a) (\<lambda>st.
     Inr (st, output_to_phy st ctx)))))))))"

definition handle_gtpc_message :: "gtp_state \<Rightarrow> xlate_ctx \<Rightarrow> gtpc_msg_header \<Rightarrow> dp_packet
    \<Rightarrow> (gtp_state \<times> xlate_ctx) result" where
  "handle_gtpc_message st ctx gtpcmsg packet =
     (let no_teid = (\<not> gc_has_teid gtpcmsg \<or> gc_teid gtpcmsg = Some 0) in
      if fl_in_port (xc_flow ctx) = ovs_phy_port st
      then if no_teid then handle_initial st ctx gtpcmsg
           else rbind (of_option Uninit_Read (gc_teid gtpcmsg)) (forward_teid st ctx)
      else if no_teid then Inr (st, output_to_phy st ctx)
      else rbind (of_option Uninit_Read (gc_teid gtpcmsg)) (\<lambda>t2.
           if gc_message_type gtpcmsg = 33 then create_session_response st ctx gtpcmsg t2 packet
           else if gc_message_type gtpcmsg = 37 then delete_session_response st ctx t2
           else Inr (st, output_to_phy st ctx)))"

section \<open>GTP-U, the SGi side and the entry points\<close>

definition handle_gtpu_message :: "gtp_state \<Rightarrow> xlate_ctx \<Rightarrow> gtpu_msg_header
    \<Rightarrow> (gtp_state \<times> xlate_ctx) result" where
  "handle_gtpu_message st ctx gtpumsg =
     (if fl_in_port (xc_flow ctx) = ovs_phy_port st
      then if gu_teid gtpumsg = 0 then Inr (st, ctx)
           else if pgw_fastpath st = 0 then forward_teid st ctx (gu_teid gtpumsg)
           else Inr (st, ctx)
      else if pgw_fastpath st = 0 then Inr (st, output_to_phy st ctx)
      else Inr (st, ctx))"

text \<open>\<open>hdr_live\<close> counts the message headers from \<^verbatim>\<open>xmalloc()\<close> that nobody has freed:
  \<open>parse_gtpc_msg_header\<close> returns null for another version without freeing its own.\<close>

definition handle_gtp :: "gtp_state \<Rightarrow> xlate_ctx \<Rightarrow> (gtp_state \<times> xlate_ctx) result" where
  "handle_gtp st ctx =
     (case xc_packet ctx of
        None \<Rightarrow> Inr (st, ctx)
      | Some packet \<Rightarrow>
          if maybe_gtpc_message (xc_flow ctx)
          then rbind (parse_gtpc_msg_header packet) (\<lambda>h.
               let st = st\<lparr>hdr_live := hdr_live st + 1\<rparr> in
               case h of
                 None \<Rightarrow> Inr (st, ctx)
               | Some gtpcmsg \<Rightarrow>
                   rbind (handle_gtpc_message st ctx gtpcmsg packet) (\<lambda>(st, ctx).
                   Inr (st\<lparr>hdr_live := hdr_live st - 1\<rparr>, ctx)))
          else if maybe_gtpu_message (xc_flow ctx)
          then rbind (parse_gtpu_message packet) (\<lambda>h.
               let st = st\<lparr>hdr_live := hdr_live st + 1\<rparr> in
               case h of
                 None \<Rightarrow> Inr (st\<lparr>hdr_live := hdr_live st - 1\<rparr>, ctx)
               | Some gtpumsg \<Rightarrow>
                   rbind (handle_gtpu_message st ctx gtpumsg) (\<lambda>(st, ctx).
                   Inr (st\<lparr>hdr_live := hdr_live st - 1\<rparr>, ctx)))
          else Inr (st, ctx))"

definition handle_pgw_sgi :: "gtp_state \<Rightarrow> xlate_ctx \<Rightarrow> (gtp_state \<times> xlate_ctx) result" where
  "handle_pgw_sgi st ctx =
     (case xc_packet ctx of
        None \<Rightarrow> Inr (st, ctx)
      | Some packet \<Rightarrow>
          if fl_in_port (xc_flow ctx) = ovs_phy_port st
          then if pgw_fastpath st = 0 then forward_ueip st ctx (fl_nw_dst (xc_flow ctx))
               else Inr (st, ctx)
          else if pgw_fastpath st = 0 then Inr (st, output_to_phy st ctx)
          else Inr (st, ctx))"

end
