(* ===== verification/Gtp_Safety.thy ===== *)
theory Gtp_Safety
  imports Gtp_Tables Gtp_Handlers
begin

text \<open>
  Memory safety of the GTP handlers: the reference count of every tunnel is the number of
  nodes that point to it, every handler keeps it so, and no handler touches a node or a
  tunnel after it was freed. The other ways the code can crash are left open here; they
  are the subject of \<open>Gtp_Behaviour\<close>.
\<close>

unbundle bit_operations_syntax

section \<open>Reference counts of tunnels\<close>

text \<open>\<open>R t\<close> is the number of references to tunnel \<open>t\<close>, \<open>nx\<close> the next free address.\<close>

definition tun_ok :: "addr \<Rightarrow> (addr \<rightharpoonup> gtp_tunnel_node) \<Rightarrow> (addr \<Rightarrow> nat) \<Rightarrow> bool" where
  "tun_ok nx tuns R \<longleftrightarrow>
     (\<forall>t. 0 < R t \<longrightarrow> (\<exists>tn. tuns t = Some tn \<and> tun_ref_count tn = Some (int (R t)) \<and>
        pgw_index tn \<noteq> None)) \<and>
     (\<forall>t tn i. tuns t = Some tn \<longrightarrow> pgw_index tn = Some i \<longrightarrow> unat i < MAX_PGW_PER_NODE) \<and>
     (\<forall>t. nx \<le> t \<longrightarrow> tuns t = None)"

lemma tun_okD:
  assumes "tun_ok nx tuns R"
  shows "0 < R t \<Longrightarrow> \<exists>tn. tuns t = Some tn \<and> tun_ref_count tn = Some (int (R t)) \<and> pgw_index tn \<noteq> None"
    and "tuns t = Some tn \<Longrightarrow> pgw_index tn = Some i \<Longrightarrow> unat i < MAX_PGW_PER_NODE"
    and "nx \<le> t \<Longrightarrow> tuns t = None"
  using assms unfolding tun_ok_def by blast+

lemma tun_ok_eq: "tun_ok nx tuns R \<Longrightarrow> (\<And>t. R t = R' t) \<Longrightarrow> tun_ok nx tuns R'"
  by (simp add: tun_ok_def)

text \<open>Dropping one of the counted references: the tunnel disappears with the last.\<close>

lemma unref_tunnel_eq:
  assumes ok: "tun_ok nx tuns R" and pos: "0 < R t" and tn: "tuns t = Some tn"
  shows "unref_tunnel tuns t =
    Inr (tuns(t := if R t = 1 then None else Some (tn\<lparr>tun_ref_count := Some (int (R t) - 1)\<rparr>)))"
  using tun_okD(1)[OF ok pos] tn pos by (auto simp: unref_tunnel_def)

lemma unref_tunnel_ok:
  assumes ok: "tun_ok nx tuns R" and pos: "0 < R t"
  obtains tuns' where "unref_tunnel tuns t = Inr tuns'" and "tun_ok nx tuns' (R(t := R t - 1))"
proof -
  from tun_okD(1)[OF ok pos] obtain tn where tn: "tuns t = Some tn" "pgw_index tn \<noteq> None" by blast
  let ?tuns' = "tuns(t := if R t = 1 then None else Some (tn\<lparr>tun_ref_count := Some (int (R t) - 1)\<rparr>))"
  have "tun_ok nx ?tuns' (R(t := R t - 1))"
    unfolding tun_ok_def
  proof (intro conjI allI impI)
    fix u assume "0 < (R(t := R t - 1)) u"
    then show "\<exists>tn. ?tuns' u = Some tn \<and> tun_ref_count tn = Some (int ((R(t := R t - 1)) u)) \<and>
        pgw_index tn \<noteq> None"
      using tn tun_okD(1)[OF ok, of u] by (auto simp: of_nat_diff)
  next
    fix u un i assume "?tuns' u = Some un" "pgw_index un = Some i"
    then show "unat i < MAX_PGW_PER_NODE"
      using tn tun_okD(2)[OF ok] by (auto split: if_splits)
  next
    fix u assume "nx \<le> u"
    with tun_okD(3)[OF ok this] tn show "?tuns' u = None" by auto
  qed
  with unref_tunnel_eq[OF ok pos tn(1)] that show ?thesis by blast
qed

section \<open>One table and the tunnels\<close>

context gtp_table
begin

lemma refs_pos:
  "node_inv part tab H \<Longrightarrow> nt_nodes tab a = Some n \<Longrightarrow> 0 < tab_refs tab (mn_tunnel n) + Q"
  using tab_refs_pos[OF node_invD(3)] by simp

lemma del_node_safe:
  assumes inv: "node_inv part tab H" and ok: "tun_ok nx tuns (\<lambda>t. tab_refs tab t + Q t)"
    and run: "del_node part tab tuns k seed = Inr (tab', tuns', seed')"
  shows "node_inv part tab' H" and "tun_ok nx tuns' (\<lambda>t. tab_refs tab' t + Q t)"
proof -
  from del_node_ok[OF inv run] obtain a rest n where n: "nt_nodes tab a = Some n"
    and inv': "node_inv part tab' H"
    and nodes: "nt_nodes tab' = (nt_nodes tab)(a := if H = Some a then Some (n\<lparr>mn_ref_count := 1\<rparr>) else None)"
    and tuns: "if H = Some a then tuns' = tuns else unref_tunnel tuns (mn_tunnel n) = Inr tuns'"
    by blast
  from inv' show "node_inv part tab' H" .
  show "tun_ok nx tuns' (\<lambda>t. tab_refs tab' t + Q t)"
  proof (cases "H = Some a")
    case True
    have "tab_refs tab' t = tab_refs tab t" for t
      by (rule tab_refs_change[OF n, where n' = "n\<lparr>mn_ref_count := 1\<rparr>"]) (simp_all add: nodes True)
    with ok tuns True show ?thesis by simp
  next
    case False
    have R: "tab_refs tab t = tab_refs tab' t + of_bool (mn_tunnel n = t)" for t
      by (rule tab_refs_remove[OF node_invD(3)[OF inv] n]) (simp add: nodes False)
    obtain u where u: "unref_tunnel tuns (mn_tunnel n) = Inr u"
      and ok': "tun_ok nx u ((\<lambda>t. tab_refs tab t + Q t)(mn_tunnel n :=
        tab_refs tab (mn_tunnel n) + Q (mn_tunnel n) - 1))"
      using unref_tunnel_ok[OF ok refs_pos[OF inv n]] by blast
    have "u = tuns'" using u tuns False by simp
    moreover have "((\<lambda>t. tab_refs tab t + Q t)(mn_tunnel n := tab_refs tab (mn_tunnel n) +
        Q (mn_tunnel n) - 1)) t = tab_refs tab' t + Q t" for t
      by (simp add: R)
    ultimately show ?thesis using tun_ok_eq[OF ok', of "\<lambda>t. tab_refs tab' t + Q t"] by simp
  qed
qed

lemma del_node_no_uaf:
  assumes inv: "node_inv part tab H" and ok: "tun_ok nx tuns (\<lambda>t. tab_refs tab t + Q t)"
    and run: "del_node part tab tuns k seed = Inl e"
  shows "e = Uninit_Read \<or> e = No_Return \<or> e = Assert_Fail"
  using del_node_fault[OF inv run] unref_tunnel_ok[OF ok refs_pos[OF inv]] by fastforce

lemma unref_held_safe:
  assumes inv: "node_inv part tab (Some a)" and ok: "tun_ok nx tuns (\<lambda>t. tab_refs tab t + Q t)"
  obtains tab' tuns' where "unref_node tab tuns a = Inr (tab', tuns')" and "node_inv part tab' None"
    and "tun_ok nx tuns' (\<lambda>t. tab_refs tab' t + Q t)"
    and "\<And>b. nt_nodes tab b = None \<Longrightarrow> nt_nodes tab' b = None"
proof -
  from node_invD(8)[OF inv] obtain n where n: "nt_nodes tab a = Some n" by blast
  let ?gone = "a \<notin> set (tab_chain part tab (mn_key n))"
  let ?tab' = "tab\<lparr>nt_nodes := (nt_nodes tab)(a := if ?gone then None else Some (n\<lparr>mn_ref_count := 1\<rparr>))\<rparr>"
  note U = unref_node_held[OF inv n]
  have sub: "nt_nodes tab b = None \<Longrightarrow> nt_nodes ?tab' b = None" for b using n by auto
  show ?thesis
  proof (cases ?gone)
    case False
    have "tab_refs ?tab' t = tab_refs tab t" for t
      by (rule tab_refs_change[OF n, where n' = "n\<lparr>mn_ref_count := 1\<rparr>"]) (simp_all add: False)
    with ok U that[of ?tab' tuns] sub False show ?thesis by simp
  next
    case True
    have R: "tab_refs tab t = tab_refs ?tab' t + of_bool (mn_tunnel n = t)" for t
      by (rule tab_refs_remove[OF node_invD(3)[OF inv] n]) (simp add: True)
    obtain u where u: "unref_tunnel tuns (mn_tunnel n) = Inr u"
      and ok': "tun_ok nx u ((\<lambda>t. tab_refs tab t + Q t)(mn_tunnel n :=
        tab_refs tab (mn_tunnel n) + Q (mn_tunnel n) - 1))"
      using unref_tunnel_ok[OF ok refs_pos[OF inv n]] by blast
    have "((\<lambda>t. tab_refs tab t + Q t)(mn_tunnel n := tab_refs tab (mn_tunnel n) +
        Q (mn_tunnel n) - 1)) t = tab_refs ?tab' t + Q t" for t
      by (simp only: R) simp
    from tun_ok_eq[OF ok' this] have "tun_ok nx u (\<lambda>t. tab_refs ?tab' t + Q t)" .
    moreover have "unref_node tab tuns a = Inr (?tab', u)" using U(1)[of tuns] u True by simp
    ultimately show ?thesis using that U(2) sub by blast
  qed
qed

end

section \<open>The invariant of the manager\<close>

definition gtp_inv :: "gtp_state \<Rightarrow> addr option \<Rightarrow> addr option \<Rightarrow> (addr \<Rightarrow> nat) \<Rightarrow> bool" where
  "gtp_inv st H U P \<longleftrightarrow>
     node_inv teid_part (teid2pgw st) H \<and> node_inv ueip_part (ueip2pgw st) U \<and>
     tun_ok (next_addr st) (tunnels st)
       (\<lambda>t. tab_refs (teid2pgw st) t + tab_refs (ueip2pgw st) t + P t) \<and>
     (\<forall>a. next_addr st \<le> a \<longrightarrow> nt_nodes (teid2pgw st) a = None \<and> nt_nodes (ueip2pgw st) a = None) \<and>
     length (pgw_list st) = MAX_PGW_PER_NODE \<and> unat (pgw_end st) \<le> MAX_PGW_PER_NODE"

abbreviation gtp_ok :: "gtp_state \<Rightarrow> bool" where
  "gtp_ok st \<equiv> gtp_inv st None None (\<lambda>_. 0)"

lemma gtp_invD:
  assumes "gtp_inv st H U P"
  shows "node_inv teid_part (teid2pgw st) H" and "node_inv ueip_part (ueip2pgw st) U"
    and "tun_ok (next_addr st) (tunnels st) (\<lambda>t. tab_refs (teid2pgw st) t + (tab_refs (ueip2pgw st) t + P t))"
    and "tun_ok (next_addr st) (tunnels st) (\<lambda>t. tab_refs (ueip2pgw st) t + (tab_refs (teid2pgw st) t + P t))"
    and "next_addr st \<le> a \<Longrightarrow> nt_nodes (teid2pgw st) a = None"
    and "next_addr st \<le> a \<Longrightarrow> nt_nodes (ueip2pgw st) a = None"
    and "length (pgw_list st) = MAX_PGW_PER_NODE" and "unat (pgw_end st) \<le> MAX_PGW_PER_NODE"
  using assms by (simp_all add: gtp_inv_def algebra_simps)

lemma gtp_inv_teid:
  assumes inv: "gtp_inv st H U P" and "node_inv teid_part tab H'"
    and "tun_ok (next_addr st) tuns (\<lambda>t. tab_refs tab t + (tab_refs (ueip2pgw st) t + P t))"
    and "\<And>a. nt_nodes (teid2pgw st) a = None \<Longrightarrow> nt_nodes tab a = None"
  shows "gtp_inv (st\<lparr>teid2pgw := tab, tunnels := tuns, rand_seed := seed\<rparr>) H' U P"
  using gtp_invD[OF inv] assms(2-4) by (simp add: gtp_inv_def algebra_simps)

text \<open>Looking up a key never faults, and holds the node it finds.\<close>

lemma get_teid_cases:
  assumes inv: "gtp_inv st None U P"
  obtains (none) "tab_chain teid_part (teid2pgw st) k = []"
      "gtp_manager_get_teid_pgw st k = Inr (st, None)"
    | (some) a rest n tn st' where "tab_chain teid_part (teid2pgw st) k = a # rest"
      "gtp_manager_get_teid_pgw st k = Inr (st', Some a)"
      "nt_nodes (teid2pgw st) a = Some n" "mn_key n = k" "tunnels st (mn_tunnel n) = Some tn"
      "pgw_index tn \<noteq> None"
      "st' = st\<lparr>teid2pgw := (teid2pgw st)\<lparr>nt_nodes := (nt_nodes (teid2pgw st))
         (a \<mapsto> n\<lparr>mn_ref_count := mn_ref_count n + 1\<rparr>)\<rparr>\<rparr>"
      "gtp_inv st' (Some a) U P"
proof (cases "tab_chain teid_part (teid2pgw st) k")
  case Nil
  with teid.get_node_none[OF gtp_invD(1)[OF inv] Nil] none show ?thesis
    by (simp add: gtp_manager_get_teid_pgw_def)
next
  case (Cons a rest)
  note D = gtp_invD[OF inv]
  from teid.get_node_some[OF D(1) Cons] obtain n where n: "nt_nodes (teid2pgw st) a = Some n" "mn_key n = k"
    and run: "get_node teid_part (teid2pgw st) k = Inr ((teid2pgw st)\<lparr>nt_nodes := (nt_nodes (teid2pgw st))
         (a \<mapsto> n\<lparr>mn_ref_count := mn_ref_count n + 1\<rparr>)\<rparr>, Some a)"
    and inv': "node_inv teid_part ((teid2pgw st)\<lparr>nt_nodes := (nt_nodes (teid2pgw st))
         (a \<mapsto> n\<lparr>mn_ref_count := mn_ref_count n + 1\<rparr>)\<rparr>) (Some a)" by blast
  let ?tab = "(teid2pgw st)\<lparr>nt_nodes := (nt_nodes (teid2pgw st))
         (a \<mapsto> n\<lparr>mn_ref_count := mn_ref_count n + 1\<rparr>)\<rparr>"
  from tun_okD(1)[OF D(3) teid.refs_pos[OF D(1) n(1)]] obtain tn where
    tn: "tunnels st (mn_tunnel n) = Some tn" "pgw_index tn \<noteq> None" by blast
  have "tab_refs ?tab t = tab_refs (teid2pgw st) t" for t
    by (rule tab_refs_change[OF n(1), where n' = "n\<lparr>mn_ref_count := mn_ref_count n + 1\<rparr>"]) simp_all
  then have "gtp_inv (st\<lparr>teid2pgw := ?tab, tunnels := tunnels st, rand_seed := rand_seed st\<rparr>) (Some a) U P"
    using D(3) n by (intro gtp_inv_teid[OF inv inv']) auto
  then have "gtp_inv (st\<lparr>teid2pgw := ?tab\<rparr>) (Some a) U P" by simp
  then show ?thesis
    using some[OF Cons _ n tn refl] run by (simp add: gtp_manager_get_teid_pgw_def)
qed

lemma unref_teid_ok:
  assumes inv: "gtp_inv st (Some a) U P"
  obtains st' where "unref_teid_node st a = Inr st'" and "gtp_inv st' None U P"
proof -
  note D = gtp_invD[OF inv]
  from teid.unref_held_safe[OF D(1,3)] obtain tab' tuns' where
    u: "unref_node (teid2pgw st) (tunnels st) a = Inr (tab', tuns')" "node_inv teid_part tab' None"
    "tun_ok (next_addr st) tuns' (\<lambda>t. tab_refs tab' t + (tab_refs (ueip2pgw st) t + P t))"
    "\<And>b. nt_nodes (teid2pgw st) b = None \<Longrightarrow> nt_nodes tab' b = None" by blast
  from gtp_inv_teid[OF inv u(2-4), of "rand_seed st"]
  have "gtp_inv (st\<lparr>teid2pgw := tab', tunnels := tuns'\<rparr>) None U P" by simp
  with u(1) that show ?thesis by (simp add: unref_teid_node_def)
qed

lemma del_teid_ok:
  assumes inv: "gtp_inv st H U P" and run: "gtp_manager_del_teid_pgw st k = Inr st'"
  shows "gtp_inv st' H U P"
proof -
  note D = gtp_invD[OF inv]
  from run obtain tab tuns seed where
    d: "del_node teid_part (teid2pgw st) (tunnels st) k (rand_seed st) = Inr (tab, tuns, seed)"
    and st': "st' = st\<lparr>teid2pgw := tab, tunnels := tuns, rand_seed := seed\<rparr>"
    by (auto simp: gtp_manager_del_teid_pgw_def rbind_eq_Inr split: prod.splits)
  from teid.del_node_ok[OF D(1) d] have "\<And>a. nt_nodes (teid2pgw st) a = None \<Longrightarrow> nt_nodes tab a = None"
    by (metis (no_types, lifting) fun_upd_apply option.distinct(1))
  with teid.del_node_safe[OF D(1,3) d] show ?thesis
    unfolding st' by (intro gtp_inv_teid[OF inv])
qed

lemma del_teid_fault:
  assumes "gtp_inv st H U P" and "gtp_manager_del_teid_pgw st k = Inl e"
  shows "e = Uninit_Read \<or> e = No_Return \<or> e = Assert_Fail"
  using assms(2) teid.del_node_no_uaf[OF gtp_invD(1,3)[OF assms(1)]]
  by (auto simp: gtp_manager_del_teid_pgw_def rbind_def split: sum.splits prod.splits)

text \<open>The same for the table of user addresses.\<close>

lemma gtp_inv_ueip:
  assumes inv: "gtp_inv st H U P" and "node_inv ueip_part tab U'"
    and "tun_ok (next_addr st) tuns (\<lambda>t. tab_refs tab t + (tab_refs (teid2pgw st) t + P t))"
    and "\<And>a. nt_nodes (ueip2pgw st) a = None \<Longrightarrow> nt_nodes tab a = None"
  shows "gtp_inv (st\<lparr>ueip2pgw := tab, tunnels := tuns, rand_seed := seed\<rparr>) H U' P"
  using gtp_invD[OF inv] assms(2-4) by (simp add: gtp_inv_def algebra_simps)

lemma get_ueip_cases:
  assumes inv: "gtp_inv st H None P"
  obtains (none) "tab_chain ueip_part (ueip2pgw st) k = []"
      "gtp_manager_get_ueip_pgw st k = Inr (st, None)"
    | (some) a rest n tn st' where "tab_chain ueip_part (ueip2pgw st) k = a # rest"
      "gtp_manager_get_ueip_pgw st k = Inr (st', Some a)"
      "nt_nodes (ueip2pgw st) a = Some n" "mn_key n = k" "tunnels st (mn_tunnel n) = Some tn"
      "pgw_index tn \<noteq> None"
      "st' = st\<lparr>ueip2pgw := (ueip2pgw st)\<lparr>nt_nodes := (nt_nodes (ueip2pgw st))
         (a \<mapsto> n\<lparr>mn_ref_count := mn_ref_count n + 1\<rparr>)\<rparr>\<rparr>"
      "gtp_inv st' H (Some a) P"
proof (cases "tab_chain ueip_part (ueip2pgw st) k")
  case Nil
  with ueip.get_node_none[OF gtp_invD(2)[OF inv] Nil] none show ?thesis
    by (simp add: gtp_manager_get_ueip_pgw_def)
next
  case (Cons a rest)
  note D = gtp_invD[OF inv]
  from ueip.get_node_some[OF D(2) Cons] obtain n where n: "nt_nodes (ueip2pgw st) a = Some n" "mn_key n = k"
    and run: "get_node ueip_part (ueip2pgw st) k = Inr ((ueip2pgw st)\<lparr>nt_nodes := (nt_nodes (ueip2pgw st))
         (a \<mapsto> n\<lparr>mn_ref_count := mn_ref_count n + 1\<rparr>)\<rparr>, Some a)"
    and inv': "node_inv ueip_part ((ueip2pgw st)\<lparr>nt_nodes := (nt_nodes (ueip2pgw st))
         (a \<mapsto> n\<lparr>mn_ref_count := mn_ref_count n + 1\<rparr>)\<rparr>) (Some a)" by blast
  let ?tab = "(ueip2pgw st)\<lparr>nt_nodes := (nt_nodes (ueip2pgw st))
         (a \<mapsto> n\<lparr>mn_ref_count := mn_ref_count n + 1\<rparr>)\<rparr>"
  from tun_okD(1)[OF D(4) ueip.refs_pos[OF D(2) n(1)]] obtain tn where
    tn: "tunnels st (mn_tunnel n) = Some tn" "pgw_index tn \<noteq> None" by blast
  have "tab_refs ?tab t = tab_refs (ueip2pgw st) t" for t
    by (rule tab_refs_change[OF n(1), where n' = "n\<lparr>mn_ref_count := mn_ref_count n + 1\<rparr>"]) simp_all
  then have "gtp_inv (st\<lparr>ueip2pgw := ?tab, tunnels := tunnels st, rand_seed := rand_seed st\<rparr>) H (Some a) P"
    using D(4) n by (intro gtp_inv_ueip[OF inv inv']) auto
  then have "gtp_inv (st\<lparr>ueip2pgw := ?tab\<rparr>) H (Some a) P" by simp
  then show ?thesis
    using some[OF Cons _ n tn refl] run by (simp add: gtp_manager_get_ueip_pgw_def)
qed

lemma unref_ueip_ok:
  assumes inv: "gtp_inv st H (Some a) P"
  obtains st' where "unref_ueip_node st a = Inr st'" and "gtp_inv st' H None P"
proof -
  note D = gtp_invD[OF inv]
  from ueip.unref_held_safe[OF D(2,4)] obtain tab' tuns' where
    u: "unref_node (ueip2pgw st) (tunnels st) a = Inr (tab', tuns')" "node_inv ueip_part tab' None"
    "tun_ok (next_addr st) tuns' (\<lambda>t. tab_refs tab' t + (tab_refs (teid2pgw st) t + P t))"
    "\<And>b. nt_nodes (ueip2pgw st) b = None \<Longrightarrow> nt_nodes tab' b = None" by blast
  from gtp_inv_ueip[OF inv u(2-4), of "rand_seed st"]
  have "gtp_inv (st\<lparr>ueip2pgw := tab', tunnels := tuns'\<rparr>) H None P" by simp
  with u(1) that show ?thesis by (simp add: unref_ueip_node_def)
qed

lemma del_ueip_ok:
  assumes inv: "gtp_inv st H U P" and run: "gtp_manager_del_ueip_pgw st k = Inr st'"
  shows "gtp_inv st' H U P"
proof -
  note D = gtp_invD[OF inv]
  from run obtain tab tuns seed where
    d: "del_node ueip_part (ueip2pgw st) (tunnels st) k (rand_seed st) = Inr (tab, tuns, seed)"
    and st': "st' = st\<lparr>ueip2pgw := tab, tunnels := tuns, rand_seed := seed\<rparr>"
    by (auto simp: gtp_manager_del_ueip_pgw_def rbind_eq_Inr split: prod.splits)
  from ueip.del_node_ok[OF D(2) d] have "\<And>a. nt_nodes (ueip2pgw st) a = None \<Longrightarrow> nt_nodes tab a = None"
    by (metis (no_types, lifting) fun_upd_apply option.distinct(1))
  with ueip.del_node_safe[OF D(2,4) d] show ?thesis
    unfolding st' by (intro gtp_inv_ueip[OF inv])
qed

lemma del_ueip_fault:
  assumes "gtp_inv st H U P" and "gtp_manager_del_ueip_pgw st k = Inl e"
  shows "e = Uninit_Read \<or> e = No_Return \<or> e = Assert_Fail"
  using assms(2) ueip.del_node_no_uaf[OF gtp_invD(2,4)[OF assms(1)]]
  by (auto simp: gtp_manager_del_ueip_pgw_def rbind_def split: sum.splits prod.splits)

section \<open>Adding entries\<close>

text \<open>\<open>P\<close> counts the references a tunnel has been given in advance of its entries.\<close>

lemma tun_ok_take:
  assumes ok: "tun_ok nx tuns (\<lambda>u. f u + (g u + P u))" and pos: "0 < P t"
    and f': "\<And>u. f' u = f u + of_bool (t = u)"
  shows "tun_ok (nx + 1) tuns (\<lambda>u. f' u + (g u + (P(t := P t - 1)) u))"
proof -
  have "tun_ok nx tuns (\<lambda>u. f' u + (g u + (P(t := P t - 1)) u))"
    by (rule tun_ok_eq[OF ok]) (use pos in \<open>simp add: f'\<close>)
  then show ?thesis by (simp add: tun_ok_def)
qed

lemma put_teid_ok:
  assumes inv: "gtp_inv st None U P" and pos: "0 < P t"
    and run: "gtp_manager_put_teid_pgw st k t = Inr st'"
  shows "gtp_inv st' None U (P(t := P t - 1))"
    and "tab_chain teid_part (teid2pgw st') =
      (tab_chain teid_part (teid2pgw st))(k := next_addr st # tab_chain teid_part (teid2pgw st) k)"
    and "nt_nodes (teid2pgw st') = (nt_nodes (teid2pgw st))
      (next_addr st \<mapsto> \<lparr>mn_key = k, mn_tunnel = t, mn_ref_count = 1\<rparr>)"
    and "ueip2pgw st' = ueip2pgw st" and "tunnels st' = tunnels st" and "next_addr st' = next_addr st + 1"
    and "pgw_list st' = pgw_list st" and "ovs_phy_port st' = ovs_phy_port st"
proof -
  note D = gtp_invD[OF inv]
  from run obtain tab seed where
    p: "put_node teid_part (teid2pgw st) k t (next_addr st) (rand_seed st) = Inr (tab, seed)"
    and st': "st' = st\<lparr>teid2pgw := tab, next_addr := next_addr st + 1, rand_seed := seed\<rparr>"
    by (auto simp: gtp_manager_put_teid_pgw_def rbind_eq_Inr split: prod.splits)
  note N = teid.put_node_ok[OF D(1) D(5)[OF order_refl] p]
  have "tab_refs tab u = tab_refs (teid2pgw st) u + of_bool (t = u)" for u
    using tab_refs_add[OF node_invD(3)[OF D(1)] D(5)[OF order_refl] N(3)] by simp
  from tun_ok_take[OF D(3) pos this] N D(2,5-8)
  show "gtp_inv st' None U (P(t := P t - 1))" by (simp add: gtp_inv_def st' algebra_simps)
  show "tab_chain teid_part (teid2pgw st') =
      (tab_chain teid_part (teid2pgw st))(k := next_addr st # tab_chain teid_part (teid2pgw st) k)"
    "nt_nodes (teid2pgw st') = (nt_nodes (teid2pgw st))
      (next_addr st \<mapsto> \<lparr>mn_key = k, mn_tunnel = t, mn_ref_count = 1\<rparr>)"
    "ueip2pgw st' = ueip2pgw st" "tunnels st' = tunnels st" "next_addr st' = next_addr st + 1"
    "pgw_list st' = pgw_list st" "ovs_phy_port st' = ovs_phy_port st"
    using N(2,3) by (simp_all add: st')
qed

lemma put_ueip_ok:
  assumes inv: "gtp_inv st H None P" and pos: "0 < P t"
    and run: "gtp_manager_put_ueip_pgw st k t = Inr st'"
  shows "gtp_inv st' H None (P(t := P t - 1))"
    and "tab_chain ueip_part (ueip2pgw st') =
      (tab_chain ueip_part (ueip2pgw st))(k := next_addr st # tab_chain ueip_part (ueip2pgw st) k)"
    and "nt_nodes (ueip2pgw st') = (nt_nodes (ueip2pgw st))
      (next_addr st \<mapsto> \<lparr>mn_key = k, mn_tunnel = t, mn_ref_count = 1\<rparr>)"
    and "teid2pgw st' = teid2pgw st" and "tunnels st' = tunnels st" and "next_addr st' = next_addr st + 1"
    and "pgw_list st' = pgw_list st" and "ovs_phy_port st' = ovs_phy_port st"
proof -
  note D = gtp_invD[OF inv]
  from run obtain tab seed where
    p: "put_node ueip_part (ueip2pgw st) k t (next_addr st) (rand_seed st) = Inr (tab, seed)"
    and st': "st' = st\<lparr>ueip2pgw := tab, next_addr := next_addr st + 1, rand_seed := seed\<rparr>"
    by (auto simp: gtp_manager_put_ueip_pgw_def rbind_eq_Inr split: prod.splits)
  note N = ueip.put_node_ok[OF D(2) D(6)[OF order_refl] p]
  have "tab_refs tab u = tab_refs (ueip2pgw st) u + of_bool (t = u)" for u
    using tab_refs_add[OF node_invD(3)[OF D(2)] D(6)[OF order_refl] N(3)] by simp
  from tun_ok_take[OF D(4) pos this] N D(1,5-8)
  show "gtp_inv st' H None (P(t := P t - 1))" by (simp add: gtp_inv_def st' algebra_simps)
  show "tab_chain ueip_part (ueip2pgw st') =
      (tab_chain ueip_part (ueip2pgw st))(k := next_addr st # tab_chain ueip_part (ueip2pgw st) k)"
    "nt_nodes (ueip2pgw st') = (nt_nodes (ueip2pgw st))
      (next_addr st \<mapsto> \<lparr>mn_key = k, mn_tunnel = t, mn_ref_count = 1\<rparr>)"
    "teid2pgw st' = teid2pgw st" "tunnels st' = tunnels st" "next_addr st' = next_addr st + 1"
    "pgw_list st' = pgw_list st" "ovs_phy_port st' = ovs_phy_port st"
    using N(2,3) by (simp_all add: st')
qed

lemma put_fault:
  assumes "gtp_inv st H U P"
  shows "gtp_manager_put_teid_pgw st k t = Inl e \<Longrightarrow> e = No_Return \<or> e = Assert_Fail"
    and "gtp_manager_put_ueip_pgw st k t = Inl e \<Longrightarrow> e = No_Return \<or> e = Assert_Fail"
  using teid.put_node_fault[OF gtp_invD(1)[OF assms]] ueip.put_node_fault[OF gtp_invD(2)[OF assms]]
  by (auto simp: gtp_manager_put_teid_pgw_def gtp_manager_put_ueip_pgw_def rbind_def
      split: sum.splits prod.splits)

section \<open>The handlers\<close>

text \<open>The outcome of a handler that is safe: it returns in a good state, or it crashes in
  another way than by touching freed memory.\<close>

definition gtp_safe :: "(gtp_state \<times> xlate_ctx) result \<Rightarrow> bool" where
  "gtp_safe r \<longleftrightarrow> (case r of Inl e \<Rightarrow> e \<noteq> Use_After_Free | Inr (st, ctx) \<Rightarrow> gtp_ok st)"

lemma gtp_safe_simps [simp]:
  "gtp_safe (Inl e) \<longleftrightarrow> e \<noteq> Use_After_Free"
  "gtp_safe (Inr (st, ctx)) \<longleftrightarrow> gtp_ok st"
  by (simp_all add: gtp_safe_def)

lemma gtp_safe_rbind:
  assumes "\<And>e. r = Inl e \<Longrightarrow> e \<noteq> Use_After_Free" and "\<And>x. r = Inr x \<Longrightarrow> gtp_safe (f x)"
  shows "gtp_safe (rbind r f)"
  using assms by (cases r) auto

lemma tunnel_pgw_ok:
  assumes inv: "gtp_inv st H U P" and tn: "tunnels st t = Some tn" "pgw_index tn = Some i"
  shows "tunnel_pgw st tn = Inr (pgw_list st ! unat i)"
  using tun_okD(2)[OF gtp_invD(3)[OF inv] tn] gtp_invD(7)[OF inv] tn(2)
  by (simp add: tunnel_pgw_def pgw_at_def)

text \<open>Forwarding by TEID or user address cannot fault at all.\<close>

lemma forward_teid_cases:
  assumes inv: "gtp_ok st"
  obtains (drop) "tab_chain teid_part (teid2pgw st) k = []" "forward_teid st ctx k = Inr (st, ctx)"
    | (found) a rest n tn i st' where "tab_chain teid_part (teid2pgw st) k = a # rest"
      "nt_nodes (teid2pgw st) a = Some n" "tunnels st (mn_tunnel n) = Some tn" "pgw_index tn = Some i"
      "forward_teid st ctx k = Inr (st', if gtp_pgw_ip (pgw_list st ! unat i) = 0 then ctx
         else output_to_pgw ctx (pgw_list st ! unat i))"
      "gtp_ok st'"
  using inv
proof (cases rule: get_teid_cases[where k = k])
  case none
  with drop show ?thesis by (simp add: forward_teid_def)
next
  case (some a rest n tn st')
  then obtain i where i: "pgw_index tn = Some i" by blast
  obtain st'' where st'': "unref_teid_node st' a = Inr st''" "gtp_ok st''"
    using unref_teid_ok[OF some(8)] by blast
  have tn': "node_tunnel (teid2pgw st') (tunnels st') a = Inr tn"
    using some(5,7) by (simp add: node_tunnel_def)
  have "tunnels st' (mn_tunnel n) = Some tn" "pgw_list st' = pgw_list st"
    using some(5,7) by simp_all
  with tunnel_pgw_ok[OF some(8) _ i] have "tunnel_pgw st' tn = Inr (pgw_list st ! unat i)" by simp
  with some(2) tn' st'' have "forward_teid st ctx k =
      Inr (st'', if gtp_pgw_ip (pgw_list st ! unat i) = 0 then ctx
         else output_to_pgw ctx (pgw_list st ! unat i))"
    by (simp add: forward_teid_def)
  with found[OF some(1,3,5) i _ st''(2)] show ?thesis by blast
qed

lemma forward_ueip_cases:
  assumes inv: "gtp_ok st"
  obtains (drop) "tab_chain ueip_part (ueip2pgw st) k = []" "forward_ueip st ctx k = Inr (st, ctx)"
    | (found) a rest n tn i st' where "tab_chain ueip_part (ueip2pgw st) k = a # rest"
      "nt_nodes (ueip2pgw st) a = Some n" "tunnels st (mn_tunnel n) = Some tn" "pgw_index tn = Some i"
      "forward_ueip st ctx k = Inr (st', if gtp_pgw_ip (pgw_list st ! unat i) = 0 then ctx
         else output_to_sgi ctx (pgw_list st ! unat i))"
      "gtp_ok st'"
  using inv
proof (cases rule: get_ueip_cases[where k = k])
  case none
  with drop show ?thesis by (simp add: forward_ueip_def)
next
  case (some a rest n tn st')
  then obtain i where i: "pgw_index tn = Some i" by blast
  obtain st'' where st'': "unref_ueip_node st' a = Inr st''" "gtp_ok st''"
    using unref_ueip_ok[OF some(8)] by blast
  have tn': "node_tunnel (ueip2pgw st') (tunnels st') a = Inr tn"
    using some(5,7) by (simp add: node_tunnel_def)
  have "tunnels st' (mn_tunnel n) = Some tn" "pgw_list st' = pgw_list st"
    using some(5,7) by simp_all
  with tunnel_pgw_ok[OF some(8) _ i] have "tunnel_pgw st' tn = Inr (pgw_list st ! unat i)" by simp
  with some(2) tn' st'' have "forward_ueip st ctx k =
      Inr (st'', if gtp_pgw_ip (pgw_list st ! unat i) = 0 then ctx
         else output_to_sgi ctx (pgw_list st ! unat i))"
    by (simp add: forward_ueip_def)
  with found[OF some(1,3,5) i _ st''(2)] show ?thesis by blast
qed

lemma gtp_ok_fields [simp]:
  "gtp_inv (st\<lparr>hdr_live := l\<rparr>) H U P \<longleftrightarrow> gtp_inv st H U P"
  "gtp_inv (st\<lparr>pgw_current := c\<rparr>) H U P \<longleftrightarrow> gtp_inv st H U P"
  by (simp_all add: gtp_inv_def)

lemma pgw_first_bound:
  assumes "pgw_first st from P = Some i"
  shows "from \<le> i" and "i < unat (pgw_end st)" and "P (pgw_list st ! i)"
    and "\<And>j. from \<le> j \<Longrightarrow> j < i \<Longrightarrow> \<not> P (pgw_list st ! j)"
proof -
  from assms obtain k where k: "first_slot (\<lambda>i. P (pgw_list st ! i)) [from..<unat (pgw_end st)] = Some k"
    and i: "i = from + k" by (auto simp: pgw_first_def)
  note D = first_slot_SomeD[OF k]
  show "from \<le> i" "i < unat (pgw_end st)" "P (pgw_list st ! i)" using D(1,2) i by auto
  fix j assume "from \<le> j" "j < i"
  with D(3)[of "j - from"] D(1) i show "\<not> P (pgw_list st ! j)" by auto
qed

lemma pgw_first_None:
  "pgw_first st from P = None \<longleftrightarrow> (\<forall>i. from \<le> i \<longrightarrow> i < unat (pgw_end st) \<longrightarrow> \<not> P (pgw_list st ! i))"
  by (auto simp: pgw_first_def)

lemma handle_initial_safe:
  assumes inv: "gtp_ok st"
  shows "gtp_safe (handle_initial st ctx h)"
proof -
  obtain i st' where g: "gtp_manager_get_pgw st = (i, st')" by (cases "gtp_manager_get_pgw st")
  then have "(\<exists>c. st' = st\<lparr>pgw_current := c\<rparr>) \<and> i < MAX_PGW_PER_NODE"
    using gtp_invD(8)[OF inv]
    by (auto simp: gtp_manager_get_pgw_def MAX_PGW_PER_NODE_def split: option.splits
        dest!: pgw_first_bound(2))
  with inv gtp_invD(7)[OF inv] have "gtp_ok st'" "pgw_at st' i = Inr (pgw_list st' ! i)"
    by (auto simp: pgw_at_def)
  with g inv show ?thesis by (simp add: handle_initial_def)
qed

text \<open>A new tunnel starts with four references that its entries use up.\<close>

lemma put_session_ok:
  assumes inv: "gtp_inv st None None ((\<lambda>_. 0)(t := 4))"
    and run: "put_session st t4 t5 ueip t2 t = Inr st'"
  shows "gtp_ok st'"
proof -
  from run obtain s1 s2 s3 where r: "gtp_manager_put_teid_pgw st t4 t = Inr s1"
    "gtp_manager_put_teid_pgw s1 t5 t = Inr s2" "gtp_manager_put_ueip_pgw s2 ueip t = Inr s3"
    "gtp_manager_put_teid_pgw s3 t2 t = Inr st'"
    by (auto simp: put_session_def rbind_eq_Inr)
  have "gtp_inv s1 None None ((\<lambda>_. 0)(t := 3))"
    using put_teid_ok(1)[OF inv _ r(1)] by simp
  from put_teid_ok(1)[OF this _ r(2)] have "gtp_inv s2 None None ((\<lambda>_. 0)(t := 2))" by simp
  from put_ueip_ok(1)[OF this _ r(3)] have "gtp_inv s3 None None ((\<lambda>_. 0)(t := 1))" by simp
  from put_teid_ok(1)[OF this _ r(4)] show ?thesis by (simp add: fun_upd_idem)
qed

lemma put_session_fault:
  assumes inv: "gtp_inv st None None ((\<lambda>_. 0)(t := 4))"
    and run: "put_session st t4 t5 ueip t2 t = Inl e"
  shows "e = No_Return \<or> e = Assert_Fail"
proof (cases "gtp_manager_put_teid_pgw st t4 t")
  case (Inl e')
  with run put_fault(1)[OF inv] show ?thesis by (simp add: put_session_def)
next
  case (Inr s1)
  have i1: "gtp_inv s1 None None ((\<lambda>_. 0)(t := 3))" using put_teid_ok(1)[OF inv _ Inr] by simp
  show ?thesis
  proof (cases "gtp_manager_put_teid_pgw s1 t5 t")
    case (Inl e')
    with run Inr put_fault(1)[OF i1] show ?thesis by (simp add: put_session_def)
  next
    case r2: (Inr s2)
    have i2: "gtp_inv s2 None None ((\<lambda>_. 0)(t := 2))" using put_teid_ok(1)[OF i1 _ r2] by simp
    show ?thesis
    proof (cases "gtp_manager_put_ueip_pgw s2 ueip t")
      case (Inl e')
      with run Inr r2 put_fault(2)[OF i2] show ?thesis by (simp add: put_session_def)
    next
      case r3: (Inr s3)
      have "gtp_inv s3 None None ((\<lambda>_. 0)(t := 1))" using put_ueip_ok(1)[OF i2 _ r3] by simp
      from put_fault(1)[OF this] run Inr r2 r3 show ?thesis by (simp add: put_session_def)
    qed
  qed
qed

lemma find_pgw_bound:
  assumes "gtp_inv st H U P" and "gtp_manager_find_pgw st ip \<noteq> - 1"
  obtains i where "gtp_manager_find_pgw st ip = int i" and "i < MAX_PGW_PER_NODE"
    and "gtp_pgw_ip (pgw_list st ! i) = ip"
  using assms(2) gtp_invD(8)[OF assms(1)] pgw_first_bound[of st 0 "\<lambda>p. gtp_pgw_ip p = ip"]
  by (auto simp: gtp_manager_find_pgw_def split: option.splits)

text \<open>Allocating a tunnel at the next address, with \<open>k\<close> references promised.\<close>

lemma gtp_inv_alloc:
  assumes inv: "gtp_ok st"
    and tn: "\<And>i. pgw_index tn = Some i \<Longrightarrow> unat i < MAX_PGW_PER_NODE"
    and k: "0 < k \<Longrightarrow> tun_ref_count tn = Some (int k) \<and> pgw_index tn \<noteq> None"
  shows "gtp_inv (st\<lparr>next_addr := next_addr st + 1, tunnels := (tunnels st)(next_addr st \<mapsto> tn)\<rparr>)
    None None ((\<lambda>_. 0)(next_addr st := k))"
proof -
  let ?R = "\<lambda>t. tab_refs (teid2pgw st) t + tab_refs (ueip2pgw st) t"
  note D = gtp_invD[OF inv]
  have ok: "tun_ok (next_addr st) (tunnels st) ?R" using inv by (simp add: gtp_inv_def)
  have new: "?R (next_addr st) = 0"
    using tun_okD(1,3)[OF ok, of "next_addr st"] by fastforce
  have "tun_ok (next_addr st + 1) ((tunnels st)(next_addr st \<mapsto> tn))
      (\<lambda>t. ?R t + ((\<lambda>_. 0)(next_addr st := k)) t)"
    using tun_okD[OF ok] tn k new by (simp add: tun_ok_def)
  with D(1,2,5-8) show ?thesis by (simp add: gtp_inv_def)
qed

lemma create_session_safe:
  assumes inv: "gtp_ok st"
  shows "gtp_safe (create_session_response st ctx h t2 packet)"
  unfolding create_session_response_def
proof (rule gtp_safe_rbind)
  fix e assume "scan_session_response h packet = Inl e"
  then show "e \<noteq> Use_After_Free"
    by (auto simp: scan_session_response_def Let_def dest: session_scan_fault)
next
  fix s :: session_ies
  let ?tn = "\<lparr>teid4_sgw_c = si_t4 s, teid5_sgw_u = si_t5 s, teid2_pgw_c = t2, teid3_pgw_u = None,
      ue_ip = si_ueip s, pgw_index = None, tun_ref_count = None\<rparr>"
  let ?p = "gtp_manager_find_pgw st (fl_nw_src (xc_flow ctx))"
  show "gtp_safe (if ies_complete s \<and> pgw_fastpath st = 0
     then let node = next_addr st; tn = ?tn; pgwindex = ?p
          in if pgwindex \<noteq> - 1
             then rbind (put_session (st\<lparr>next_addr := node + 1,
                        tunnels := (tunnels st)(node \<mapsto>
                          tn\<lparr>pgw_index := Some (of_int pgwindex), tun_ref_count := Some 4\<rparr>)\<rparr>)
                      (si_t4 s) (si_t5 s) (si_ueip s) t2 node) (\<lambda>st.
                  Inr (st, output_to_phy st ctx))
             else Inr (st\<lparr>next_addr := node + 1, tunnels := (tunnels st)(node \<mapsto> tn)\<rparr>, ctx)
     else Inr (st, ctx))"
  proof (cases "ies_complete s \<and> pgw_fastpath st = 0 \<and> ?p \<noteq> - 1")
    case True
    from find_pgw_bound[OF inv] True obtain i where i: "?p = int i" "i < MAX_PGW_PER_NODE" by blast
    then have "unat (of_int ?p :: u16) < MAX_PGW_PER_NODE"
      by (simp add: MAX_PGW_PER_NODE_def unat_of_nat take_bit_eq_mod)
    then have P: "gtp_inv (st\<lparr>next_addr := next_addr st + 1, tunnels := (tunnels st)(next_addr st \<mapsto>
        ?tn\<lparr>pgw_index := Some (of_int ?p), tun_ref_count := Some 4\<rparr>)\<rparr>) None None
        ((\<lambda>_. 0)(next_addr st := 4))"
      by (intro gtp_inv_alloc[OF inv]) auto
    have "gtp_safe (rbind (put_session (st\<lparr>next_addr := next_addr st + 1, tunnels := (tunnels st)
        (next_addr st \<mapsto> ?tn\<lparr>pgw_index := Some (of_int ?p), tun_ref_count := Some 4\<rparr>)\<rparr>)
        (si_t4 s) (si_t5 s) (si_ueip s) t2 (next_addr st)) (\<lambda>st. Inr (st, output_to_phy st ctx)))"
    proof (rule gtp_safe_rbind)
      fix e
      assume "put_session (st\<lparr>next_addr := next_addr st + 1, tunnels := (tunnels st)
        (next_addr st \<mapsto> ?tn\<lparr>pgw_index := Some (of_int ?p), tun_ref_count := Some 4\<rparr>)\<rparr>)
        (si_t4 s) (si_t5 s) (si_ueip s) t2 (next_addr st) = Inl e"
      from put_session_fault[OF P this] show "e \<noteq> Use_After_Free" by auto
    qed (simp add: put_session_ok[OF P])
    with True show ?thesis by (simp only: Let_def) simp
  next
    case False
    then show ?thesis
      using inv gtp_inv_alloc[OF inv, of ?tn 0] by (auto simp: Let_def fun_upd_idem)
  qed
qed

lemma delete_session_safe:
  assumes inv: "gtp_ok st"
  shows "gtp_safe (delete_session_response st ctx t2)"
  using inv
proof (cases rule: get_teid_cases[where k = t2])
  case none
  then show ?thesis by (simp add: delete_session_response_def)
next
  case (some a rest n tn st1)
  have nt: "node_tunnel (teid2pgw st1) (tunnels st1) a = Inr tn"
    using some(5,7) by (simp add: node_tunnel_def)
  have del: "gtp_safe (rbind (gtp_manager_del_teid_pgw s k) f)"
    if "gtp_inv s (Some a) None (\<lambda>_. 0)"
      "\<And>s'. gtp_inv s' (Some a) None (\<lambda>_. 0) \<Longrightarrow> gtp_safe (f s')" for s k f
    using that del_teid_ok[OF that(1)] del_teid_fault[OF that(1)] by (intro gtp_safe_rbind) blast+
  have delu: "gtp_safe (rbind (gtp_manager_del_ueip_pgw s k) f)"
    if "gtp_inv s (Some a) None (\<lambda>_. 0)"
      "\<And>s'. gtp_inv s' (Some a) None (\<lambda>_. 0) \<Longrightarrow> gtp_safe (f s')" for s k f
    using that del_ueip_ok[OF that(1)] del_ueip_fault[OF that(1)] by (intro gtp_safe_rbind) blast+
  have unref: "gtp_safe (rbind (unref_teid_node s a) (\<lambda>s. Inr (s, output_to_phy s ctx)))"
    if "gtp_inv s (Some a) None (\<lambda>_. 0)" for s
    using unref_teid_ok[OF that] by (metis gtp_safe_simps(2) rbind_simps(2))
  show ?thesis
    unfolding delete_session_response_def some(2) rbind_simps prod.case of_option_simps nt
    by (intro del delu unref some(8))
qed

lemma handle_gtpc_safe:
  assumes inv: "gtp_ok st"
  shows "gtp_safe (handle_gtpc_message st ctx h packet)"
proof -
  have fw: "gtp_safe (forward_teid st ctx k)" for k
    by (cases rule: forward_teid_cases[OF inv, where k = k and ctx = ctx]) (use inv in auto)
  show ?thesis
    using inv fw handle_initial_safe[OF inv] create_session_safe[OF inv] delete_session_safe[OF inv]
    by (cases "gc_teid h") (auto simp: handle_gtpc_message_def Let_def)
qed

lemma handle_gtpu_safe:
  assumes inv: "gtp_ok st"
  shows "gtp_safe (handle_gtpu_message st ctx h)"
proof -
  have fw: "gtp_safe (forward_teid st ctx k)" for k
    by (cases rule: forward_teid_cases[OF inv, where k = k and ctx = ctx]) (use inv in auto)
  show ?thesis using inv fw by (simp add: handle_gtpu_message_def)
qed

lemma handle_pgw_sgi_safe:
  assumes inv: "gtp_ok st"
  shows "gtp_safe (handle_pgw_sgi st ctx)"
proof -
  have fw: "gtp_safe (forward_ueip st ctx k)" for k
    by (cases rule: forward_ueip_cases[OF inv, where k = k and ctx = ctx]) (use inv in auto)
  show ?thesis using inv fw by (simp add: handle_pgw_sgi_def split: option.splits)
qed

lemma handle_gtp_safe:
  assumes inv: "gtp_ok st"
  shows "gtp_safe (handle_gtp st ctx)"
proof -
  let ?st = "st\<lparr>hdr_live := hdr_live st + 1\<rparr>"
  have inv': "gtp_ok ?st" using inv by simp
  have fin: "gtp_safe (rbind r (\<lambda>(st, ctx). Inr (st\<lparr>hdr_live := hdr_live st - 1\<rparr>, ctx)))"
    if "gtp_safe r" for r
    using that by (intro gtp_safe_rbind) (auto split: prod.splits)
  show ?thesis
    using inv fin[OF handle_gtpc_safe[OF inv']] fin[OF handle_gtpu_safe[OF inv']]
    by (auto simp: handle_gtp_def Let_def intro!: gtp_safe_rbind dest: parse_gtp_fault
        split: option.splits)
qed

end
