(* ===== verification/Gtp_Behaviour.thy ===== *)
theory Gtp_Behaviour
  imports Gtp_Safety
begin

text \<open>
  What the GTP manager does: how gateways are chosen, how a session comes into the tables
  and leaves them again without a trace, where packets of a session go, and which packets
  crash the switch.
\<close>

unbundle bit_operations_syntax

section \<open>Initialisation\<close>

lemma cmap_init_ok:
  assumes "cmap_init seed = Inr (m, seed')"
  shows "cmap_inv m" and "cmap_abs m = (\<lambda>h. [])"
proof -
  have c: "cmap_impl_create 0 seed = Inr (m, seed')" using assms by (simp add: cmap_init_def)
  note Z = cmap_impl_create_zero[OF c]
  note W = zero_buckets_wf[OF Z(4)]
  show "cmap_abs m = (\<lambda>h. [])" by (rule W(2))
  then show "cmap_inv m" using Z W(1) by (simp add: cmap_inv_def cmap_size_def)
qed

lemma cmap_init_returns: "\<exists>m s. cmap_init seed = Inr (m, s)"
  by (simp add: cmap_init_def cmap_impl_create_def is_pow2_def Let_def split: prod.splits)

lemma init_maps_ok:
  "\<exists>ms1 ms2 s. init_maps k seed = Inr (ms1, ms2, s) \<and> length ms1 = k \<and> length ms2 = k \<and>
     (\<forall>m \<in> set ms1 \<union> set ms2. cmap_inv m \<and> cmap_abs m = (\<lambda>h. []))"
proof (induction k arbitrary: seed)
  case (Suc k)
  obtain m1 :: "addr cmap_impl" and s1 where m1: "cmap_init seed = Inr (m1, s1)" using cmap_init_returns by blast
  obtain m2 :: "addr cmap_impl" and s2 where m2: "cmap_init s1 = Inr (m2, s2)" using cmap_init_returns by blast
  from Suc[of s2] obtain ms1 ms2 s where "init_maps k s2 = Inr (ms1, ms2, s)" "length ms1 = k"
    "length ms2 = k" "\<forall>m \<in> set ms1 \<union> set ms2. cmap_inv m \<and> cmap_abs m = (\<lambda>h. [])" by blast
  with m1 m2 cmap_init_ok[OF m1] cmap_init_ok[OF m2] show ?case by simp
qed simp

lemma empty_table_inv:
  assumes "length (nt_maps tab) = HASHMAP_PART_NUM" and "nt_nodes tab = Map.empty"
    and "\<forall>m \<in> set (nt_maps tab). cmap_inv m \<and> cmap_abs m = (\<lambda>h. [])"
    and "\<And>k. part k < HASHMAP_PART_NUM"
  shows "node_inv part tab None" and "tab_chain part tab = (\<lambda>k. [])" and "tab_refs tab = (\<lambda>t. 0)"
proof -
  show chain: "tab_chain part tab = (\<lambda>k. [])"
    using assms(1,3,4) by (auto simp: tab_chain_def part_chain_def fun_eq_iff)
  show "tab_refs tab = (\<lambda>t. 0)" by (simp add: tab_refs_def assms(2) fun_eq_iff)
  show "node_inv part tab None" using assms by (simp add: node_inv_def chain)
qed

lemma gtp_manager_init_ok:
  "\<exists>st. gtp_manager_init (gtp_static seed) = Inr st \<and> gtp_ok st"
proof -
  obtain ms1 ms2 s where m: "init_maps HASHMAP_PART_NUM seed = Inr (ms1, ms2, s)"
    "length ms1 = HASHMAP_PART_NUM" "length ms2 = HASHMAP_PART_NUM"
    "\<forall>m \<in> set ms1 \<union> set ms2. cmap_inv m \<and> cmap_abs m = (\<lambda>h. [])"
    using init_maps_ok by blast
  have t: "node_inv teid_part \<lparr>nt_maps = ms1, nt_nodes = Map.empty\<rparr> None"
    "tab_refs \<lparr>nt_maps = ms1, nt_nodes = Map.empty\<rparr> = (\<lambda>t. 0)"
    using m by (auto intro!: empty_table_inv[where part = teid_part] simp: teid_part_bound)
  have u: "node_inv ueip_part \<lparr>nt_maps = ms2, nt_nodes = Map.empty\<rparr> None"
    "tab_refs \<lparr>nt_maps = ms2, nt_nodes = Map.empty\<rparr> = (\<lambda>t. 0)"
    using m by (auto intro!: empty_table_inv[where part = ueip_part] simp: ueip_part_bound)
  show ?thesis
    using t u by (simp add: gtp_manager_init_def gtp_static_def m(1) gtp_inv_def tun_ok_def)
qed

section \<open>Choosing a gateway\<close>

text \<open>A gateway is live if its address is not zero.\<close>

definition all_live :: "gtp_state \<Rightarrow> bool" where
  "all_live st \<longleftrightarrow> (\<forall>i < unat (pgw_end st). gtp_pgw_ip (pgw_list st ! i) \<noteq> 0)"

fun get_pgw_times :: "nat \<Rightarrow> gtp_state \<Rightarrow> gtp_state" where
  "get_pgw_times 0 st = st"
| "get_pgw_times (Suc k) st = get_pgw_times k (snd (gtp_manager_get_pgw st))"

lemma get_pgw_live:
  assumes live: "all_live st" and e: "0 < unat (pgw_end st)" and c: "unat (pgw_current st) \<le> unat (pgw_end st)"
  defines "i \<equiv> unat (pgw_current st) mod unat (pgw_end st)"
  shows "gtp_manager_get_pgw st = (i, st\<lparr>pgw_current := of_nat i + 1\<rparr>)"
proof (cases "unat (pgw_current st) < unat (pgw_end st)")
  case True
  with live have "pgw_first st (unat (pgw_current st)) (\<lambda>p. gtp_pgw_ip p \<noteq> 0) = Some (unat (pgw_current st))"
    by (simp add: pgw_first_def all_live_def upt_conv_Cons)
  with True show ?thesis by (simp add: gtp_manager_get_pgw_def i_def)
next
  case False
  with c have eq: "unat (pgw_current st) = unat (pgw_end st)" by simp
  then have "pgw_first st (unat (pgw_current st)) (\<lambda>p. gtp_pgw_ip p \<noteq> 0) = None"
    by (simp add: pgw_first_None)
  with eq show ?thesis by (simp add: gtp_manager_get_pgw_def i_def)
qed

lemma get_pgw_times_live:
  assumes live: "all_live st" and e: "0 < unat (pgw_end st)" and c: "unat (pgw_current st) \<le> unat (pgw_end st)"
  shows "fst (gtp_manager_get_pgw (get_pgw_times k st)) = (unat (pgw_current st) + k) mod unat (pgw_end st)"
  using assms
proof (induction k arbitrary: st)
  case 0
  then show ?case by (simp add: get_pgw_live)
next
  case (Suc k)
  let ?i = "unat (pgw_current st) mod unat (pgw_end st)"
  let ?st = "st\<lparr>pgw_current := of_nat ?i + 1\<rparr>"
  have g: "snd (gtp_manager_get_pgw st) = ?st" using get_pgw_live[OF Suc.prems] by simp
  have i: "?i < unat (pgw_end st)" using Suc.prems(2) by simp
  moreover have "unat (pgw_end st) < 65536" using unsigned_less[of "pgw_end st", where ?'a = nat] by simp
  ultimately have u: "unat (of_nat ?i + 1 :: u16) = ?i + 1"
    by (simp add: unat_word_ariths unat_of_nat take_bit_eq_mod)
  have "fst (gtp_manager_get_pgw (get_pgw_times k ?st)) = (unat (pgw_current ?st) + k) mod unat (pgw_end ?st)"
    using Suc.prems(1,2) u i by (intro Suc.IH) (simp_all add: all_live_def)
  with u g mod_add_left_eq[of "unat (pgw_current st)" "unat (pgw_end st)" "Suc k"]
  show ?case by simp
qed

section \<open>The life of a session\<close>

lemma del_teid_effect:
  assumes inv: "gtp_inv st H U P" and run: "gtp_manager_del_teid_pgw st k = Inr st'"
    and chain: "tab_chain teid_part (teid2pgw st) k = a # rest" and n: "nt_nodes (teid2pgw st) a = Some n"
  shows "tab_chain teid_part (teid2pgw st') = (tab_chain teid_part (teid2pgw st))(k := rest)"
    and "nt_nodes (teid2pgw st') = (nt_nodes (teid2pgw st))
      (a := if H = Some a then Some (n\<lparr>mn_ref_count := 1\<rparr>) else None)"
    and "if H = Some a then tunnels st' = tunnels st
      else unref_tunnel (tunnels st) (mn_tunnel n) = Inr (tunnels st')"
    and "ueip2pgw st' = ueip2pgw st" and "pgw_list st' = pgw_list st" and "ovs_phy_port st' = ovs_phy_port st"
proof -
  from run obtain tab tuns seed where
    d: "del_node teid_part (teid2pgw st) (tunnels st) k (rand_seed st) = Inr (tab, tuns, seed)"
    and st': "st' = st\<lparr>teid2pgw := tab, tunnels := tuns, rand_seed := seed\<rparr>"
    by (auto simp: gtp_manager_del_teid_pgw_def rbind_eq_Inr split: prod.splits)
  from teid.del_node_ok[OF gtp_invD(1)[OF inv] d] chain n
  have "tab_chain teid_part tab = (tab_chain teid_part (teid2pgw st))(k := rest) \<and>
      nt_nodes tab = (nt_nodes (teid2pgw st))(a := if H = Some a then Some (n\<lparr>mn_ref_count := 1\<rparr>) else None) \<and>
      (if H = Some a then tuns = tunnels st else unref_tunnel (tunnels st) (mn_tunnel n) = Inr tuns)"
    by (metis list.inject option.inject)
  then show "tab_chain teid_part (teid2pgw st') = (tab_chain teid_part (teid2pgw st))(k := rest)"
    "nt_nodes (teid2pgw st') = (nt_nodes (teid2pgw st))
      (a := if H = Some a then Some (n\<lparr>mn_ref_count := 1\<rparr>) else None)"
    "if H = Some a then tunnels st' = tunnels st
      else unref_tunnel (tunnels st) (mn_tunnel n) = Inr (tunnels st')"
    "ueip2pgw st' = ueip2pgw st" "pgw_list st' = pgw_list st" "ovs_phy_port st' = ovs_phy_port st"
    by (simp_all add: st')
qed

lemma del_ueip_effect:
  assumes inv: "gtp_inv st H U P" and run: "gtp_manager_del_ueip_pgw st k = Inr st'"
    and chain: "tab_chain ueip_part (ueip2pgw st) k = a # rest" and n: "nt_nodes (ueip2pgw st) a = Some n"
  shows "tab_chain ueip_part (ueip2pgw st') = (tab_chain ueip_part (ueip2pgw st))(k := rest)"
    and "nt_nodes (ueip2pgw st') = (nt_nodes (ueip2pgw st))
      (a := if U = Some a then Some (n\<lparr>mn_ref_count := 1\<rparr>) else None)"
    and "if U = Some a then tunnels st' = tunnels st
      else unref_tunnel (tunnels st) (mn_tunnel n) = Inr (tunnels st')"
    and "teid2pgw st' = teid2pgw st" and "pgw_list st' = pgw_list st" and "ovs_phy_port st' = ovs_phy_port st"
proof -
  from run obtain tab tuns seed where
    d: "del_node ueip_part (ueip2pgw st) (tunnels st) k (rand_seed st) = Inr (tab, tuns, seed)"
    and st': "st' = st\<lparr>ueip2pgw := tab, tunnels := tuns, rand_seed := seed\<rparr>"
    by (auto simp: gtp_manager_del_ueip_pgw_def rbind_eq_Inr split: prod.splits)
  from ueip.del_node_ok[OF gtp_invD(2)[OF inv] d] chain n
  have "tab_chain ueip_part tab = (tab_chain ueip_part (ueip2pgw st))(k := rest) \<and>
      nt_nodes tab = (nt_nodes (ueip2pgw st))(a := if U = Some a then Some (n\<lparr>mn_ref_count := 1\<rparr>) else None) \<and>
      (if U = Some a then tuns = tunnels st else unref_tunnel (tunnels st) (mn_tunnel n) = Inr tuns)"
    by (metis list.inject option.inject)
  then show "tab_chain ueip_part (ueip2pgw st') = (tab_chain ueip_part (ueip2pgw st))(k := rest)"
    "nt_nodes (ueip2pgw st') = (nt_nodes (ueip2pgw st))
      (a := if U = Some a then Some (n\<lparr>mn_ref_count := 1\<rparr>) else None)"
    "if U = Some a then tunnels st' = tunnels st
      else unref_tunnel (tunnels st) (mn_tunnel n) = Inr (tunnels st')"
    "teid2pgw st' = teid2pgw st" "pgw_list st' = pgw_list st" "ovs_phy_port st' = ovs_phy_port st"
    by (simp_all add: st')
qed

text \<open>The tables of a state as functions: the chains and the nodes of both maps, and the
  tunnels.\<close>

definition gtp_view :: "gtp_state \<Rightarrow> (u32 \<Rightarrow> addr list) \<times> (u32 \<Rightarrow> addr list) \<times>
    (addr \<rightharpoonup> map_node) \<times> (addr \<rightharpoonup> map_node) \<times> (addr \<rightharpoonup> gtp_tunnel_node)" where
  "gtp_view st =
     (tab_chain teid_part (teid2pgw st), tab_chain ueip_part (ueip2pgw st),
      nt_nodes (teid2pgw st), nt_nodes (ueip2pgw st), tunnels st)"

lemma put_session_effect:
  fixes st :: gtp_state
  assumes inv: "gtp_inv st None None ((\<lambda>_. 0)(t := 4))"
    and run: "put_session st t4 t5 ueip t2 t = Inr st'" and dist: "distinct [t4, t5, t2]"
  defines "a \<equiv> next_addr st" and "c \<equiv> tab_chain teid_part (teid2pgw st)"
    and "u \<equiv> tab_chain ueip_part (ueip2pgw st)"
  shows "gtp_view st' = (c(t4 := a # c t4, t5 := (a + 1) # c t5, t2 := (a + 3) # c t2),
      u(ueip := (a + 2) # u ueip),
      (nt_nodes (teid2pgw st))(a \<mapsto> \<lparr>mn_key = t4, mn_tunnel = t, mn_ref_count = 1\<rparr>,
        a + 1 \<mapsto> \<lparr>mn_key = t5, mn_tunnel = t, mn_ref_count = 1\<rparr>,
        a + 3 \<mapsto> \<lparr>mn_key = t2, mn_tunnel = t, mn_ref_count = 1\<rparr>),
      (nt_nodes (ueip2pgw st))(a + 2 \<mapsto> \<lparr>mn_key = ueip, mn_tunnel = t, mn_ref_count = 1\<rparr>),
      tunnels st)"
    and "pgw_list st' = pgw_list st" and "ovs_phy_port st' = ovs_phy_port st"
proof -
  from run obtain s1 s2 s3 where r: "gtp_manager_put_teid_pgw st t4 t = Inr s1"
    "gtp_manager_put_teid_pgw s1 t5 t = Inr s2" "gtp_manager_put_ueip_pgw s2 ueip t = Inr s3"
    "gtp_manager_put_teid_pgw s3 t2 t = Inr st'"
    by (auto simp: put_session_def rbind_eq_Inr)
  from dist have ne: "t4 \<noteq> t5" "t5 \<noteq> t4" "t4 \<noteq> t2" "t2 \<noteq> t4" "t5 \<noteq> t2" "t2 \<noteq> t5" by auto
  note E1 = put_teid_ok[OF inv _ r(1), simplified]
  note E2 = put_teid_ok[OF E1(1) _ r(2), simplified]
  note E3 = put_ueip_ok[OF E2(1) _ r(3), simplified]
  note E4 = put_teid_ok[OF E3(1) _ r(4), simplified]
  show "gtp_view st' = (c(t4 := a # c t4, t5 := (a + 1) # c t5, t2 := (a + 3) # c t2),
      u(ueip := (a + 2) # u ueip),
      (nt_nodes (teid2pgw st))(a \<mapsto> \<lparr>mn_key = t4, mn_tunnel = t, mn_ref_count = 1\<rparr>,
        a + 1 \<mapsto> \<lparr>mn_key = t5, mn_tunnel = t, mn_ref_count = 1\<rparr>,
        a + 3 \<mapsto> \<lparr>mn_key = t2, mn_tunnel = t, mn_ref_count = 1\<rparr>),
      (nt_nodes (ueip2pgw st))(a + 2 \<mapsto> \<lparr>mn_key = ueip, mn_tunnel = t, mn_ref_count = 1\<rparr>),
      tunnels st)"
    using E1(2-6) E2(2-6) E3(2-6) E4(2-6) ne
    by (simp add: gtp_view_def a_def c_def u_def numeral_eq_Suc)
  show "pgw_list st' = pgw_list st" "ovs_phy_port st' = ovs_phy_port st"
    using E1 E2 E3 E4 by simp_all
qed

lemma unref_tunnel_count:
  assumes "tuns t = Some tn" and "tun_ref_count tn = Some r" and "unref_tunnel tuns t = Inr tuns'"
  shows "tuns' = tuns(t := if r = 1 then None else Some (tn\<lparr>tun_ref_count := Some (r - 1)\<rparr>))"
  using assms by (simp add: unref_tunnel_def split: if_splits)

text \<open>Deleting a session whose nodes come first in their chains.\<close>

lemma delete_session_effect:
  fixes st :: gtp_state
  assumes inv: "gtp_ok st" and dist: "distinct [t4, t5, t2]"
    and addr: "distinct [a4, a5, a2]"
    and chain: "tab_chain teid_part (teid2pgw st) t4 = a4 # c4" "tab_chain teid_part (teid2pgw st) t5 = a5 # c5"
      "tab_chain teid_part (teid2pgw st) t2 = a2 # c2" "tab_chain ueip_part (ueip2pgw st) ueip = au # cu"
    and nodes: "nt_nodes (teid2pgw st) a4 = Some n4" "nt_nodes (teid2pgw st) a5 = Some n5"
      "nt_nodes (teid2pgw st) a2 = Some n2" "nt_nodes (ueip2pgw st) au = Some nu"
    and tunnel: "mn_tunnel n4 = t" "mn_tunnel n5 = t" "mn_tunnel n2 = t" "mn_tunnel nu = t"
    and tn: "tunnels st t = Some tn" "tun_ref_count tn = Some 4"
      "teid4_sgw_c tn = t4" "teid5_sgw_u tn = t5" "ue_ip tn = ueip"
    and run: "delete_session_response st ctx t2 = Inr (st', ctx')"
  shows "gtp_view st' =
    ((tab_chain teid_part (teid2pgw st))(t4 := c4, t5 := c5, t2 := c2),
     (tab_chain ueip_part (ueip2pgw st))(ueip := cu),
     (nt_nodes (teid2pgw st))(a4 := None, a5 := None, a2 := None),
     (nt_nodes (ueip2pgw st))(au := None), (tunnels st)(t := None))"
proof -
  from inv obtain s0 where g: "gtp_manager_get_teid_pgw st t2 = Inr (s0, Some a2)"
    and s0: "s0 = st\<lparr>teid2pgw := (teid2pgw st)\<lparr>nt_nodes := (nt_nodes (teid2pgw st))
         (a2 \<mapsto> n2\<lparr>mn_ref_count := mn_ref_count n2 + 1\<rparr>)\<rparr>\<rparr>"
    and i0: "gtp_inv s0 (Some a2) None (\<lambda>_. 0)"
    by (cases rule: get_teid_cases[where k = t2]) (use chain nodes in auto)
  have c0: "tab_chain teid_part (teid2pgw s0) = tab_chain teid_part (teid2pgw st)"
    by (simp add: s0 tab_chain_def)
  have nt: "node_tunnel (teid2pgw s0) (tunnels s0) a2 = Inr tn"
    using tn tunnel by (simp add: s0 node_tunnel_def)
  from run[unfolded delete_session_response_def g rbind_simps prod.case of_option_simps nt tn(3-5)]
  obtain s1 s2 s3 s4 where r: "gtp_manager_del_teid_pgw s0 t4 = Inr s1"
    "gtp_manager_del_teid_pgw s1 t5 = Inr s2" "gtp_manager_del_ueip_pgw s2 ueip = Inr s3"
    "gtp_manager_del_teid_pgw s3 t2 = Inr s4" "unref_teid_node s4 a2 = Inr st'"
    by (auto simp: rbind_eq_Inr)
  note i1 = del_teid_ok[OF i0 r(1)]
  note i2 = del_teid_ok[OF i1 r(2)]
  note i3 = del_ueip_ok[OF i2 r(3)]
  note i4 = del_teid_ok[OF i3 r(4)]
  let ?tn = "\<lambda>k. tn\<lparr>tun_ref_count := Some k\<rparr>"
  from dist addr have ne: "t4 \<noteq> t5" "t5 \<noteq> t4" "t4 \<noteq> t2" "t2 \<noteq> t4" "t5 \<noteq> t2" "t2 \<noteq> t5"
    "a4 \<noteq> a5" "a5 \<noteq> a4" "a4 \<noteq> a2" "a2 \<noteq> a4" "a5 \<noteq> a2" "a2 \<noteq> a5" by auto
  have n0: "nt_nodes (teid2pgw s0) a4 = Some n4" "nt_nodes (teid2pgw s0) a5 = Some n5"
    "nt_nodes (teid2pgw s0) a2 = Some (n2\<lparr>mn_ref_count := mn_ref_count n2 + 1\<rparr>)"
    "tunnels s0 = tunnels st" "ueip2pgw s0 = ueip2pgw st"
    using nodes ne by (simp_all add: s0)
  note E1 = del_teid_effect[OF i0 r(1) chain(1)[folded c0] n0(1)]
  have t1: "tunnels s1 = (tunnels st)(t \<mapsto> ?tn 3)"
    using E1(3) ne tunnel tn unref_tunnel_count[of "tunnels st" t tn 4] by (simp add: n0)
  have n1: "tab_chain teid_part (teid2pgw s1) t5 = a5 # c5" "nt_nodes (teid2pgw s1) a5 = Some n5"
    using E1(1,2) ne chain n0 c0 by simp_all
  note E2 = del_teid_effect[OF i1 r(2) n1]
  have t2: "tunnels s2 = (tunnels st)(t \<mapsto> ?tn 2)"
    using E2(3) ne tunnel unref_tunnel_count[of "tunnels s1" t "?tn 3" 3] by (simp add: t1)
  have n2: "tab_chain ueip_part (ueip2pgw s2) ueip = au # cu" "nt_nodes (ueip2pgw s2) au = Some nu"
    using E1(4) E2(4) chain nodes n0 by simp_all
  note E3 = del_ueip_effect[OF i2 r(3) n2]
  have t3: "tunnels s3 = (tunnels st)(t \<mapsto> ?tn 1)"
    using E3(3) tunnel unref_tunnel_count[of "tunnels s2" t "?tn 2" 2] by (simp add: t2)
  have n3: "tab_chain teid_part (teid2pgw s3) t2 = a2 # c2"
    "nt_nodes (teid2pgw s3) a2 = Some (n2\<lparr>mn_ref_count := mn_ref_count n2 + 1\<rparr>)"
    using E1(1,2) E2(1,2) E3(4) ne chain n0 c0 by simp_all
  note E4 = del_teid_effect[OF i3 r(4) n3]
  have t4: "tunnels s4 = (tunnels st)(t \<mapsto> ?tn 1)" using E4(3) t3 by simp
  have n4: "nt_nodes (teid2pgw s4) a2 = Some (n2\<lparr>mn_ref_count := 1\<rparr>)" using E4(2) by simp
  have st': "st' = s4\<lparr>teid2pgw := (teid2pgw s4)\<lparr>nt_nodes := (nt_nodes (teid2pgw s4))(a2 := None)\<rparr>,
      tunnels := (tunnels s4)(t := None)\<rparr>"
    using r(5) n4 t4 tunnel(3) by (simp add: unref_teid_node_def unref_node_def unref_tunnel_def Let_def)
  have "tab_chain teid_part (teid2pgw st') = tab_chain teid_part (teid2pgw s4)"
    by (simp add: st' tab_chain_def)
  then show ?thesis
    using E1(1,2,4) E2(1,2,4) E3(1,2,4) E4(1,2,4) c0 n0(5) t4 nodes
    by (simp add: gtp_view_def st' s0 fun_upd_twist)
qed

text \<open>The state after a Create Session Response that names a session.\<close>

lemma create_session_effect:
  assumes inv: "gtp_ok st" and fast: "pgw_fastpath st = 0"
    and scan: "scan_session_response h packet = Inr s" "ies_complete s"
    and pgw: "gtp_manager_find_pgw st (fl_nw_src (xc_flow ctx)) = int i"
    and dist: "distinct [si_t4 s, si_t5 s, t2]"
    and run: "create_session_response st ctx h t2 packet = Inr (st', ctx')"
  defines "t \<equiv> next_addr st"
  defines "tn \<equiv> \<lparr>teid4_sgw_c = si_t4 s, teid5_sgw_u = si_t5 s, teid2_pgw_c = t2, teid3_pgw_u = None,
      ue_ip = si_ueip s, pgw_index = Some (of_nat i), tun_ref_count = Some 4\<rparr>"
  shows "gtp_ok st'"
    and "gtp_view st' =
     ((tab_chain teid_part (teid2pgw st))
        (si_t4 s := (t + 1) # tab_chain teid_part (teid2pgw st) (si_t4 s),
         si_t5 s := (t + 2) # tab_chain teid_part (teid2pgw st) (si_t5 s),
         t2 := (t + 4) # tab_chain teid_part (teid2pgw st) t2),
      (tab_chain ueip_part (ueip2pgw st))
        (si_ueip s := (t + 3) # tab_chain ueip_part (ueip2pgw st) (si_ueip s)),
      (nt_nodes (teid2pgw st))
        (t + 1 \<mapsto> \<lparr>mn_key = si_t4 s, mn_tunnel = t, mn_ref_count = 1\<rparr>,
         t + 2 \<mapsto> \<lparr>mn_key = si_t5 s, mn_tunnel = t, mn_ref_count = 1\<rparr>,
         t + 4 \<mapsto> \<lparr>mn_key = t2, mn_tunnel = t, mn_ref_count = 1\<rparr>),
      (nt_nodes (ueip2pgw st))(t + 3 \<mapsto> \<lparr>mn_key = si_ueip s, mn_tunnel = t, mn_ref_count = 1\<rparr>),
      (tunnels st)(t \<mapsto> tn))"
    and "pgw_list st' = pgw_list st" and "ovs_phy_port st' = ovs_phy_port st"
    and "i < MAX_PGW_PER_NODE" and "gtp_pgw_ip (pgw_list st ! i) = fl_nw_src (xc_flow ctx)"
proof -
  have "gtp_manager_find_pgw st (fl_nw_src (xc_flow ctx)) \<noteq> - 1" using pgw by simp
  from find_pgw_bound[OF inv this] pgw
  show i: "i < MAX_PGW_PER_NODE" and ip: "gtp_pgw_ip (pgw_list st ! i) = fl_nw_src (xc_flow ctx)"
    by auto
  let ?st = "st\<lparr>next_addr := t + 1, tunnels := (tunnels st)(t \<mapsto> tn)\<rparr>"
  have run': "put_session ?st (si_t4 s) (si_t5 s) (si_ueip s) t2 t = Inr st'"
    using run scan fast pgw
    by (simp add: create_session_response_def Let_def rbind_eq_Inr t_def tn_def)
  have "unat (of_nat i :: u16) < MAX_PGW_PER_NODE"
    using i by (simp add: MAX_PGW_PER_NODE_def unat_of_nat take_bit_eq_mod)
  then have P: "gtp_inv ?st None None ((\<lambda>_. 0)(t := 4))"
    unfolding t_def by (intro gtp_inv_alloc[OF inv]) (auto simp: tn_def)
  from put_session_ok[OF P run'] show "gtp_ok st'" .
  note E = put_session_effect[OF P run' dist]
  show "gtp_view st' =
     ((tab_chain teid_part (teid2pgw st))
        (si_t4 s := (t + 1) # tab_chain teid_part (teid2pgw st) (si_t4 s),
         si_t5 s := (t + 2) # tab_chain teid_part (teid2pgw st) (si_t5 s),
         t2 := (t + 4) # tab_chain teid_part (teid2pgw st) t2),
      (tab_chain ueip_part (ueip2pgw st))
        (si_ueip s := (t + 3) # tab_chain ueip_part (ueip2pgw st) (si_ueip s)),
      (nt_nodes (teid2pgw st))
        (t + 1 \<mapsto> \<lparr>mn_key = si_t4 s, mn_tunnel = t, mn_ref_count = 1\<rparr>,
         t + 2 \<mapsto> \<lparr>mn_key = si_t5 s, mn_tunnel = t, mn_ref_count = 1\<rparr>,
         t + 4 \<mapsto> \<lparr>mn_key = t2, mn_tunnel = t, mn_ref_count = 1\<rparr>),
      (nt_nodes (ueip2pgw st))(t + 3 \<mapsto> \<lparr>mn_key = si_ueip s, mn_tunnel = t, mn_ref_count = 1\<rparr>),
      (tunnels st)(t \<mapsto> tn))"
    using E(1) by (simp add: numeral_eq_Suc)
  show "pgw_list st' = pgw_list st" "ovs_phy_port st' = ovs_phy_port st" using E(2,3) by simp_all
qed

lemma session_leaves_no_trace:
  assumes inv: "gtp_ok st" and fast: "pgw_fastpath st = 0"
    and scan: "scan_session_response h packet = Inr s" "ies_complete s"
    and pgw: "gtp_manager_find_pgw st (fl_nw_src (xc_flow ctx)) = int i"
    and dist: "distinct [si_t4 s, si_t5 s, t2]"
    and create: "create_session_response st ctx h t2 packet = Inr (st1, ctx1)"
    and del: "delete_session_response st1 ctx2 t2 = Inr (st2, ctx3)"
  shows "gtp_view st2 = gtp_view st"
proof -
  note E = create_session_effect[OF inv fast scan pgw dist create]
  note V = E(2)[unfolded gtp_view_def prod.inject]
  note D = gtp_invD[OF inv]
  from dist have ne: "si_t4 s \<noteq> si_t5 s" "si_t5 s \<noteq> si_t4 s" "si_t4 s \<noteq> t2" "t2 \<noteq> si_t4 s"
    "si_t5 s \<noteq> t2" "t2 \<noteq> si_t5 s" by auto
  have fresh: "nt_nodes (teid2pgw st) (next_addr st + k) = None"
    "nt_nodes (ueip2pgw st) (next_addr st + k) = None" "tunnels st (next_addr st) = None" for k
    using D(5,6)[of "next_addr st + k"] tun_okD(3)[OF D(3), of "next_addr st"] by simp_all
  have "gtp_view st2 =
    ((tab_chain teid_part (teid2pgw st1))(si_t4 s := tab_chain teid_part (teid2pgw st) (si_t4 s),
       si_t5 s := tab_chain teid_part (teid2pgw st) (si_t5 s), t2 := tab_chain teid_part (teid2pgw st) t2),
     (tab_chain ueip_part (ueip2pgw st1))(si_ueip s := tab_chain ueip_part (ueip2pgw st) (si_ueip s)),
     (nt_nodes (teid2pgw st1))(next_addr st + 1 := None, next_addr st + 2 := None, next_addr st + 4 := None),
     (nt_nodes (ueip2pgw st1))(next_addr st + 3 := None), (tunnels st1)(next_addr st := None))"
    by (rule delete_session_effect[where t = "next_addr st"
          and ?n4.0 = "\<lparr>mn_key = si_t4 s, mn_tunnel = next_addr st, mn_ref_count = 1\<rparr>"
          and ?n5.0 = "\<lparr>mn_key = si_t5 s, mn_tunnel = next_addr st, mn_ref_count = 1\<rparr>"
          and ?n2.0 = "\<lparr>mn_key = t2, mn_tunnel = next_addr st, mn_ref_count = 1\<rparr>"
          and nu = "\<lparr>mn_key = si_ueip s, mn_tunnel = next_addr st, mn_ref_count = 1\<rparr>"
          and tn = "\<lparr>teid4_sgw_c = si_t4 s, teid5_sgw_u = si_t5 s, teid2_pgw_c = t2,
            teid3_pgw_u = None, ue_ip = si_ueip s, pgw_index = Some (of_nat i), tun_ref_count = Some 4\<rparr>",
          OF E(1) dist _ _ _ _ _ _ _ _ _ _ _ _ _ _ _ _ _ _ del])
      (use V ne in simp_all)
  also have "\<dots> = gtp_view st"
    using V fresh(1)[of 1] fresh(1)[of 2] fresh(1)[of 4] fresh(2)[of 3] fresh(3) ne
    by (simp add: gtp_view_def fun_eq_iff)
  finally show ?thesis .
qed

text \<open>Packets of a session that was announced go to the gateway that announced it.\<close>

lemma session_routes:
  assumes inv: "gtp_ok st" and fast: "pgw_fastpath st = 0"
    and scan: "scan_session_response h packet = Inr s" "ies_complete s"
    and pgw: "gtp_manager_find_pgw st (fl_nw_src (xc_flow ctx)) = int i"
    and src: "fl_nw_src (xc_flow ctx) \<noteq> 0" and dist: "distinct [si_t4 s, si_t5 s, t2]"
    and create: "create_session_response st ctx h t2 packet = Inr (st1, ctx1)"
  shows "k \<in> {si_t4 s, si_t5 s, t2} \<Longrightarrow>
      \<exists>st2. forward_teid st1 c k = Inr (st2, output_to_pgw c (pgw_list st ! i)) \<and> gtp_ok st2"
    and "\<exists>st2. forward_ueip st1 c (si_ueip s) = Inr (st2, output_to_sgi c (pgw_list st ! i)) \<and> gtp_ok st2"
proof -
  note E = create_session_effect[OF inv fast scan pgw dist create]
  note V = E(2)[unfolded gtp_view_def prod.inject]
  from dist have ne: "si_t4 s \<noteq> si_t5 s" "si_t5 s \<noteq> si_t4 s" "si_t4 s \<noteq> t2" "t2 \<noteq> si_t4 s"
    "si_t5 s \<noteq> t2" "t2 \<noteq> si_t5 s" by auto
  have i: "unat (of_nat i :: u16) = i"
    using E(5) by (simp add: MAX_PGW_PER_NODE_def unat_of_nat take_bit_eq_mod)
  show "\<exists>st2. forward_teid st1 c k = Inr (st2, output_to_pgw c (pgw_list st ! i)) \<and> gtp_ok st2"
    if "k \<in> {si_t4 s, si_t5 s, t2}"
    using E(1)
  proof (cases rule: forward_teid_cases[where k = k and ctx = c])
    case drop
    with that V ne show ?thesis by auto
  next
    case (found a rest n tn j st')
    from that consider "k = si_t4 s" | "k = si_t5 s" | "k = t2" by blast
    then have "a \<in> {next_addr st + 1, next_addr st + 2, next_addr st + 4}"
      using found(1) V ne by cases auto
    with found(2) V have "mn_tunnel n = next_addr st" by auto
    with found(3,4) V have "j = of_nat i" by auto
    with found(5,6) E(3,6) i src show ?thesis by simp
  qed
  show "\<exists>st2. forward_ueip st1 c (si_ueip s) = Inr (st2, output_to_sgi c (pgw_list st ! i)) \<and> gtp_ok st2"
    using E(1)
  proof (cases rule: forward_ueip_cases[where k = "si_ueip s" and ctx = c])
    case drop
    with V show ?thesis by auto
  next
    case (found a rest n tn j st')
    then have "a = next_addr st + 3" using V by auto
    with found(2) V have "mn_tunnel n = next_addr st" by auto
    with found(3,4) V have "j = of_nat i" by auto
    with found(5,6) E(3,6) i src show ?thesis by simp
  qed
qed

lemma output_to_pgw_plain:
  assumes "plain_port (xc_flow ctx) (gtp_pgw_port pgw)"
  shows "xc_calls (output_to_pgw ctx pgw) = xc_calls ctx @
    [(compose_output_action (gtp_pgw_port pgw),
      (xc_flow ctx)\<lparr>fl_nw_dst := gtp_pgw_ip pgw, fl_dl_dst := gtp_pgw_eth pgw\<rparr>)]"
  using assms by (simp add: output_to_pgw_def Let_def xlate_output_plain plain_port_def)

section \<open>The list of gateways\<close>

lemma gtp_ok_config:
  assumes "gtp_ok st"
  shows "gtp_ok (gtp_manager_set_params st a b c d)" and "gtp_ok (gtp_manager_del_pgw st ip)"
    and "gtp_manager_add_pgw st ip port eth sp se = Inr st' \<Longrightarrow> gtp_ok st'"
proof -
  show "gtp_ok (gtp_manager_set_params st a b c d)"
    using assms by (simp add: gtp_manager_set_params_def gtp_inv_def)
  show "gtp_ok (gtp_manager_del_pgw st ip)"
    using assms by (simp add: gtp_manager_del_pgw_def gtp_inv_def split: option.splits)
  assume run: "gtp_manager_add_pgw st ip port eth sp se = Inr st'"
  have "unat (pgw_end st + 1) \<le> MAX_PGW_PER_NODE" if "unat (pgw_end st) < MAX_PGW_PER_NODE"
    using that by (simp add: MAX_PGW_PER_NODE_def unat_word_ariths)
  with run assms show "gtp_ok st'"
    by (auto simp: gtp_manager_add_pgw_def gtp_inv_def Let_def split: option.splits if_splits)
qed

lemma find_pgw_iff:
  "gtp_manager_find_pgw st ip = int i \<longleftrightarrow> pgw_first st 0 (\<lambda>p. gtp_pgw_ip p = ip) = Some i"
  by (auto simp: gtp_manager_find_pgw_def split: option.splits)

lemma pgw_first_Some:
  "pgw_first st from P = Some i \<longleftrightarrow>
     from \<le> i \<and> i < unat (pgw_end st) \<and> P (pgw_list st ! i) \<and>
     (\<forall>j. from \<le> j \<longrightarrow> j < i \<longrightarrow> \<not> P (pgw_list st ! j))"
proof
  assume "pgw_first st from P = Some i"
  from pgw_first_bound[OF this] show "from \<le> i \<and> i < unat (pgw_end st) \<and> P (pgw_list st ! i) \<and>
     (\<forall>j. from \<le> j \<longrightarrow> j < i \<longrightarrow> \<not> P (pgw_list st ! j))" by blast
next
  assume *: "from \<le> i \<and> i < unat (pgw_end st) \<and> P (pgw_list st ! i) \<and>
     (\<forall>j. from \<le> j \<longrightarrow> j < i \<longrightarrow> \<not> P (pgw_list st ! j))"
  show "pgw_first st from P = Some i"
  proof (cases "pgw_first st from P")
    case None
    with * show ?thesis by (auto simp: pgw_first_None)
  next
    case (Some j)
    note B = pgw_first_bound[OF Some]
    have "j = i" using B * by (metis linorder_neqE_nat)
    with Some show ?thesis by simp
  qed
qed

lemma add_pgw_find:
  assumes ok: "gtp_ok st" and ip: "ip \<noteq> 0" and new: "gtp_manager_find_pgw st ip = - 1"
    and add: "gtp_manager_add_pgw st ip port eth sp se = Inr st'"
  shows "\<exists>i < MAX_PGW_PER_NODE. gtp_manager_find_pgw st' ip = int i \<and>
    pgw_list st' ! i = \<lparr>gtp_pgw_port = port, gtp_pgw_eth = eth, pgw_sgi_port = sp,
      pgw_sgi_eth = se, gtp_pgw_ip = ip\<rparr> \<and>
    (\<forall>j < MAX_PGW_PER_NODE. j \<noteq> i \<longrightarrow> pgw_list st' ! j = pgw_list st ! j)"
proof -
  let ?pgw = "\<lparr>gtp_pgw_port = port, gtp_pgw_eth = eth, pgw_sgi_port = sp,
      pgw_sgi_eth = se, gtp_pgw_ip = ip\<rparr>"
  note D = gtp_invD(7,8)[OF ok]
  have none: "gtp_pgw_ip (pgw_list st ! j) \<noteq> ip" if "j < unat (pgw_end st)" for j
    using new that by (auto simp: gtp_manager_find_pgw_def pgw_first_None split: option.splits)
  obtain i where i: "pgw_list st' = (pgw_list st)[i := ?pgw]" "i < MAX_PGW_PER_NODE"
    "i < unat (pgw_end st')" "i \<le> unat (pgw_end st)"
  proof (cases "pgw_first st 0 (\<lambda>p. gtp_pgw_ip p = 0)")
    case None
    with add have less: "unat (pgw_end st) < MAX_PGW_PER_NODE"
      and st': "st' = st\<lparr>pgw_list := (pgw_list st)[unat (pgw_end st) := ?pgw], pgw_end := pgw_end st + 1\<rparr>"
      by (auto simp: gtp_manager_add_pgw_def Let_def split: if_splits)
    have "unat (pgw_end st + 1) = unat (pgw_end st) + 1"
      using less by (simp add: MAX_PGW_PER_NODE_def unat_word_ariths)
    with less st' that[of "unat (pgw_end st)"] show ?thesis by simp
  next
    case (Some i)
    with add have "st' = st\<lparr>pgw_list := (pgw_list st)[i := ?pgw]\<rparr>"
      by (simp add: gtp_manager_add_pgw_def Let_def)
    with pgw_first_bound[OF Some] D that[of i] show ?thesis by simp
  qed
  have "pgw_first st' 0 (\<lambda>p. gtp_pgw_ip p = ip) = Some i"
    using i D none by (auto simp: pgw_first_Some)
  with i D show ?thesis by (intro exI[of _ i]) (auto simp: find_pgw_iff)
qed

text \<open>The switch aborts when the 1025th live gateway is added.\<close>

lemma add_pgw_full:
  assumes ok: "gtp_ok st"
  shows "gtp_manager_add_pgw st ip port eth sp se = Inl Assert_Fail \<longleftrightarrow>
    unat (pgw_end st) = MAX_PGW_PER_NODE \<and> all_live st"
proof (cases "pgw_first st 0 (\<lambda>p. gtp_pgw_ip p = 0)")
  case None
  then have "all_live st" by (simp add: pgw_first_None all_live_def)
  with None gtp_invD(8)[OF ok] show ?thesis by (auto simp: gtp_manager_add_pgw_def Let_def)
next
  case (Some i)
  with pgw_first_bound(2,3)[OF Some] show ?thesis
    by (auto simp: gtp_manager_add_pgw_def all_live_def Let_def)
qed

text \<open>A slot that was freed is given to the next gateway that is added, so the tunnels that
  still name the slot by its index change hands.\<close>

lemma pgw_slot_reuse:
  assumes ok: "gtp_ok st" and live: "all_live st" and i: "gtp_manager_find_pgw st old_ip = int i"
  shows "\<exists>st'. gtp_manager_add_pgw (gtp_manager_del_pgw st old_ip) ip port eth sp se = Inr st' \<and>
    pgw_list st' ! i = \<lparr>gtp_pgw_port = port, gtp_pgw_eth = eth, pgw_sgi_port = sp,
      pgw_sgi_eth = se, gtp_pgw_ip = ip\<rparr> \<and> tunnels st' = tunnels st"
proof -
  from i have f: "pgw_first st 0 (\<lambda>p. gtp_pgw_ip p = old_ip) = Some i" by (simp add: find_pgw_iff)
  note B = pgw_first_bound[OF f]
  have len: "i < length (pgw_list st)" using B(2) gtp_invD(7,8)[OF ok] by simp
  let ?st = "gtp_manager_del_pgw st old_ip"
  have "pgw_first ?st 0 (\<lambda>p. gtp_pgw_ip p = 0) = Some i"
    using B live len by (auto simp: pgw_first_Some gtp_manager_del_pgw_def f all_live_def)
  with len show ?thesis by (simp add: gtp_manager_add_pgw_def gtp_manager_del_pgw_def f Let_def)
qed

section \<open>Packets that crash the switch, and memory that is lost\<close>

lemma delete_unknown_session:
  assumes "gtp_ok st" and "tab_chain teid_part (teid2pgw st) t2 = []"
  shows "delete_session_response st ctx t2 = Inl Null_Deref"
  using assms(1) by (cases rule: get_teid_cases[where k = t2])
    (use assms(2) in \<open>auto simp: delete_session_response_def\<close>)

text \<open>A session whose control TEID equals one of its other TEIDs cannot be deleted: the
  second deletion of the same key reads an uninitialised pointer.\<close>

lemma delete_session_same_teid:
  fixes st :: gtp_state
  assumes inv: "gtp_ok st" and chain: "tab_chain teid_part (teid2pgw st) k = [a]"
    and n: "nt_nodes (teid2pgw st) a = Some n" and tn: "tunnels st (mn_tunnel n) = Some tn"
    and same: "teid4_sgw_c tn = k" "teid5_sgw_u tn = k"
    and run: "delete_session_response st ctx k = Inr (st', ctx')"
  shows False
proof -
  from inv obtain s0 where g: "gtp_manager_get_teid_pgw st k = Inr (s0, Some a)"
    and s0: "s0 = st\<lparr>teid2pgw := (teid2pgw st)\<lparr>nt_nodes := (nt_nodes (teid2pgw st))
         (a \<mapsto> n\<lparr>mn_ref_count := mn_ref_count n + 1\<rparr>)\<rparr>\<rparr>"
    and i0: "gtp_inv s0 (Some a) None (\<lambda>_. 0)"
    by (cases rule: get_teid_cases[where k = k]) (use chain n in auto)
  have nt: "node_tunnel (teid2pgw s0) (tunnels s0) a = Inr tn" using tn by (simp add: s0 node_tunnel_def)
  from run[unfolded delete_session_response_def g rbind_simps prod.case of_option_simps nt same]
  obtain s1 s2 where r: "gtp_manager_del_teid_pgw s0 k = Inr s1" "gtp_manager_del_teid_pgw s1 k = Inr s2"
    by (auto simp: rbind_eq_Inr)
  have c: "tab_chain teid_part (teid2pgw s0) k = a # []"
    "nt_nodes (teid2pgw s0) a = Some (n\<lparr>mn_ref_count := mn_ref_count n + 1\<rparr>)"
    using chain by (simp_all add: s0 tab_chain_def)
  have "tab_chain teid_part (teid2pgw s1) k = []" using del_teid_effect(1)[OF i0 r(1) c] by simp
  from teid.del_node_none[OF gtp_invD(1)[OF del_teid_ok[OF i0 r(1)]] this] r(2)
  show False by (simp add: gtp_manager_del_teid_pgw_def)
qed

lemma handle_initial_unset:
  "ovs_total st = 0 \<Longrightarrow> handle_initial st ctx h = Inl Div_By_Zero"
  by (simp add: handle_initial_def)

text \<open>A UDP datagram without payload is enough to crash the parser.\<close>

lemma parse_empty_payload:
  assumes "dp_packet_get_udp_payload packet = Some (dp_packet_size packet)"
  shows "parse_gtpc_msg_header packet = Inl Null_Deref" and "parse_gtpu_message packet = Inl Null_Deref"
  using assms by (simp_all add: parse_gtpc_msg_header_def parse_gtpu_message_def read_u8_def dp_packet_at_def)

text \<open>No operation on the tables allocates or frees a message header.\<close>

lemma hdr_live_tables:
  "gtp_manager_get_teid_pgw st k = Inr (st', r) \<Longrightarrow> hdr_live st' = hdr_live st"
  "gtp_manager_get_ueip_pgw st k = Inr (st', r) \<Longrightarrow> hdr_live st' = hdr_live st"
  "gtp_manager_put_teid_pgw st k t = Inr st' \<Longrightarrow> hdr_live st' = hdr_live st"
  "gtp_manager_put_ueip_pgw st k t = Inr st' \<Longrightarrow> hdr_live st' = hdr_live st"
  "gtp_manager_del_teid_pgw st k = Inr st' \<Longrightarrow> hdr_live st' = hdr_live st"
  "gtp_manager_del_ueip_pgw st k = Inr st' \<Longrightarrow> hdr_live st' = hdr_live st"
  "unref_teid_node st a = Inr st' \<Longrightarrow> hdr_live st' = hdr_live st"
  "unref_ueip_node st a = Inr st' \<Longrightarrow> hdr_live st' = hdr_live st"
  by (auto simp: gtp_manager_get_teid_pgw_def gtp_manager_get_ueip_pgw_def
      gtp_manager_put_teid_pgw_def gtp_manager_put_ueip_pgw_def gtp_manager_del_teid_pgw_def
      gtp_manager_del_ueip_pgw_def unref_teid_node_def unref_ueip_node_def rbind_eq_Inr
      split: prod.splits)

lemma hdr_live_forward: "forward_teid st ctx k = Inr (st', ctx') \<Longrightarrow> hdr_live st' = hdr_live st"
  by (auto simp: forward_teid_def rbind_eq_Inr Let_def split: prod.splits option.splits
      dest!: hdr_live_tables)

lemma hdr_live_initial: "handle_initial st ctx h = Inr (st', ctx') \<Longrightarrow> hdr_live st' = hdr_live st"
  by (auto simp: handle_initial_def gtp_manager_get_pgw_def rbind_eq_Inr Let_def
      split: if_splits option.splits prod.splits)

lemma hdr_live_create:
  "create_session_response st ctx h t2 p = Inr (st', ctx') \<Longrightarrow> hdr_live st' = hdr_live st"
  by (auto simp: create_session_response_def put_session_def rbind_eq_Inr Let_def
      split: if_splits dest!: hdr_live_tables)

lemma hdr_live_delete: "delete_session_response st ctx t2 = Inr (st', ctx') \<Longrightarrow> hdr_live st' = hdr_live st"
  by (auto simp: delete_session_response_def rbind_eq_Inr split: prod.splits dest!: hdr_live_tables)

lemma hdr_live_gtpc: "handle_gtpc_message st ctx h p = Inr (st', ctx') \<Longrightarrow> hdr_live st' = hdr_live st"
  by (auto simp: handle_gtpc_message_def rbind_eq_Inr Let_def split: if_splits
      dest: hdr_live_forward hdr_live_initial hdr_live_create hdr_live_delete)

lemma hdr_live_gtpu: "handle_gtpu_message st ctx h = Inr (st', ctx') \<Longrightarrow> hdr_live st' = hdr_live st"
  by (auto simp: handle_gtpu_message_def split: if_splits dest: hdr_live_forward)

text \<open>Whether a header is lost depends on the version field of a GTP-C message only.\<close>

definition loses_header :: "xlate_ctx \<Rightarrow> bool" where
  "loses_header ctx \<longleftrightarrow> maybe_gtpc_message (xc_flow ctx) \<and>
     (\<exists>p. xc_packet ctx = Some p \<and> parse_gtpc_msg_header p = Inr None)"

lemma handle_gtp_headers:
  assumes run: "handle_gtp st ctx = Inr (st', ctx')"
  shows "hdr_live st' = hdr_live st + of_bool (loses_header ctx)"
proof (cases "xc_packet ctx")
  case None
  with run show ?thesis by (simp add: handle_gtp_def loses_header_def)
next
  case (Some p)
  let ?st = "st\<lparr>hdr_live := hdr_live st + 1\<rparr>"
  consider (c) "maybe_gtpc_message (xc_flow ctx)"
    | (u) "\<not> maybe_gtpc_message (xc_flow ctx)" "maybe_gtpu_message (xc_flow ctx)"
    | (other) "\<not> maybe_gtpc_message (xc_flow ctx)" "\<not> maybe_gtpu_message (xc_flow ctx)" by blast
  then show ?thesis
  proof cases
    case c
    with run Some obtain h where h: "parse_gtpc_msg_header p = Inr h"
      by (auto simp: handle_gtp_def rbind_eq_Inr)
    show ?thesis
    proof (cases h)
      case None
      with run Some c h show ?thesis by (auto simp: handle_gtp_def loses_header_def)
    next
      case (Some g)
      with run \<open>xc_packet ctx = Some p\<close> c h obtain s where
        "handle_gtpc_message ?st ctx g p = Inr (s, ctx')" "st' = s\<lparr>hdr_live := hdr_live s - 1\<rparr>"
        by (auto simp: handle_gtp_def rbind_eq_Inr Let_def)
      with hdr_live_gtpc[of ?st ctx g p s ctx'] Some h \<open>xc_packet ctx = Some p\<close> show ?thesis
        by (simp add: loses_header_def)
    qed
  next
    case u
    with run Some obtain h where h: "parse_gtpu_message p = Inr h"
      by (auto simp: handle_gtp_def rbind_eq_Inr)
    show ?thesis
    proof (cases h)
      case None
      with run Some u h show ?thesis by (auto simp: handle_gtp_def loses_header_def)
    next
      case (Some g)
      with run \<open>xc_packet ctx = Some p\<close> u h obtain s where
        "handle_gtpu_message ?st ctx g = Inr (s, ctx')" "st' = s\<lparr>hdr_live := hdr_live s - 1\<rparr>"
        by (auto simp: handle_gtp_def rbind_eq_Inr Let_def)
      with hdr_live_gtpu[of ?st ctx g s ctx'] u show ?thesis by (simp add: loses_header_def)
    qed
  next
    case other
    with run Some show ?thesis by (simp add: handle_gtp_def loses_header_def)
  qed
qed

end
