(* ===== verification/Gtp_Progress.thy ===== *)
theory Gtp_Progress
  imports Gtp_Behaviour
begin

text \<open>
  When the handlers return. A table whose maps still have their first bucket never has to
  rehash, so a session can be announced to a switch with empty partitions and withdrawn
  again, and the first packets through a switch that has just been configured get through.
\<close>

section \<open>Maps with one bucket\<close>

lemma one_bucket_limits:
  "cmap_limits m \<Longrightarrow> ci_mask m = 0 \<Longrightarrow> ci_max_n m = 4 \<and> ci_min_n m = 0"
  by (simp add: cmap_limits_def calc_max_n_def calc_min_n_def CMAP_MAX_LOAD_def CMAP_MIN_LOAD_def
      CMAP_K_def)

lemma cmap_insert_one_bucket:
  assumes inv: "cmap_inv m" and m0: "ci_mask m = 0" and e: "cmap_abs m = (\<lambda>h. [])"
  shows "\<exists>m'. cmap_insert m a h s = Inr (m', s) \<and> ci_mask m' = 0"
proof -
  have wf: "cmap_wf m" and lim: "ci_max_n m = 4" and n: "ci_n m = 0"
    using inv one_bucket_limits[of m] m0 e by (simp_all add: cmap_inv_def cmap_size_def unat_eq_0)
  have shape: "cmap_shape m" using wf by (simp add: cmap_wf_def)
  have b: "idx1 m h < nbuckets m" using bucket_idx_less[OF shape] by (simp add: idx1_def)
  have "tbl_chain (nbuckets m) (slot_at m) h' []" for h' using cmap_abs_chain[OF wf, of h'] by (simp add: e)
  then have "snd (slot_at m (idx1 m h) 0) = []"
    using b by (auto simp: tbl_chain_def tbl_live_def CMAP_K_def)
  then have "\<not> full m (idx1 m h)" by (auto simp: full_iff[OF shape b] CMAP_K_def intro!: exI[of _ 0])
  then obtain mid where mid: "cmap_try_insert m [a] h = Some mid"
    using cmap_try_insert_room[of m h] by blast
  have "ci_mask mid = 0"
    using cmap_try_insert_inserts[OF wf _ mid] m0 by (simp add: inserts_def same_config_def)
  with mid lim n show ?thesis by (simp add: cmap_insert_def insert_loop.simps)
qed

lemma cmap_remove_one_bucket:
  assumes inv: "cmap_inv m" and m0: "ci_mask m = 0" and node: "a \<in> set (cmap_abs m h)"
  shows "\<exists>m'. cmap_remove m a h s = Inr (m', s) \<and> ci_mask m' = 0"
proof -
  have wf: "cmap_wf m" and lim: "ci_min_n m = 0"
    using inv one_bucket_limits[of m] m0 by (simp_all add: cmap_inv_def)
  show ?thesis
  proof (cases rule: cmap_replace_cases[OF wf, of a None h s])
    case (3 c mid)
    then show ?thesis using lim m0 by (simp add: cmap_remove_def rechained_def same_config_def Let_def)
  qed (use node in \<open>auto simp: chain_replace_None\<close>)
qed

text \<open>The map that holds one node.\<close>

lemma one_node_map:
  "\<exists>(m :: 'n cmap_impl) m' s. cmap_init 1 = Inr (m, s) \<and> cmap_insert m a h s = Inr (m', s) \<and>
     cmap_inv m' \<and> ci_mask m' = 0 \<and> cmap_abs m' = (\<lambda>_. [])(h := [a])"
proof -
  obtain m :: "'n cmap_impl" and s where m: "cmap_init 1 = Inr (m, s)" using cmap_init_returns by blast
  note i = cmap_init_ok[OF m]
  have "ci_mask m = 0" using m by (auto simp: cmap_init_def dest: cmap_impl_create_zero)
  from cmap_insert_one_bucket[OF i(1) this i(2)] obtain m' where
    m': "cmap_insert m a h s = Inr (m', s)" "ci_mask m' = 0" by blast
  from cmap_insert_correct[OF i(1) m'(1)] m m' i(2) show ?thesis by auto
qed

section \<open>Tables\<close>

definition one_bucket :: "node_table \<Rightarrow> bool" where
  "one_bucket tab \<longleftrightarrow> (\<forall>m \<in> set (nt_maps tab). ci_mask m = 0)"

definition part_empty :: "node_table \<Rightarrow> nat \<Rightarrow> bool" where
  "part_empty tab p \<longleftrightarrow> cmap_abs (nt_maps tab ! p) = (\<lambda>h. [])"

context gtp_table
begin

lemma put_node_returns:
  assumes inv: "node_inv part tab H" and one: "one_bucket tab" and e: "part_empty tab (part k)"
  shows "\<exists>tab'. put_node part tab k t a s = Inr (tab', s) \<and> one_bucket tab' \<and>
    (\<forall>i. i \<noteq> part k \<longrightarrow> part_empty tab' i = part_empty tab i)"
proof -
  have k: "part k < length (nt_maps tab)" using node_invD(1)[OF inv] part_bound by simp
  then have "cmap_inv (nt_maps tab ! part k)" "ci_mask (nt_maps tab ! part k) = 0"
    using node_invD(2)[OF inv] one by (simp_all add: one_bucket_def)
  from cmap_insert_one_bucket[OF this e[unfolded part_empty_def]] obtain m' where
    "cmap_insert (nt_maps tab ! part k) a (key_hash k) s = Inr (m', s)" "ci_mask m' = 0" by blast
  then show ?thesis
    using one by (auto simp: put_node_def Let_def one_bucket_def part_empty_def
        dest!: set_update_subset_insert[THEN subsetD])
qed

lemma del_node_returns:
  assumes inv: "node_inv part tab H" and one: "one_bucket tab" and chain: "tab_chain part tab k \<noteq> []"
    and ok: "tun_ok nx tuns (\<lambda>t. tab_refs tab t + Q t)"
  shows "\<exists>tab' tuns' s'. del_node part tab tuns k s = Inr (tab', tuns', s') \<and> one_bucket tab'"
proof -
  obtain a rest where c: "tab_chain part tab k = a # rest" using chain by (cases "tab_chain part tab k") auto
  with node_invD(5)[OF inv, of a k] obtain n where n: "nt_nodes tab a = Some n" by auto
  have k: "part k < length (nt_maps tab)" using node_invD(1)[OF inv] part_bound by simp
  then have m: "cmap_inv (nt_maps tab ! part k)" "ci_mask (nt_maps tab ! part k) = 0"
    using node_invD(2)[OF inv] one by (simp_all add: one_bucket_def)
  have "a \<in> set (cmap_abs (nt_maps tab ! part k) (key_hash k))"
    using c by (simp add: tab_chain_def part_chain_def)
  from cmap_remove_one_bucket[OF m this] obtain m' where
    r: "cmap_remove (nt_maps tab ! part k) a (key_hash k) s = Inr (m', s)" "ci_mask m' = 0" by blast
  have "one_bucket (tab\<lparr>nt_maps := (nt_maps tab)[part k := m'], nt_nodes := f\<rparr>)" for f
    using one r(2) by (auto simp: one_bucket_def dest!: set_update_subset_insert[THEN subsetD])
  moreover obtain u where "unref_tunnel tuns (mn_tunnel n) = Inr u"
    using unref_tunnel_ok[OF ok refs_pos[OF inv n]] by blast
  ultimately show ?thesis
    unfolding del_node_some[OF inv c n] r(1) by (cases "H = Some a") (simp_all add: Let_def)
qed

end

section \<open>Sessions\<close>

lemma put_teid_returns:
  assumes "gtp_inv st H U P" and "one_bucket (teid2pgw st)" and "part_empty (teid2pgw st) (teid_part k)"
  shows "\<exists>st'. gtp_manager_put_teid_pgw st k t = Inr st' \<and> one_bucket (teid2pgw st') \<and>
    (\<forall>i. i \<noteq> teid_part k \<longrightarrow> part_empty (teid2pgw st') i = part_empty (teid2pgw st) i)"
  using teid.put_node_returns[OF gtp_invD(1)[OF assms(1)] assms(2,3), of t "next_addr st" "rand_seed st"]
  by (auto simp: gtp_manager_put_teid_pgw_def)

lemma put_ueip_returns:
  assumes "gtp_inv st H U P" and "one_bucket (ueip2pgw st)" and "part_empty (ueip2pgw st) (ueip_part k)"
  shows "\<exists>st'. gtp_manager_put_ueip_pgw st k t = Inr st' \<and> one_bucket (ueip2pgw st')"
  using ueip.put_node_returns[OF gtp_invD(2)[OF assms(1)] assms(2,3), of t "next_addr st" "rand_seed st"]
  by (auto simp: gtp_manager_put_ueip_pgw_def)

lemma del_teid_returns:
  assumes "gtp_inv st H U P" and "one_bucket (teid2pgw st)" and "tab_chain teid_part (teid2pgw st) k \<noteq> []"
  shows "\<exists>st'. gtp_manager_del_teid_pgw st k = Inr st' \<and> one_bucket (teid2pgw st')"
  using teid.del_node_returns[OF gtp_invD(1)[OF assms(1)] assms(2,3) gtp_invD(3)[OF assms(1)], of "rand_seed st"]
  by (auto simp: gtp_manager_del_teid_pgw_def)

lemma del_ueip_returns:
  assumes "gtp_inv st H U P" and "one_bucket (ueip2pgw st)" and "tab_chain ueip_part (ueip2pgw st) k \<noteq> []"
  shows "\<exists>st'. gtp_manager_del_ueip_pgw st k = Inr st' \<and> one_bucket (ueip2pgw st')"
  using ueip.del_node_returns[OF gtp_invD(2)[OF assms(1)] assms(2,3) gtp_invD(4)[OF assms(1)], of "rand_seed st"]
  by (auto simp: gtp_manager_del_ueip_pgw_def)

text \<open>Room for a session: one bucket everywhere, and the partitions of its four keys are
  empty and different where they lie in the same table.\<close>

definition session_room :: "gtp_state \<Rightarrow> session_ies \<Rightarrow> u32 \<Rightarrow> bool" where
  "session_room st s t2 \<longleftrightarrow>
     one_bucket (teid2pgw st) \<and> one_bucket (ueip2pgw st) \<and>
     distinct [teid_part (si_t4 s), teid_part (si_t5 s), teid_part t2] \<and>
     (\<forall>k \<in> {si_t4 s, si_t5 s, t2}. part_empty (teid2pgw st) (teid_part k)) \<and>
     part_empty (ueip2pgw st) (ueip_part (si_ueip s))"

lemma put_session_returns:
  assumes inv: "gtp_inv st None None ((\<lambda>_. 0)(t := 4))" and room: "session_room st s t2"
  shows "\<exists>st'. put_session st (si_t4 s) (si_t5 s) (si_ueip s) t2 t = Inr st' \<and>
    one_bucket (teid2pgw st') \<and> one_bucket (ueip2pgw st')"
proof -
  note R = room[unfolded session_room_def]
  obtain s1 where s1: "gtp_manager_put_teid_pgw st (si_t4 s) t = Inr s1" "one_bucket (teid2pgw s1)"
    "\<And>i. i \<noteq> teid_part (si_t4 s) \<Longrightarrow> part_empty (teid2pgw s1) i = part_empty (teid2pgw st) i"
    using put_teid_returns[OF inv, of "si_t4 s" t] R by auto
  note P1 = put_teid_ok[OF inv _ s1(1), simplified]
  obtain s2 where s2: "gtp_manager_put_teid_pgw s1 (si_t5 s) t = Inr s2" "one_bucket (teid2pgw s2)"
    "\<And>i. i \<noteq> teid_part (si_t5 s) \<Longrightarrow> part_empty (teid2pgw s2) i = part_empty (teid2pgw s1) i"
    using put_teid_returns[OF P1(1), of "si_t5 s" t] R s1 by auto
  note P2 = put_teid_ok[OF P1(1) _ s2(1), simplified]
  obtain s3 where s3: "gtp_manager_put_ueip_pgw s2 (si_ueip s) t = Inr s3" "one_bucket (ueip2pgw s3)"
    using put_ueip_returns[OF P2(1), of "si_ueip s" t] R P1(4) P2(4) by auto
  note P3 = put_ueip_ok[OF P2(1) _ s3(1), simplified]
  obtain s4 where s4: "gtp_manager_put_teid_pgw s3 t2 t = Inr s4" "one_bucket (teid2pgw s4)"
    using put_teid_returns[OF P3(1), of t2 t] R s1(3) s2(2,3) P3(4) by auto
  have "one_bucket (ueip2pgw s4)" using put_teid_ok(4)[OF P3(1) _ s4(1)] s3(2) by simp
  with s1 s2 s3 s4 show ?thesis by (simp add: put_session_def)
qed

lemma create_session_returns:
  assumes inv: "gtp_ok st" and fast: "pgw_fastpath st = 0"
    and scan: "scan_session_response h packet = Inr s" "ies_complete s"
    and pgw: "gtp_manager_find_pgw st (fl_nw_src (xc_flow ctx)) = int i"
    and room: "session_room st s t2"
  shows "\<exists>st1 ctx1. create_session_response st ctx h t2 packet = Inr (st1, ctx1) \<and>
    one_bucket (teid2pgw st1) \<and> one_bucket (ueip2pgw st1)"
proof -
  have "gtp_manager_find_pgw st (fl_nw_src (xc_flow ctx)) \<noteq> - 1" using pgw by simp
  from find_pgw_bound[OF inv this] pgw have i: "i < MAX_PGW_PER_NODE" by auto
  let ?tn = "\<lparr>teid4_sgw_c = si_t4 s, teid5_sgw_u = si_t5 s, teid2_pgw_c = t2, teid3_pgw_u = None,
      ue_ip = si_ueip s, pgw_index = Some (of_nat i :: u16), tun_ref_count = Some 4\<rparr>"
  let ?st = "st\<lparr>next_addr := next_addr st + 1, tunnels := (tunnels st)(next_addr st \<mapsto> ?tn)\<rparr>"
  have "unat (of_nat i :: u16) < MAX_PGW_PER_NODE"
    using i by (simp add: MAX_PGW_PER_NODE_def unat_of_nat take_bit_eq_mod)
  then have P: "gtp_inv ?st None None ((\<lambda>_. 0)(next_addr st := 4))"
    by (intro gtp_inv_alloc[OF inv]) auto
  have "session_room ?st s t2" using room by (simp add: session_room_def)
  from put_session_returns[OF P this] obtain st' where
    "put_session ?st (si_t4 s) (si_t5 s) (si_ueip s) t2 (next_addr st) = Inr st'"
    "one_bucket (teid2pgw st')" "one_bucket (ueip2pgw st')" by blast
  then show ?thesis using scan fast pgw by (simp add: create_session_response_def Let_def)
qed

text \<open>Withdrawing a session whose three TEIDs and user address are all in the tables.\<close>

lemma delete_session_returns:
  assumes inv: "gtp_ok st" and one: "one_bucket (teid2pgw st)" "one_bucket (ueip2pgw st)"
    and chain: "tab_chain teid_part (teid2pgw st) t2 = a # rest" and n: "nt_nodes (teid2pgw st) a = Some n"
    and tn: "tunnels st (mn_tunnel n) = Some tn" and dist: "distinct [teid4_sgw_c tn, teid5_sgw_u tn, t2]"
    and c: "tab_chain teid_part (teid2pgw st) (teid4_sgw_c tn) \<noteq> []"
      "tab_chain teid_part (teid2pgw st) (teid5_sgw_u tn) \<noteq> []" "tab_chain ueip_part (ueip2pgw st) (ue_ip tn) \<noteq> []"
  shows "\<exists>st' ctx'. delete_session_response st ctx t2 = Inr (st', ctx')"
proof -
  let ?c = "\<lambda>st. tab_chain teid_part (teid2pgw st)"
  obtain s0 where g: "gtp_manager_get_teid_pgw st t2 = Inr (s0, Some a)"
    and i0: "gtp_inv s0 (Some a) None (\<lambda>_. 0)"
    and s0: "nt_maps (teid2pgw s0) = nt_maps (teid2pgw st)" "ueip2pgw s0 = ueip2pgw st"
      "node_tunnel (teid2pgw s0) (tunnels s0) a = Inr tn"
    using inv by (cases rule: get_teid_cases[where k = t2]) (use chain n tn in \<open>auto simp: node_tunnel_def\<close>)
  have c0: "?c s0 = ?c st" "one_bucket (teid2pgw s0)" using s0(1) one by (simp_all add: tab_chain_def one_bucket_def)
  have step: "\<exists>s'. gtp_manager_del_teid_pgw s k = Inr s' \<and> one_bucket (teid2pgw s') \<and>
      (\<forall>k'. k' \<noteq> k \<longrightarrow> ?c s' k' = ?c s k') \<and> ueip2pgw s' = ueip2pgw s \<and> gtp_inv s' (Some a) None (\<lambda>_. 0)"
    if i: "gtp_inv s (Some a) None (\<lambda>_. 0)" and o: "one_bucket (teid2pgw s)" and ne: "?c s k \<noteq> []" for s k
  proof -
    obtain s' where s': "gtp_manager_del_teid_pgw s k = Inr s'" "one_bucket (teid2pgw s')"
      using del_teid_returns[OF i o ne] by blast
    obtain b r where b: "?c s k = b # r" using ne by (cases "?c s k") auto
    with node_invD(5)[OF gtp_invD(1)[OF i], of b k] obtain nb where "nt_nodes (teid2pgw s) b = Some nb" by auto
    from del_teid_effect[OF i s'(1) b this] s' del_teid_ok[OF i s'(1)] show ?thesis by simp
  qed
  obtain s1 where s1: "gtp_manager_del_teid_pgw s0 (teid4_sgw_c tn) = Inr s1" "one_bucket (teid2pgw s1)"
    "\<And>k'. k' \<noteq> teid4_sgw_c tn \<Longrightarrow> ?c s1 k' = ?c s0 k'" "ueip2pgw s1 = ueip2pgw s0" "gtp_inv s1 (Some a) None (\<lambda>_. 0)"
    using step[OF i0 c0(2), of "teid4_sgw_c tn"] c(1) c0(1) by auto
  obtain s2 where s2: "gtp_manager_del_teid_pgw s1 (teid5_sgw_u tn) = Inr s2" "one_bucket (teid2pgw s2)"
    "\<And>k'. k' \<noteq> teid5_sgw_u tn \<Longrightarrow> ?c s2 k' = ?c s1 k'" "ueip2pgw s2 = ueip2pgw s1" "gtp_inv s2 (Some a) None (\<lambda>_. 0)"
    using step[OF s1(5,2), of "teid5_sgw_u tn"] c(2) c0(1) s1(3) dist by auto
  obtain s3 where s3: "gtp_manager_del_ueip_pgw s2 (ue_ip tn) = Inr s3"
    using del_ueip_returns[OF s2(5), of "ue_ip tn"] c(3) one s1(4) s2(4) s0(2) by auto
  have u3: "teid2pgw s3 = teid2pgw s2"
    using s3 by (auto simp: gtp_manager_del_ueip_pgw_def rbind_eq_Inr split: prod.splits)
  note i3 = del_ueip_ok[OF s2(5) s3]
  obtain s4 where s4: "gtp_manager_del_teid_pgw s3 t2 = Inr s4" "gtp_inv s4 (Some a) None (\<lambda>_. 0)"
    using step[OF i3, of t2] u3 s2(2,3) s1(3) chain c0(1) dist by auto
  from unref_teid_ok[OF s4(2)] obtain s5 where "unref_teid_node s4 a = Inr s5" by blast
  with g s0(3) s1(1) s2(1) s3 s4(1) show ?thesis by (simp add: delete_session_response_def)
qed

text \<open>So a session that finds room comes and goes.\<close>

lemma session_cycle_returns:
  assumes inv: "gtp_ok st" and fast: "pgw_fastpath st = 0"
    and scan: "scan_session_response h packet = Inr s" "ies_complete s"
    and pgw: "gtp_manager_find_pgw st (fl_nw_src (xc_flow ctx)) = int i"
    and room: "session_room st s t2"
  shows "\<exists>st1 ctx1 st2 ctx3. create_session_response st ctx h t2 packet = Inr (st1, ctx1) \<and>
    delete_session_response st1 ctx2 t2 = Inr (st2, ctx3)"
proof -
  obtain st1 ctx1 where c: "create_session_response st ctx h t2 packet = Inr (st1, ctx1)"
    "one_bucket (teid2pgw st1)" "one_bucket (ueip2pgw st1)"
    using create_session_returns[OF assms] by blast
  have dist: "distinct [si_t4 s, si_t5 s, t2]" using room by (auto simp: session_room_def)
  note E = create_session_effect[OF inv fast scan pgw dist c(1)]
  note V = E(2)[unfolded gtp_view_def prod.inject]
  have "\<exists>st2 ctx3. delete_session_response st1 ctx2 t2 = Inr (st2, ctx3)"
    by (rule delete_session_returns[where a = "next_addr st + 4"
          and n = "\<lparr>mn_key = t2, mn_tunnel = next_addr st, mn_ref_count = 1\<rparr>"
          and rest = "tab_chain teid_part (teid2pgw st) t2"
          and tn = "\<lparr>teid4_sgw_c = si_t4 s, teid5_sgw_u = si_t5 s, teid2_pgw_c = t2,
            teid3_pgw_u = None, ue_ip = si_ueip s, pgw_index = Some (of_nat i), tun_ref_count = Some 4\<rparr>",
          OF E(1) c(2,3)])
      (use V dist in simp_all)
  with c(1) show ?thesis by blast
qed

end
