(* ===== verification/Gtp_Scenario.thy ===== *)
theory Gtp_Scenario
  imports Gtp_Progress
begin

text \<open>
  A concrete run that the general theorems are applied to: a switch that has been
  initialised and given one packet gateway, and a Create Session Response that this gateway
  sends through it.
\<close>

unbundle bit_operations_syntax

section \<open>A switch after initialisation\<close>

lemma init_maps_one_bucket:
  "init_maps k seed = Inr (ms1, ms2, seed') \<Longrightarrow> m \<in> set ms1 \<union> set ms2 \<Longrightarrow> ci_mask m = 0"
proof (induction k arbitrary: seed ms1 ms2 seed')
  case (Suc k)
  have "cmap_init s = Inr (q, s') \<Longrightarrow> ci_mask q = 0" for s s' and q :: "addr cmap_impl"
    by (auto simp: cmap_init_def dest: cmap_impl_create_zero)
  with Suc show ?case by (fastforce simp: rbind_eq_Inr)
qed simp

lemma gtp_manager_init_fields:
  assumes run: "gtp_manager_init (gtp_static seed) = Inr st"
  shows "gtp_ok st" and "pgw_end st = 0" and "pgw_current st = 0"
    and "pgw_list st = replicate MAX_PGW_PER_NODE
      \<lparr>gtp_pgw_port = 0, gtp_pgw_eth = 0, pgw_sgi_port = 0, pgw_sgi_eth = 0, gtp_pgw_ip = 0\<rparr>"
    and "one_bucket (teid2pgw st)" and "one_bucket (ueip2pgw st)"
    and "i < HASHMAP_PART_NUM \<Longrightarrow> part_empty (teid2pgw st) i"
    and "i < HASHMAP_PART_NUM \<Longrightarrow> part_empty (ueip2pgw st) i"
    and "hdr_live st = 0"
proof -
  obtain ms1 ms2 s where m: "init_maps HASHMAP_PART_NUM seed = Inr (ms1, ms2, s)"
    "length ms1 = HASHMAP_PART_NUM" "length ms2 = HASHMAP_PART_NUM"
    "\<forall>m \<in> set ms1 \<union> set ms2. cmap_inv m \<and> cmap_abs m = (\<lambda>h. [])"
    using init_maps_ok by blast
  from gtp_manager_init_ok[of seed] run show "gtp_ok st" by auto
  show "pgw_end st = 0" "pgw_current st = 0" "hdr_live st = 0" "pgw_list st = replicate MAX_PGW_PER_NODE
      \<lparr>gtp_pgw_port = 0, gtp_pgw_eth = 0, pgw_sgi_port = 0, pgw_sgi_eth = 0, gtp_pgw_ip = 0\<rparr>"
    using run m(1) by (auto simp: gtp_manager_init_def gtp_static_def)
  have maps: "nt_maps (teid2pgw st) = ms1" "nt_maps (ueip2pgw st) = ms2"
    using run m(1) by (auto simp: gtp_manager_init_def gtp_static_def)
  then show "one_bucket (teid2pgw st)" "one_bucket (ueip2pgw st)"
    using init_maps_one_bucket[OF m(1)] by (auto simp: one_bucket_def)
  show "i < HASHMAP_PART_NUM \<Longrightarrow> part_empty (teid2pgw st) i" "i < HASHMAP_PART_NUM \<Longrightarrow> part_empty (ueip2pgw st) i"
    using m(2-4) by (simp_all add: part_empty_def maps)
qed

definition booted :: gtp_state where
  "booted = projr (gtp_manager_init (gtp_static 1))"

lemma booted_run: "gtp_manager_init (gtp_static 1) = Inr booted"
  using gtp_manager_init_ok[of 1] by (auto simp: booted_def)

lemmas booted_fields [simp] = gtp_manager_init_fields[OF booted_run]

text \<open>Switch 0 of 1 with physical port 1 and the gateway 10.0.0.1 behind ports 3 and 4.\<close>

definition demo_pgw :: gtp_pgw_node where
  "demo_pgw = \<lparr>gtp_pgw_port = 3, gtp_pgw_eth = 0xAA, pgw_sgi_port = 4, pgw_sgi_eth = 0xBB,
               gtp_pgw_ip = 0x0100000A\<rparr>"

definition configured :: gtp_state where
  "configured = gtp_manager_set_params booted 0 1 1 0"

definition demo :: gtp_state where
  "demo = configured\<lparr>pgw_list := (pgw_list configured)[0 := demo_pgw], pgw_end := 1\<rparr>"

lemma configured_fields [simp]:
  "gtp_ok configured" "pgw_end configured = 0" "ovs_total configured = 1" "ovs_id configured = 0"
  using gtp_ok_config(1)[OF booted_fields(1), of 0 1 1 0]
  by (simp_all add: configured_def gtp_manager_set_params_def)

lemma demo_run:
  "gtp_manager_add_pgw configured 0x0100000A 3 0xAA 4 0xBB = Inr demo"
  by (simp add: gtp_manager_add_pgw_def Let_def pgw_first_def demo_def demo_pgw_def MAX_PGW_PER_NODE_def)

lemma demo_fields [simp]:
  "gtp_ok demo" "pgw_end demo = 1" "pgw_current demo = 0" "pgw_fastpath demo = 0" "ovs_phy_port demo = 1"
  "length (pgw_list demo) = MAX_PGW_PER_NODE" "pgw_list demo ! 0 = demo_pgw" "hdr_live demo = 0"
  using gtp_ok_config(3)[OF configured_fields(1) demo_run]
  by (simp_all add: demo_def configured_def gtp_manager_set_params_def MAX_PGW_PER_NODE_def)

lemma demo_find [simp]: "gtp_manager_find_pgw demo 0x0100000A = int 0"
  by (simp add: gtp_manager_find_pgw_def pgw_first_def demo_pgw_def)

lemma demo_all_live: "all_live demo"
  by (simp add: all_live_def demo_pgw_def)

section \<open>A Create Session Response\<close>

definition demo_ies :: "gtp_ie list" where
  "demo_ies = [Ie (87, 0, [0, 0, 0, 0, 4]), Ie (79, 0, [1, 10, 0, 0, 9]),
     Bearer_Context 0 [(73, 0, [5]), (87, 0, [0, 0, 0, 0, 5])]]"

definition demo_packet :: dp_packet where
  "demo_packet = \<lparr>pkt_data = replicate 42 0 @ wire_gtpc 33 40 2 7 0 @ wire_session demo_ies,
     pkt_l4_ofs = 34, pkt_l2_pad_size = 0\<rparr>"

definition demo_header :: gtpc_msg_header where
  "demo_header = \<lparr>gc_version = 2, gc_has_teid = True, gc_message_type = 33, gc_message_length = 40,
     gc_teid = Some 2, gc_seq_num = 7, gc_header_length = 12, gc_body_offset = 54\<rparr>"

definition demo_flow :: flow where
  "demo_flow = \<lparr>fl_in_port = 3, fl_dl_dst = 0, fl_dl_type = htons 0x0800, fl_nw_src = 0x0100000A,
     fl_nw_dst = 0, fl_nw_proto = 17, fl_tp_src = htons 2123, fl_tp_dst = htons 2123\<rparr>"

definition demo_ctx :: xlate_ctx where
  "demo_ctx = \<lparr>xc_flow = demo_flow, xc_wc_nw_dst = 0, xc_wc_dl_dst = 0,
     xc_packet = Some demo_packet, xc_calls = []\<rparr>"

text \<open>The same on a packet of version 0.\<close>

definition lost_ctx :: xlate_ctx where
  "lost_ctx = demo_ctx\<lparr>xc_packet := Some (demo_packet\<lparr>pkt_data := replicate 60 0\<rparr>)\<rparr>"

definition demo_session :: session_ies where
  "demo_session = \<lparr>si_t4 = 4, si_t5 = 5, si_ueip = 0x0900000A\<rparr>"

lemma demo_udp: "udp_packet demo_packet (replicate 42 0) (wire_gtpc 33 40 2 7 0 @ wire_session demo_ies)"
proof -
  have "dp_packet_get_udp_payload demo_packet = Some 42" by code_simp
  then show ?thesis by (simp add: udp_packet_def demo_packet_def)
qed

lemma demo_parse: "parse_gtpc_msg_header demo_packet = Inr (Some demo_header)"
  unfolding parse_gtpc_wire[OF demo_udp] by (simp add: demo_header_def)

lemma demo_scan: "scan_session_response demo_header demo_packet = Inr demo_session"
  by code_simp

lemma demo_complete: "ies_complete demo_session"
  by (simp add: ies_complete_def demo_session_def)

lemma demo_tables: "teid2pgw demo = teid2pgw booted" "ueip2pgw demo = ueip2pgw booted"
  by (simp_all add: demo_def configured_def gtp_manager_set_params_def)

lemma demo_room: "session_room demo demo_session 2"
  by (simp add: session_room_def demo_tables teid_part_bound ueip_part_bound)
    (simp add: demo_session_def teid_part_def)

lemma demo_src [simp]: "fl_nw_src (xc_flow demo_ctx) = 0x0100000A"
  by (simp add: demo_ctx_def demo_flow_def)

lemma demo_session_run:
  obtains st1 ctx1 st2 ctx3 where
    "create_session_response demo demo_ctx demo_header 2 demo_packet = Inr (st1, ctx1)"
    and "delete_session_response st1 demo_ctx 2 = Inr (st2, ctx3)"
  using session_cycle_returns[OF demo_fields(1) _ demo_scan demo_complete _ demo_room, of demo_ctx 0 demo_ctx] by auto

end
