(* ===== verification/Cmap_Protected.thy ===== *)
theory Cmap_Protected
  imports Gtp_Scenario
begin

text \<open>
  The lookup for writers, \<open>cmap_find_protected\<close>. It derives its second bucket from the client's
  hash instead of the rehashed one, so it agrees with \<open>cmap_find\<close> only on nodes that lie in their
  first bucket, or when the wrong second bucket happens to be the right one.
\<close>

lemma cmap_find_protected_agrees:
  assumes wf: "cmap_wf impl"
    and b: "cmap_find_in_bucket (ci_buckets impl ! idx1 impl hash) hash \<noteq> [] \<or>
      bucket_idx impl (other_hash hash) = idx2 impl hash"
  shows "cmap_find_protected impl hash = cmap_abs impl hash"
proof -
  have "cmap_find impl hash = Some (cmap_abs impl hash)"
    using wf by (simp add: cmap_wf_def cmap_find_abs)
  with b show ?thesis
    by (auto simp: cmap_find_def cmap_find_buckets_def cmap_find_protected_def Let_def
        cmap_find_bucket_protected_def idx1_def idx2_def split: option.splits if_splits)
qed

fun insert_all :: "('n \<times> u32) list \<Rightarrow> 'n cmap_impl \<times> u32 \<Rightarrow> ('n cmap_impl \<times> u32) result" where
  "insert_all [] m = Inr m"
| "insert_all ((x, h) # xs) m = rbind (cmap_insert (fst m) x h (snd m)) (insert_all xs)"

lemma insert_all_inv: "insert_all xs m = Inr m' \<Longrightarrow> cmap_inv (fst m) \<Longrightarrow> cmap_inv (fst m')"
proof (induction xs m rule: insert_all.induct)
  case (2 x h xs m)
  then obtain r where r: "cmap_insert (fst m) x h (snd m) = Inr r" "insert_all xs r = Inr m'"
    by (auto simp: rbind_eq_Inr)
  then have "cmap_inv (fst r)" using cmap_insert_correct(1)[of "fst m" x h "snd m" "fst r" "snd r"] 2(3) by simp
  with 2(1)[OF r(2)] show ?case .
qed simp

text \<open>Six nodes whose first bucket is the same one of two: the last has to use its second.\<close>

definition six_nodes :: "(nat cmap_impl \<times> u32) result" where
  "six_nodes = rbind (cmap_init 1) (insert_all [(3, 3), (5, 5), (8, 8), (10, 10), (11, 11), (1, 1)])"

lemma six_nodes_run: "\<exists>m s. six_nodes = Inr (m, s)"
proof -
  have "\<not> isl six_nodes" by code_simp
  then obtain r where "six_nodes = Inr r" by (metis isl_def sum.exhaust)
  then show ?thesis by (metis surj_pair)
qed

lemma six_nodes_inv: "cmap_inv (fst (projr six_nodes))"
proof -
  obtain m s where m: "six_nodes = Inr (m, s)" using six_nodes_run by blast
  obtain m0 :: "nat cmap_impl" and s0 where m0: "cmap_init 1 = Inr (m0, s0)" using cmap_init_returns by blast
  have "insert_all [(3, 3), (5, 5), (8, 8), (10, 10), (11, 11), (1, 1)] (m0, s0) = Inr (m, s)"
    using m m0 by (simp add: six_nodes_def del: insert_all.simps)
  from insert_all_inv[OF this] cmap_init_ok(1)[OF m0] show ?thesis unfolding m by simp
qed

lemma six_nodes_missed:
  "cmap_find (fst (projr six_nodes)) 1 = Some [1] \<and> cmap_find_protected (fst (projr six_nodes)) 1 = []"
  by code_simp

end
