(* ===== verification/Cmap_Iter.thy ===== *)
theory Cmap_Iter
  imports Cmap_Ops "HOL-Library.Multiset" "HOL-Library.Monad_Syntax"
begin

text \<open>
  Iteration over a concurrent map that does not change meanwhile: the cursor of \<^verbatim>\<open>CMAP_FOR_EACH\<close>, the
  positions of \<^verbatim>\<open>cmap_next_position()\<close>, and \<^verbatim>\<open>cmap_first()\<close>. A pointer to a node, with the chain behind it,
  is the rest of the chain that begins with the node; a null pointer is the empty list. Both iterations
  return and visit every node of the map exactly once.
\<close>

section \<open>The cursor\<close>

record 'n cmap_cursor =
  cc_impl :: "'n cmap_impl"
  cc_bucket_idx :: u32
  cc_entry_idx :: nat
  cc_node :: "'n list"

text \<open>The inner loop of \<open>cmap_cursor_advance()\<close>: the index behind the entry it stops at, and its chain.\<close>

function cursor_entries :: "'n cmap_bucket \<Rightarrow> nat \<Rightarrow> nat \<times> 'n list" where
  "cursor_entries b entry =
     (if entry < CMAP_K
      then let node = snd (cb_slots b ! entry)
           in if node \<noteq> [] then (entry + 1, node) else cursor_entries b (entry + 1)
      else (entry, []))"
  by pat_completeness auto
termination by (relation "measure (\<lambda>(b, entry). CMAP_K - entry)") auto

declare cursor_entries.simps [simp del]

text \<open>The outer loop. Its index wraps around, so that over 2^32 empty buckets it would not end.\<close>

partial_function (option) cursor_buckets :: "'n cmap_cursor \<Rightarrow> 'n cmap_cursor option" where
  "cursor_buckets cursor =
     (if cc_bucket_idx cursor \<le> ci_mask (cc_impl cursor)
      then case cursor_entries (ci_buckets (cc_impl cursor) ! unat (cc_bucket_idx cursor)) (cc_entry_idx cursor) of
             (entry, node) \<Rightarrow>
               if node \<noteq> [] then Some (cursor\<lparr>cc_entry_idx := entry, cc_node := node\<rparr>)
               else cursor_buckets (cursor\<lparr>cc_bucket_idx := cc_bucket_idx cursor + 1, cc_entry_idx := 0, cc_node := []\<rparr>)
      else Some cursor)"

definition cmap_cursor_advance :: "'n cmap_cursor \<Rightarrow> 'n cmap_cursor option" where
  "cmap_cursor_advance cursor =
     (if cc_node cursor \<noteq> [] \<and> tl (cc_node cursor) \<noteq> [] then Some (cursor\<lparr>cc_node := tl (cc_node cursor)\<rparr>)
      else cursor_buckets (cursor\<lparr>cc_node := []\<rparr>))"

definition cmap_cursor_start :: "'n cmap_impl \<Rightarrow> 'n cmap_cursor option" where
  "cmap_cursor_start impl =
     cmap_cursor_advance \<lparr>cc_impl = impl, cc_bucket_idx = 0, cc_entry_idx = 0, cc_node = []\<rparr>"

text \<open>The loop \<^verbatim>\<open>CMAP_CURSOR_FOR_EACH_CONTINUE\<close> that only notes the nodes it visits. The macro advances the
  cursor before the body runs.\<close>

partial_function (option) for_each_continue :: "'n cmap_cursor \<Rightarrow> 'n list option" where
  "for_each_continue cursor =
     (if cc_node cursor = [] then Some []
      else Option.bind (cmap_cursor_advance cursor) (\<lambda>cursor'.
           Option.bind (for_each_continue cursor') (\<lambda>visited. Some (hd (cc_node cursor) # visited))))"

definition cmap_for_each :: "'n cmap_impl \<Rightarrow> 'n list option" where
  "cmap_for_each impl = Option.bind (cmap_cursor_start impl) for_each_continue"

section \<open>Positions\<close>

record cmap_position =
  cp_bucket :: u32
  cp_entry :: u32
  cp_offset :: u32

text \<open>The loop over a chain: the rest of it from the node at the offset on.\<close>

fun position_chain :: "u32 \<Rightarrow> u32 \<Rightarrow> 'n list \<Rightarrow> 'n list" where
  "position_chain i offset [] = []"
| "position_chain i offset (node # nodes) =
     (if i = offset then node # nodes else position_chain (i + 1) offset nodes)"

lemma entry_step:
  assumes "(entry :: u32) < of_nat CMAP_K"
  shows "unat entry < CMAP_K" and "unat (entry + 1) = Suc (unat entry)"
    and "CMAP_K - unat (entry + 1) < CMAP_K - unat entry"
proof -
  show less: "unat entry < CMAP_K" using assms by (simp add: word_less_nat_alt CMAP_K_def)
  show step: "unat (entry + 1) = Suc (unat entry)" using assms by (rule unat_Suc_below)
  from less step show "CMAP_K - unat (entry + 1) < CMAP_K - unat entry" by simp
qed

text \<open>The loop over a bucket: the entry and offset to go on with, and the node with its successors.\<close>

function position_entries :: "'n cmap_bucket \<Rightarrow> u32 \<Rightarrow> u32 \<Rightarrow> u32 \<times> u32 \<times> 'n list" where
  "position_entries b entry offset =
     (if entry < of_nat CMAP_K
      then let node = position_chain 0 offset (snd (cb_slots b ! unat entry))
           in if node \<noteq> []
              then if tl node \<noteq> [] then (entry, offset + 1, node) else (entry + 1, 0, node)
              else position_entries b (entry + 1) 0
      else (entry, offset, []))"
  by pat_completeness auto
termination by (relation "measure (\<lambda>(b, entry, offset). CMAP_K - unat entry)") (auto simp: entry_step(3))

declare position_entries.simps [simp del]

partial_function (option) position_buckets ::
    "'n cmap_impl \<Rightarrow> u32 \<Rightarrow> u32 \<Rightarrow> u32 \<Rightarrow> ('n option \<times> cmap_position) option" where
  "position_buckets impl bucket entry offset =
     (if bucket \<le> ci_mask impl
      then case position_entries (ci_buckets impl ! unat bucket) entry offset of
             (entry, offset, node) \<Rightarrow>
               if node \<noteq> []
               then Some (Some (hd node), \<lparr>cp_bucket = bucket, cp_entry = entry, cp_offset = offset\<rparr>)
               else position_buckets impl (bucket + 1) 0 0
      else Some (None, \<lparr>cp_bucket = 0, cp_entry = 0, cp_offset = 0\<rparr>))"

definition cmap_next_position :: "'n cmap_impl \<Rightarrow> cmap_position \<Rightarrow> ('n option \<times> cmap_position) option" where
  "cmap_next_position impl pos = position_buckets impl (cp_bucket pos) (cp_entry pos) (cp_offset pos)"

definition cmap_first :: "'n cmap_impl \<Rightarrow> 'n option option" where
  "cmap_first impl = map_option fst (cmap_next_position impl \<lparr>cp_bucket = 0, cp_entry = 0, cp_offset = 0\<rparr>)"

text \<open>Calling \<open>cmap_next_position()\<close> until it returns a null pointer: the nodes and the last position.\<close>

partial_function (option) position_loop :: "'n cmap_impl \<Rightarrow> cmap_position \<Rightarrow> ('n list \<times> cmap_position) option" where
  "position_loop impl pos =
     Option.bind (cmap_next_position impl pos) (\<lambda>(node, pos').
       case node of
         None \<Rightarrow> Some ([], pos')
       | Some n \<Rightarrow> Option.bind (position_loop impl pos') (\<lambda>(visited, pos''). Some (n # visited, pos'')))"

section \<open>The nodes that are still to come\<close>

definition bucket_nodes :: "'n cmap_bucket \<Rightarrow> nat \<Rightarrow> 'n list" where
  "bucket_nodes b entry = concat (map snd (drop entry (cb_slots b)))"

definition nodes_from :: "'n cmap_impl \<Rightarrow> nat \<Rightarrow> 'n list" where
  "nodes_from impl k = concat (map (\<lambda>b. bucket_nodes b 0) (drop k (ci_buckets impl)))"

definition all_nodes :: "'n cmap_impl \<Rightarrow> 'n list" where
  "all_nodes impl = concat (map snd (slots_of impl))"

lemma bucket_nodes_end: "length (cb_slots b) \<le> entry \<Longrightarrow> bucket_nodes b entry = []"
  by (simp add: bucket_nodes_def)

lemma bucket_nodes_step:
  "entry < length (cb_slots b) \<Longrightarrow> bucket_nodes b entry = snd (cb_slots b ! entry) @ bucket_nodes b (Suc entry)"
  by (simp add: bucket_nodes_def Cons_nth_drop_Suc[symmetric])

lemma nodes_from_step:
  "k < nbuckets impl \<Longrightarrow> nodes_from impl k = bucket_nodes (ci_buckets impl ! k) 0 @ nodes_from impl (Suc k)"
  by (simp add: nodes_from_def Cons_nth_drop_Suc[symmetric])

lemma nodes_from_end: "nbuckets impl \<le> k \<Longrightarrow> nodes_from impl k = []"
  by (simp add: nodes_from_def)

lemma nodes_from_0: "nodes_from impl 0 = all_nodes impl"
proof -
  have "concat (map (\<lambda>b. concat (map snd (cb_slots b))) bs) = concat (map snd (concat (map cb_slots bs)))"
    for bs :: "'a cmap_bucket list" by (induction bs) auto
  then show ?thesis by (simp add: nodes_from_def all_nodes_def slots_of_def bucket_nodes_def)
qed

text \<open>A table over which an index of 32 bits can run.\<close>

definition indexable :: "'n cmap_impl \<Rightarrow> bool" where
  "indexable impl \<longleftrightarrow> cmap_shape impl \<and> ci_mask impl + 1 \<noteq> 0"

lemma indexable_step:
  assumes "indexable impl" and "k \<le> ci_mask impl"
  shows "unat (k + 1) = Suc (unat k)" and "unat k < nbuckets impl"
  using assms unat_Suc_upto[OF assms(2)]
  by (simp_all add: indexable_def cmap_shape_def word_le_nat_alt less_Suc_eq_le)

lemma indexable_end: "indexable impl \<Longrightarrow> \<not> k \<le> ci_mask impl \<Longrightarrow> nbuckets impl \<le> unat k"
  by (simp add: indexable_def cmap_shape_def word_le_nat_alt)

lemma cmap_inv_indexable: "cmap_inv impl \<Longrightarrow> indexable impl"
  by (auto simp: indexable_def cmap_inv_def cmap_wf_def cmap_limits_mask)

section \<open>Iteration with a cursor\<close>

lemma cursor_entries_rest:
  "length (cb_slots b) = CMAP_K \<Longrightarrow> cursor_entries b entry = (entry', node) \<Longrightarrow>
     bucket_nodes b entry = (if node = [] then [] else node @ bucket_nodes b entry')"
proof (induction b entry rule: cursor_entries.induct)
  case (1 b entry)
  show ?case
  proof (cases "entry < CMAP_K")
    case True
    then have "bucket_nodes b entry = snd (cb_slots b ! entry) @ bucket_nodes b (Suc entry)"
      using 1 bucket_nodes_step by metis
    with 1 True show ?thesis by (auto simp: cursor_entries.simps[of b entry] Let_def split: if_splits)
  next
    case False
    with 1 show ?thesis by (auto simp: cursor_entries.simps[of b entry] bucket_nodes_end)
  qed
qed

definition cursor_rest :: "'n cmap_cursor \<Rightarrow> 'n list" where
  "cursor_rest c =
     (if cc_bucket_idx c \<le> ci_mask (cc_impl c)
      then bucket_nodes (ci_buckets (cc_impl c) ! unat (cc_bucket_idx c)) (cc_entry_idx c) @
           nodes_from (cc_impl c) (Suc (unat (cc_bucket_idx c)))
      else [])"

lemma cursor_rest_node [simp]: "cursor_rest (c\<lparr>cc_node := ns\<rparr>) = cursor_rest c"
  by (simp add: cursor_rest_def)

text \<open>A cursor that has the nodes \<open>ns\<close> still to visit.\<close>

definition cursor_at :: "'n cmap_impl \<Rightarrow> 'n list \<Rightarrow> 'n cmap_cursor \<Rightarrow> bool" where
  "cursor_at impl ns c \<longleftrightarrow>
     cc_impl c = impl \<and> ns = cc_node c @ cursor_rest c \<and> (cc_node c = [] \<longrightarrow> ns = [])"

lemma cursor_buckets_at:
  assumes "indexable (cc_impl c)" and "cc_node c = []"
  shows "\<exists>c'. cursor_buckets c = Some c' \<and> cursor_at (cc_impl c) (cursor_rest c) c'"
  using assms
proof (induction "nbuckets (cc_impl c) - unat (cc_bucket_idx c)" arbitrary: c rule: less_induct)
  case (less c)
  let ?impl = "cc_impl c" and ?k = "cc_bucket_idx c"
  let ?b = "ci_buckets ?impl ! unat ?k"
  show ?case
  proof (cases "?k \<le> ci_mask ?impl")
    case False
    with less.prems show ?thesis by (simp add: cursor_buckets.simps[of c] cursor_at_def cursor_rest_def)
  next
    case True
    note k = indexable_step[OF less.prems(1) True]
    obtain entry node where e: "cursor_entries ?b (cc_entry_idx c) = (entry, node)" by fastforce
    have "length (cb_slots ?b) = CMAP_K"
      using less.prems(1) k(2) cmap_shape_bucket by (auto simp: indexable_def)
    note rest = cursor_entries_rest[OF this e]
    show ?thesis
    proof (cases "node = []")
      case False
      with True e rest show ?thesis
        by (simp add: cursor_buckets.simps[of c] cursor_at_def cursor_rest_def)
    next
      case node: True
      let ?c = "c\<lparr>cc_bucket_idx := ?k + 1, cc_entry_idx := 0, cc_node := []\<rparr>"
      have "cursor_rest ?c = nodes_from ?impl (Suc (unat ?k))"
        using k indexable_end[OF less.prems(1), of "?k + 1"] nodes_from_end[of ?impl "Suc (unat ?k)"]
          indexable_step(2)[OF less.prems(1), of "?k + 1"] nodes_from_step[of "Suc (unat ?k)" ?impl]
        by (auto simp: cursor_rest_def)
      with rest node True have r: "cursor_rest ?c = cursor_rest c" by (simp add: cursor_rest_def)
      have "cursor_buckets c = cursor_buckets ?c"
        using True e node by (simp add: cursor_buckets.simps[of c])
      with less.hyps[of ?c] less.prems(1) k r show ?thesis by simp
    qed
  qed
qed

lemma cmap_cursor_advance_at:
  assumes "indexable impl" and "cursor_at impl (n # ns) c"
  shows "hd (cc_node c) = n" and "\<exists>c'. cmap_cursor_advance c = Some c' \<and> cursor_at impl ns c'"
proof -
  from assms(2) have impl: "cc_impl c = impl" and node: "cc_node c \<noteq> []" and ns: "n # ns = cc_node c @ cursor_rest c"
    by (auto simp: cursor_at_def)
  then obtain rest where c: "cc_node c = n # rest" by (cases "cc_node c") auto
  then show "hd (cc_node c) = n" by simp
  show "\<exists>c'. cmap_cursor_advance c = Some c' \<and> cursor_at impl ns c'"
  proof (cases "rest = []")
    case True
    with cursor_buckets_at[of "c\<lparr>cc_node := []\<rparr>"] assms(1) impl c ns show ?thesis
      by (simp add: cmap_cursor_advance_def)
  next
    case False
    with c ns impl show ?thesis by (simp add: cmap_cursor_advance_def cursor_at_def)
  qed
qed

lemma for_each_continue_at:
  "indexable impl \<Longrightarrow> cursor_at impl ns c \<Longrightarrow> for_each_continue c = Some ns"
proof (induction ns arbitrary: c)
  case Nil
  then show ?case by (simp add: for_each_continue.simps[of c] cursor_at_def)
next
  case (Cons n ns)
  from cmap_cursor_advance_at[OF Cons.prems] Cons.IH[OF Cons.prems(1)] Cons.prems(2) show ?case
    by (auto simp: for_each_continue.simps[of c] cursor_at_def)
qed

lemma cmap_for_each_all: 
  assumes "indexable impl"
  shows "cmap_for_each impl = Some (all_nodes impl)"
proof -
  let ?c = "\<lparr>cc_impl = impl, cc_bucket_idx = 0, cc_entry_idx = 0, cc_node = []\<rparr>"
  have "nbuckets impl > 0" using assms by (simp add: indexable_def cmap_shape_def)
  then have "cursor_rest ?c = all_nodes impl"
    using nodes_from_step[of 0 impl] by (simp add: cursor_rest_def flip: nodes_from_0)
  with cursor_buckets_at[of ?c] for_each_continue_at[OF assms] assms show ?thesis
    by (auto simp: cmap_for_each_def cmap_cursor_start_def cmap_cursor_advance_def)
qed

section \<open>Iteration with positions\<close>

lemma position_chain_drop:
  "unat i \<le> unat offset \<Longrightarrow> position_chain i offset c = drop (unat offset - unat i) c"
proof (induction c arbitrary: i)
  case (Cons n c)
  show ?case
  proof (cases "i = offset")
    case False
    with Cons.prems have less: "i < offset" by (simp add: le_neq_trans flip: word_le_nat_alt)
    note unat_Suc_below[OF less]
    with less[unfolded word_less_nat_alt] Cons.IH[of "i + 1"] False show ?thesis by (simp add: drop_Cons' Suc_diff_Suc)
  qed simp
qed simp

definition short_chains :: "'n cmap_bucket \<Rightarrow> bool" where
  "short_chains b \<longleftrightarrow> length (cb_slots b) = CMAP_K \<and> (\<forall>s \<in> set (cb_slots b). length (snd s) < 2 ^ 32)"

definition entry_rest :: "'n cmap_bucket \<Rightarrow> u32 \<Rightarrow> u32 \<Rightarrow> 'n list" where
  "entry_rest b entry offset =
     (if entry < of_nat CMAP_K
      then drop (unat offset) (snd (cb_slots b ! unat entry)) @ bucket_nodes b (Suc (unat entry))
      else [])"

lemma entry_rest_next:
  assumes "length (cb_slots b) = CMAP_K" and "entry < of_nat CMAP_K"
  shows "entry_rest b (entry + 1) 0 = bucket_nodes b (Suc (unat entry))"
proof (cases "Suc (unat entry) < CMAP_K")
  case True
  with entry_step[OF assms(2)] have "entry + 1 < of_nat CMAP_K" by (simp add: word_less_nat_alt CMAP_K_def)
  with True assms(1) entry_step(2)[OF assms(2)] bucket_nodes_step[of "Suc (unat entry)" b] show ?thesis
    by (simp add: entry_rest_def)
next
  case False
  with entry_step[OF assms(2)] have "\<not> entry + 1 < of_nat CMAP_K" by (simp add: word_less_nat_alt CMAP_K_def)
  with False assms(1) show ?thesis by (simp add: entry_rest_def bucket_nodes_end)
qed

lemma position_entries_rest:
  "short_chains b \<Longrightarrow> position_entries b entry offset = (entry', offset', node) \<Longrightarrow>
     entry_rest b entry offset = (if node = [] then [] else hd node # entry_rest b entry' offset')"
proof (induction b entry offset rule: position_entries.induct)
  case (1 b entry offset)
  show ?case
  proof (cases "entry < of_nat CMAP_K")
    case True
    let ?c = "snd (cb_slots b ! unat entry)"
    have len: "length (cb_slots b) = CMAP_K" and short: "length ?c < 2 ^ 32"
      using 1(2) entry_step(1)[OF True] by (auto simp: short_chains_def)
    note nxt = entry_rest_next[OF len True]
    have chain: "position_chain 0 offset ?c = drop (unat offset) ?c" by (simp add: position_chain_drop)
    show ?thesis
    proof (cases "drop (unat offset) ?c")
      case Nil
      then have "position_entries b (entry + 1) 0 = (entry', offset', node)"
        using 1(3) True chain by (simp add: position_entries.simps[of b entry] Let_def)
      with 1(1)[OF True refl] 1(2) chain Nil True nxt show ?thesis by (simp add: entry_rest_def[of b entry])
    next
      case (Cons n c)
      then have tl: "drop (Suc (unat offset)) ?c = c" by (metis drop_Suc list.sel(3) tl_drop)
      have "position_chain 0 offset ?c = n # c" by (simp only: chain Cons)
      then have res: "(entry', offset', node) = (if c \<noteq> [] then (entry, offset + 1, n # c) else (entry + 1, 0, n # c))"
        using 1(3) True by (simp add: position_entries.simps[of b entry] Let_def)
      have rest: "entry_rest b entry offset = n # c @ bucket_nodes b (Suc (unat entry))"
        using True Cons by (simp add: entry_rest_def)
      show ?thesis
      proof (cases "c = []")
        case False
        then have "unat (offset + 1) = Suc (unat offset)"
          using tl short by (cases "Suc (unat offset) < length ?c") (auto simp: unat_word_ariths)
        then have "entry_rest b entry (offset + 1) = c @ bucket_nodes b (Suc (unat entry))"
          using True tl by (simp add: entry_rest_def)
        with False res rest show ?thesis by simp
      qed (use res rest nxt in simp)
    qed
  next
    case False
    with 1 show ?thesis by (simp add: position_entries.simps[of b entry] entry_rest_def)
  qed
qed

definition position_rest :: "'n cmap_impl \<Rightarrow> cmap_position \<Rightarrow> 'n list" where
  "position_rest impl pos =
     (if cp_bucket pos \<le> ci_mask impl
      then entry_rest (ci_buckets impl ! unat (cp_bucket pos)) (cp_entry pos) (cp_offset pos) @
           nodes_from impl (Suc (unat (cp_bucket pos)))
      else [])"

abbreviation position_start :: cmap_position where
  "position_start \<equiv> \<lparr>cp_bucket = 0, cp_entry = 0, cp_offset = 0\<rparr>"

lemma entry_rest_0: "length (cb_slots b) = CMAP_K \<Longrightarrow> entry_rest b 0 0 = bucket_nodes b 0"
  using bucket_nodes_step[of 0 b] by (simp add: entry_rest_def CMAP_K_def)

lemma position_rest_bucket:
  assumes "indexable impl" and "unat k \<le> nbuckets impl"
  shows "position_rest impl \<lparr>cp_bucket = k, cp_entry = 0, cp_offset = 0\<rparr> = nodes_from impl (unat k)"
proof (cases "k \<le> ci_mask impl")
  case True
  note less = indexable_step(2)[OF assms(1) True]
  with assms(1) have "length (cb_slots (ci_buckets impl ! unat k)) = CMAP_K"
    using cmap_shape_bucket by (auto simp: indexable_def)
  with True nodes_from_step[OF less] show ?thesis by (simp add: position_rest_def entry_rest_0)
next
  case False
  with indexable_end[OF assms(1) False] show ?thesis by (simp add: position_rest_def nodes_from_end)
qed

lemma position_buckets_rest:
  assumes "indexable impl" and "\<forall>b \<in> set (ci_buckets impl). short_chains b"
  shows "\<exists>node pos'. position_buckets impl k entry offset = Some (node, pos') \<and>
    (case position_rest impl \<lparr>cp_bucket = k, cp_entry = entry, cp_offset = offset\<rparr> of
       [] \<Rightarrow> node = None \<and> pos' = position_start
     | n # ns \<Rightarrow> node = Some n \<and> position_rest impl pos' = ns)"
proof (induction "nbuckets impl - unat k" arbitrary: k entry offset rule: less_induct)
  case (less k entry offset)
  let ?b = "ci_buckets impl ! unat k"
  show ?case
  proof (cases "k \<le> ci_mask impl")
    case False
    then show ?thesis by (simp add: position_buckets.simps[of impl k] position_rest_def)
  next
    case True
    note k = indexable_step[OF assms(1) True]
    obtain entry' offset' node where e: "position_entries ?b entry offset = (entry', offset', node)"
      by (cases "position_entries ?b entry offset")
    from k(2) assms(2) have "short_chains ?b" by simp
    note rest = position_entries_rest[OF this e]
    show ?thesis
    proof (cases "node = []")
      case False
      with True e rest show ?thesis
        by (simp add: position_buckets.simps[of impl k] position_rest_def)
    next
      case node: True
      let ?pos = "\<lparr>cp_bucket = k, cp_entry = entry, cp_offset = offset\<rparr>"
      have "position_rest impl ?pos = position_rest impl \<lparr>cp_bucket = k + 1, cp_entry = 0, cp_offset = 0\<rparr>"
        using position_rest_bucket[OF assms(1), of "k + 1"] k rest node True
        by (simp add: position_rest_def[of impl ?pos])
      moreover have "position_buckets impl k entry offset = position_buckets impl (k + 1) 0 0"
        using True e node by (simp add: position_buckets.simps[of impl k])
      ultimately show ?thesis using less.hyps[of "k + 1" 0 0] k by simp
    qed
  qed
qed

lemma cmap_next_position_rest:
  assumes "indexable impl" and "\<forall>b \<in> set (ci_buckets impl). short_chains b"
  shows "position_rest impl pos = [] \<Longrightarrow> cmap_next_position impl pos = Some (None, position_start)"
    and "position_rest impl pos = n # ns \<Longrightarrow>
      \<exists>pos'. cmap_next_position impl pos = Some (Some n, pos') \<and> position_rest impl pos' = ns"
  using position_buckets_rest[OF assms, of "cp_bucket pos" "cp_entry pos" "cp_offset pos"]
  by (cases pos; auto simp: cmap_next_position_def)+

lemma position_loop_rest:
  assumes "indexable impl" and "\<forall>b \<in> set (ci_buckets impl). short_chains b"
  shows "position_loop impl pos = Some (position_rest impl pos, position_start)"
proof (induction "position_rest impl pos" arbitrary: pos)
  case Nil
  from cmap_next_position_rest(1)[OF assms Nil[symmetric]] Nil[symmetric] show ?case
    by (simp add: position_loop.simps[of impl pos])
next
  case (Cons n ns)
  from cmap_next_position_rest(2)[OF assms Cons.hyps(2)[symmetric]] Cons.hyps show ?case
    by (auto simp: position_loop.simps[of impl pos])
qed

section \<open>Every node once\<close>

lemma slots_chain_all:
  "mset (concat (map snd ss)) = (\<Sum>h \<in> UNIV. mset (slots_chain ss h))"
  "length (concat (map snd ss)) = (\<Sum>h \<in> UNIV. length (slots_chain ss h))"
proof (induction ss)
  case (Cons s ss)
  have "(\<Sum>h \<in> UNIV. mset (if fst s = h then snd s else [])) = mset (snd s)"
    "(\<Sum>h \<in> UNIV. length (if fst s = h then snd s else [])) = length (snd s)"
    by (simp_all add: if_distrib[of mset] if_distrib[of length] cong: if_cong)
  { case 1 show ?case using Cons \<open>_ = mset (snd s)\<close> by (simp add: sum.distrib) }
  { case 2 show ?case using Cons \<open>_ = length (snd s)\<close> by (simp add: sum.distrib) }
qed simp_all

lemma all_nodes_once:
  assumes "cmap_wf impl"
  shows "mset (all_nodes impl) = (\<Sum>h \<in> UNIV. mset (cmap_abs impl h))"
    and "length (all_nodes impl) = cmap_size impl"
  unfolding all_nodes_def slots_chain_all by (simp_all add: slots_chain_abs[OF assms] cmap_size_def)

lemma cmap_inv_short:
  assumes "cmap_inv impl"
  shows "\<forall>b \<in> set (ci_buckets impl). short_chains b"
proof
  fix b
  assume b: "b \<in> set (ci_buckets impl)"
  have "length (snd s) < 2 ^ 32" if s: "s \<in> set (cb_slots b)" for s
  proof -
    have "length (snd s) \<le> length (all_nodes impl)"
      using s b by (auto simp: all_nodes_def slots_of_def length_concat intro!: member_le_sum_list image_eqI[of _ _ s])
    also have "\<dots> = unat (ci_n impl)" using assms all_nodes_once(2)[of impl] by (simp add: cmap_inv_def)
    also have "\<dots> < 2 ^ 32" using unsigned_less[of "ci_n impl"] by simp
    finally show ?thesis .
  qed
  moreover have "length (cb_slots b) = CMAP_K"
    using assms b cmap_shape_bucket by (fastforce simp: cmap_inv_def cmap_wf_def in_set_conv_nth)
  ultimately show "short_chains b" by (simp add: short_chains_def)
qed

lemma cmap_iteration:
  assumes "cmap_inv impl"
  shows "cmap_for_each impl = Some (all_nodes impl)"
    and "position_loop impl position_start = Some (all_nodes impl, position_start)"
    and "mset (all_nodes impl) = (\<Sum>h \<in> UNIV. mset (cmap_abs impl h))"
    and "length (all_nodes impl) = unat (cmap_count impl)"
proof -
  note ix = cmap_inv_indexable[OF assms] and short = cmap_inv_short[OF assms]
  show "cmap_for_each impl = Some (all_nodes impl)" by (rule cmap_for_each_all[OF ix])
  show "position_loop impl position_start = Some (all_nodes impl, position_start)"
    using position_loop_rest[OF ix short, of position_start] position_rest_bucket[OF ix, of 0]
    by (simp add: nodes_from_0)
  show "mset (all_nodes impl) = (\<Sum>h \<in> UNIV. mset (cmap_abs impl h))"
    "length (all_nodes impl) = unat (cmap_count impl)"
    using assms all_nodes_once[of impl] by (simp_all add: cmap_inv_def cmap_count_def)
qed

lemma cmap_first_empty:
  assumes "cmap_inv impl"
  shows "cmap_first impl = Some None \<longleftrightarrow> cmap_is_empty impl"
proof -
  note ix = cmap_inv_indexable[OF assms] and short = cmap_inv_short[OF assms]
  have rest: "position_rest impl position_start = all_nodes impl"
    using position_rest_bucket[OF ix, of 0] by (simp add: nodes_from_0)
  have "cmap_is_empty impl \<longleftrightarrow> all_nodes impl = []"
    using cmap_iteration(4)[OF assms] by (auto simp: cmap_is_empty_def unat_eq_0 length_0_conv[symmetric] simp del: length_0_conv)
  with cmap_next_position_rest[OF ix short, of position_start] rest show ?thesis
    by (cases "all_nodes impl") (auto simp: cmap_first_def)
qed

end
