(* ===== verification/Cmap_Reader.thy ===== *)
theory Cmap_Reader
  imports Cmap_Ops
begin

text \<open>
  Readers of a concurrent map. A writer changes the buckets by single writes to a counter, a hash or
  a node pointer; \<^verbatim>\<open>cmap_find()\<close> reads them one at a time, in any interleaving with these writes. The
  memory is sequentially consistent: the barriers of the code are taken to do what their comments
  say. A chain is read as the list it is when the pointer to its first node is read.
\<close>

unbundle bit_operations_syntax

section \<open>Writes\<close>

datatype 'n wr =
    Wr_Counter nat u32
  | Wr_Node nat nat "'n list"
  | Wr_Hash nat nat u32

fun do_wr :: "'n cmap_impl \<Rightarrow> 'n wr \<Rightarrow> 'n cmap_impl" where
  "do_wr impl (Wr_Counter k c) = put_bucket impl k ((ci_buckets impl ! k)\<lparr>cb_counter := c\<rparr>)"
| "do_wr impl (Wr_Node k i node) =
     (let b = ci_buckets impl ! k
      in put_bucket impl k (b\<lparr>cb_slots := (cb_slots b)[i := (fst (cb_slots b ! i), node)]\<rparr>))"
| "do_wr impl (Wr_Hash k i hash) =
     (let b = ci_buckets impl ! k
      in put_bucket impl k (b\<lparr>cb_slots := (cb_slots b)[i := (hash, snd (cb_slots b ! i))]\<rparr>))"

text \<open>The writes of \<open>cmap_set_bucket()\<close>, in their order.\<close>

definition set_bucket_writes :: "'n cmap_impl \<Rightarrow> nat \<Rightarrow> nat \<Rightarrow> 'n list \<Rightarrow> u32 \<Rightarrow> 'n wr list" where
  "set_bucket_writes impl k i node hash =
     (let c = cb_counter (ci_buckets impl ! k)
      in [Wr_Counter k (c + 1), Wr_Node k i node, Wr_Hash k i hash, Wr_Counter k (c + 2)])"

definition insert_dup_writes :: "'n list \<Rightarrow> u32 \<Rightarrow> 'n cmap_impl \<Rightarrow> nat \<Rightarrow> 'n wr list option" where
  "insert_dup_writes new_node hash impl k =
     (case first_slot (\<lambda>s. fst s = hash) (cb_slots (ci_buckets impl ! k)) of
        None \<Rightarrow> None
      | Some i \<Rightarrow> Some [Wr_Node k i (new_node @ snd (cb_slots (ci_buckets impl ! k) ! i))])"

definition insert_bucket_writes :: "'n list \<Rightarrow> u32 \<Rightarrow> 'n cmap_impl \<Rightarrow> nat \<Rightarrow> 'n wr list option" where
  "insert_bucket_writes node hash impl k =
     (case cmap_find_empty_slot_protected (ci_buckets impl ! k) of
        None \<Rightarrow> None
      | Some i \<Rightarrow> Some (set_bucket_writes impl k i node hash))"

definition move_node_writes :: "'n cmap_impl \<Rightarrow> nat \<times> nat \<Rightarrow> nat \<times> nat \<Rightarrow> 'n wr list" where
  "move_node_writes impl dst src =
     (let (h, node) = cb_slots (ci_buckets impl ! fst src) ! snd src
      in set_bucket_writes impl (fst dst) (snd dst) node h)"

fun move_back_writes :: "'n cmap_impl \<Rightarrow> (nat \<times> nat) list \<Rightarrow> 'n wr list" where
  "move_back_writes impl (dst # src # ps) =
     move_node_writes impl dst src @ move_back_writes (move_node impl dst src) (src # ps)"
| "move_back_writes impl ps = []"

definition insert_bfs_writes :: "'n cmap_impl \<Rightarrow> 'n list \<Rightarrow> u32 \<Rightarrow> nat \<Rightarrow> nat \<Rightarrow> 'n wr list option" where
  "insert_bfs_writes impl new_node hash b1 b2 =
     (case bfs_search impl (bfs_start b1 b2) 0 of
        None \<Rightarrow> None
      | Some (path, i, j) \<Rightarrow>
          let slots = cp_slots path @ [i, j];
              bs = path_buckets impl (cp_start path) (cp_slots path @ [i]);
              ps = rev (zip bs slots)
          in Some (move_back_writes impl ps @
                   set_bucket_writes (move_back impl ps) (hd bs) (hd slots) new_node hash))"

definition try_insert_writes :: "'n cmap_impl \<Rightarrow> 'n list \<Rightarrow> u32 \<Rightarrow> 'n wr list option" where
  "try_insert_writes impl node hash =
     (let h1 = rehash impl hash; h2 = other_hash h1;
          b1 = bucket_idx impl h1; b2 = bucket_idx impl h2
      in case insert_dup_writes node hash impl b1 of
           Some ws \<Rightarrow> Some ws
         | None \<Rightarrow>
         case insert_dup_writes node hash impl b2 of
           Some ws \<Rightarrow> Some ws
         | None \<Rightarrow>
         case insert_bucket_writes node hash impl b1 of
           Some ws \<Rightarrow> Some ws
         | None \<Rightarrow>
         case insert_bucket_writes node hash impl b2 of
           Some ws \<Rightarrow> Some ws
         | None \<Rightarrow> insert_bfs_writes impl node hash b1 b2)"

declare do_wr.simps [simp del]

section \<open>The reader\<close>

text \<open>Where \<open>cmap_find__()\<close> is: before reading a counter, before reading the hash or the node of a slot,
  before testing a counter, or done. The second pass remembers the first bucket's counter.\<close>

datatype 'n reader =
    Read_Counter1
  | Scan1 u32 nat
  | Node1 u32 nat
  | Check1 u32 "'n list"
  | Read_Counter2 u32
  | Scan2 u32 u32 nat
  | Node2 u32 u32 nat
  | Check2 u32 u32 "'n list"
  | Check_Again u32
  | Found "'n list"

definition counter_at :: "'n cmap_impl \<Rightarrow> nat \<Rightarrow> u32" where
  "counter_at impl k = cb_counter (ci_buckets impl ! k)"

fun reader_step :: "'n cmap_impl \<Rightarrow> nat \<Rightarrow> nat \<Rightarrow> u32 \<Rightarrow> 'n reader \<Rightarrow> 'n reader" where
  "reader_step impl b1 b2 hash Read_Counter1 =
     (let c1 = counter_at impl b1 in if c1 AND 1 \<noteq> 0 then Read_Counter1 else Scan1 c1 0)"
| "reader_step impl b1 b2 hash (Scan1 c1 i) =
     (if i < CMAP_K
      then if fst (slot_at impl b1 i) = hash then Node1 c1 i else Scan1 c1 (i + 1)
      else Check1 c1 [])"
| "reader_step impl b1 b2 hash (Node1 c1 i) = Check1 c1 (snd (slot_at impl b1 i))"
| "reader_step impl b1 b2 hash (Check1 c1 node) =
     (if counter_at impl b1 \<noteq> c1 then Read_Counter1
      else if node \<noteq> [] then Found node else Read_Counter2 c1)"
| "reader_step impl b1 b2 hash (Read_Counter2 c1) =
     (let c2 = counter_at impl b2 in if c2 AND 1 \<noteq> 0 then Read_Counter2 c1 else Scan2 c1 c2 0)"
| "reader_step impl b1 b2 hash (Scan2 c1 c2 i) =
     (if i < CMAP_K
      then if fst (slot_at impl b2 i) = hash then Node2 c1 c2 i else Scan2 c1 c2 (i + 1)
      else Check2 c1 c2 [])"
| "reader_step impl b1 b2 hash (Node2 c1 c2 i) = Check2 c1 c2 (snd (slot_at impl b2 i))"
| "reader_step impl b1 b2 hash (Check2 c1 c2 node) =
     (if counter_at impl b2 \<noteq> c2 then Read_Counter2 c1
      else if node \<noteq> [] then Found node else Check_Again c1)"
| "reader_step impl b1 b2 hash (Check_Again c1) =
     (if counter_at impl b1 \<noteq> c1 then Read_Counter1 else Found [])"
| "reader_step impl b1 b2 hash (Found node) = Found node"

text \<open>A schedule gives the next step to the writer (\<open>True\<close>) or to the reader (\<open>False\<close>).\<close>

fun interleave :: "bool list \<Rightarrow> nat \<Rightarrow> nat \<Rightarrow> u32 \<Rightarrow> 'n cmap_impl \<Rightarrow> 'n wr list \<Rightarrow> 'n reader
    \<Rightarrow> 'n cmap_impl \<times> 'n wr list \<times> 'n reader" where
  "interleave [] b1 b2 hash impl ws r = (impl, ws, r)"
| "interleave (True # sched) b1 b2 hash impl [] r = interleave sched b1 b2 hash impl [] r"
| "interleave (True # sched) b1 b2 hash impl (w # ws) r = interleave sched b1 b2 hash (do_wr impl w) ws r"
| "interleave (False # sched) b1 b2 hash impl ws r =
     interleave sched b1 b2 hash impl ws (reader_step impl b1 b2 hash r)"

section \<open>What a reader relies on\<close>

definition find_at :: "'n contents \<Rightarrow> nat \<Rightarrow> u32 \<Rightarrow> 'n list" where
  "find_at S k hash =
     (case find (\<lambda>i. fst (S k i) = hash) [0..<CMAP_K] of None \<Rightarrow> [] | Some i \<Rightarrow> snd (S k i))"

text \<open>\<open>V\<close> are the chains the hash has at some time. A bucket that is not being changed shows one of them or
  nothing, and if the hash always has a chain, one of the two buckets shows it.\<close>

definition state_ok :: "'n list set \<Rightarrow> nat \<Rightarrow> nat \<Rightarrow> u32 \<Rightarrow> 'n cmap_impl \<Rightarrow> bool" where
  "state_ok V b1 b2 hash impl \<longleftrightarrow>
     (\<forall>k \<in> {b1, b2}. even (counter_at impl k) \<longrightarrow> find_at (slot_at impl) k hash \<in> insert [] V) \<and>
     ([] \<notin> V \<longrightarrow> (\<exists>k \<in> {b1, b2}. find_at (slot_at impl) k hash \<in> V))"

text \<open>Counters go up by one, hashes change under an odd counter only, and a write to a node under an even
  counter makes no chain appear, unless the hash had none at some time.\<close>

fun wr_ok :: "'n list set \<Rightarrow> nat \<Rightarrow> nat \<Rightarrow> u32 \<Rightarrow> 'n cmap_impl \<Rightarrow> 'n wr \<Rightarrow> bool" where
  "wr_ok V b1 b2 hash impl (Wr_Counter k c) \<longleftrightarrow> c = counter_at impl k + 1"
| "wr_ok V b1 b2 hash impl (Wr_Hash k i h) \<longleftrightarrow> odd (counter_at impl k)"
| "wr_ok V b1 b2 hash impl (Wr_Node k i node) \<longleftrightarrow>
     even (counter_at impl k) \<and> [] \<notin> V \<and> find_at (slot_at impl) k hash = [] \<longrightarrow>
     find_at (slot_at (do_wr impl (Wr_Node k i node))) k hash = []"

fun trace_ok :: "'n list set \<Rightarrow> nat \<Rightarrow> nat \<Rightarrow> u32 \<Rightarrow> 'n cmap_impl \<Rightarrow> 'n wr list \<Rightarrow> bool" where
  "trace_ok V b1 b2 hash impl [] \<longleftrightarrow> state_ok V b1 b2 hash impl"
| "trace_ok V b1 b2 hash impl (w # ws) \<longleftrightarrow>
     state_ok V b1 b2 hash impl \<and> wr_ok V b1 b2 hash impl w \<and> trace_ok V b1 b2 hash (do_wr impl w) ws"

text \<open>What the reader knows. \<open>clean\<close>: the bucket has not changed since its counter was \<open>c\<close>; \<open>n\<close> writes are
  still to come, too few for the counter to come back to \<open>c\<close>.\<close>

definition no_wrap :: "'n cmap_impl \<Rightarrow> nat \<Rightarrow> nat \<Rightarrow> u32 \<Rightarrow> bool" where
  "no_wrap impl n k c \<longleftrightarrow> even c \<and> unat (counter_at impl k - c) + n < 2 ^ 32"

definition blank :: "'n list set \<Rightarrow> 'n cmap_impl \<Rightarrow> nat \<Rightarrow> u32 \<Rightarrow> u32 \<Rightarrow> bool" where
  "blank V impl k hash c \<longleftrightarrow> (counter_at impl k = c \<and> [] \<notin> V \<longrightarrow> find_at (slot_at impl) k hash = [])"

definition scanned :: "'n cmap_impl \<Rightarrow> nat \<Rightarrow> u32 \<Rightarrow> u32 \<Rightarrow> nat \<Rightarrow> bool" where
  "scanned impl k hash c i \<longleftrightarrow> i \<le> CMAP_K \<and> (counter_at impl k = c \<longrightarrow> (\<forall>j < i. fst (slot_at impl k j) \<noteq> hash))"

definition matched :: "'n cmap_impl \<Rightarrow> nat \<Rightarrow> u32 \<Rightarrow> u32 \<Rightarrow> nat \<Rightarrow> bool" where
  "matched impl k hash c i \<longleftrightarrow> i < CMAP_K \<and> scanned impl k hash c i \<and> (counter_at impl k = c \<longrightarrow> fst (slot_at impl k i) = hash)"

definition read_ok :: "'n list set \<Rightarrow> 'n cmap_impl \<Rightarrow> nat \<Rightarrow> u32 \<Rightarrow> u32 \<Rightarrow> 'n list \<Rightarrow> bool" where
  "read_ok V impl k hash c node \<longleftrightarrow>
     (counter_at impl k = c \<longrightarrow> node \<in> insert [] V) \<and> (node = [] \<longrightarrow> blank V impl k hash c)"

fun reader_ok :: "'n list set \<Rightarrow> nat \<Rightarrow> nat \<Rightarrow> u32 \<Rightarrow> 'n cmap_impl \<Rightarrow> nat \<Rightarrow> 'n reader \<Rightarrow> bool" where
  "reader_ok V b1 b2 hash impl n Read_Counter1 \<longleftrightarrow> True"
| "reader_ok V b1 b2 hash impl n (Scan1 c1 i) \<longleftrightarrow> no_wrap impl n b1 c1 \<and> scanned impl b1 hash c1 i"
| "reader_ok V b1 b2 hash impl n (Node1 c1 i) \<longleftrightarrow> no_wrap impl n b1 c1 \<and> matched impl b1 hash c1 i"
| "reader_ok V b1 b2 hash impl n (Check1 c1 node) \<longleftrightarrow> no_wrap impl n b1 c1 \<and> read_ok V impl b1 hash c1 node"
| "reader_ok V b1 b2 hash impl n (Read_Counter2 c1) \<longleftrightarrow> no_wrap impl n b1 c1 \<and> blank V impl b1 hash c1"
| "reader_ok V b1 b2 hash impl n (Scan2 c1 c2 i) \<longleftrightarrow>
     no_wrap impl n b1 c1 \<and> blank V impl b1 hash c1 \<and> no_wrap impl n b2 c2 \<and> scanned impl b2 hash c2 i"
| "reader_ok V b1 b2 hash impl n (Node2 c1 c2 i) \<longleftrightarrow>
     no_wrap impl n b1 c1 \<and> blank V impl b1 hash c1 \<and> no_wrap impl n b2 c2 \<and> matched impl b2 hash c2 i"
| "reader_ok V b1 b2 hash impl n (Check2 c1 c2 node) \<longleftrightarrow>
     no_wrap impl n b1 c1 \<and> blank V impl b1 hash c1 \<and> no_wrap impl n b2 c2 \<and> read_ok V impl b2 hash c2 node"
| "reader_ok V b1 b2 hash impl n (Check_Again c1) \<longleftrightarrow>
     no_wrap impl n b1 c1 \<and> ([] \<notin> V \<longrightarrow> counter_at impl b1 \<noteq> c1)"
| "reader_ok V b1 b2 hash impl n (Found node) \<longleftrightarrow> node \<in> V"

section \<open>The reader finds a chain of the hash\<close>

lemma find_at_match:
  assumes "i < CMAP_K" and "\<forall>j < i. fst (S k j) \<noteq> hash" and "fst (S k i) = hash"
  shows "find_at S k hash = snd (S k i)"
proof -
  have "find (\<lambda>i. fst (S k i) = hash) [0..<CMAP_K] = Some i"
    using assms by (auto simp: find_Some_iff intro!: exI[of _ i])
  then show ?thesis by (simp add: find_at_def)
qed

lemma find_at_none:
  assumes "\<forall>j < CMAP_K. fst (S k j) \<noteq> hash"
  shows "find_at S k hash = []"
proof -
  have "find (\<lambda>i. fst (S k i) = hash) [0..<CMAP_K] = None" using assms by (auto simp: find_None_iff)
  then show ?thesis by (simp add: find_at_def)
qed

lemma find_at_cases:
  obtains (match) i where "i < CMAP_K" "\<forall>j < i. fst (S k j) \<noteq> hash" "fst (S k i) = hash" "find_at S k hash = snd (S k i)"
    | (none) "\<forall>j < CMAP_K. fst (S k j) \<noteq> hash" "find_at S k hash = []"
proof (cases "\<exists>i < CMAP_K. fst (S k i) = hash")
  case True
  define i where "i = (LEAST i. i < CMAP_K \<and> fst (S k i) = hash)"
  have "i < CMAP_K \<and> fst (S k i) = hash" unfolding i_def using LeastI_ex[OF True] .
  moreover have "\<forall>j < i. fst (S k j) \<noteq> hash" using not_less_Least i_def calculation by (metis (mono_tags, lifting) less_trans)
  ultimately show ?thesis using match find_at_match by blast
qed (use none find_at_none in blast)

lemma find_at_cong: "(\<And>i. i < CMAP_K \<Longrightarrow> S k i = T k i) \<Longrightarrow> find_at S k hash = find_at T k hash"
  by (cases rule: find_at_cases[of S k hash]) (auto simp: find_at_match find_at_none)

lemma and_1_odd: "(c :: u32) AND 1 \<noteq> 0 \<longleftrightarrow> odd c"
  by (simp add: and_one_eq odd_iff_mod_2_eq_one)

lemma nth_upd: "xs[i := v] ! j = (if i = j \<and> j < length xs then v else xs ! j)"
  by (cases "i < length xs") (auto simp: nth_list_update list_update_beyond)

lemma counter_at_do_wr:
  "counter_at (do_wr impl w) k = (case w of Wr_Counter k' c \<Rightarrow> if k' = k \<and> k < nbuckets impl then c else counter_at impl k
     | _ \<Rightarrow> counter_at impl k)"
  by (cases w) (auto simp: counter_at_def Let_def do_wr.simps nth_upd)

lemma slot_at_wr_counter [simp]: "slot_at (do_wr impl (Wr_Counter k c)) = slot_at impl"
  by (intro ext) (simp add: slot_at_def do_wr.simps nth_upd)

lemma slot_at_wr_node:
  "fst (slot_at (do_wr impl (Wr_Node k i node)) k' j) = fst (slot_at impl k' j)"
  "k' \<noteq> k \<Longrightarrow> slot_at (do_wr impl (Wr_Node k i node)) k' = slot_at impl k'"
  by (auto simp: slot_at_def Let_def do_wr.simps nth_upd fun_eq_iff)

lemma slot_at_wr_hash: "k' \<noteq> k \<Longrightarrow> slot_at (do_wr impl (Wr_Hash k i h)) k' = slot_at impl k'"
  by (auto simp: slot_at_def Let_def do_wr.simps nth_upd fun_eq_iff)

lemma no_wrap_clean:
  assumes nw: "no_wrap impl (Suc n) k c" and w: "wr_ok V b1 b2 hash impl w"
  shows "no_wrap (do_wr impl w) n k c" and "counter_at (do_wr impl w) k = c \<Longrightarrow> counter_at impl k = c"
proof -
  let ?x = "counter_at impl k - c"
  have x: "unat ?x + Suc n < 2 ^ 32" and c: "even c" using nw by (auto simp: no_wrap_def)
  have d: "counter_at (do_wr impl w) k = counter_at impl k \<or> counter_at (do_wr impl w) k = counter_at impl k + 1"
    using w by (cases w) (auto simp: counter_at_do_wr)
  have "unat (?x + 1) = unat ?x + 1" using x by (simp add: unat_word_ariths)
  then have inc: "unat (counter_at impl k + 1 - c) = unat ?x + 1" by (simp add: algebra_simps)
  with d x c show "no_wrap (do_wr impl w) n k c" by (auto simp: no_wrap_def)
  show "counter_at (do_wr impl w) k = c \<Longrightarrow> counter_at impl k = c"
    using d inc by auto
qed

lemma hash_clean:
  assumes "wr_ok V b1 b2 hash impl w" and "even (counter_at impl k)"
  shows "fst (slot_at (do_wr impl w) k j) = fst (slot_at impl k j)"
proof (cases w)
  case (Wr_Hash k' i h)
  then have "k' \<noteq> k" using assms by auto
  then show ?thesis unfolding Wr_Hash by (simp add: slot_at_wr_hash)
qed (simp_all add: slot_at_wr_node(1))

lemma blank_wr:
  assumes nw: "no_wrap impl (Suc n) k c" and w: "wr_ok V b1 b2 hash impl w" and bl: "blank V impl k hash c"
  shows "blank V (do_wr impl w) k hash c"
  unfolding blank_def
proof (intro impI, elim conjE)
  assume eq: "counter_at (do_wr impl w) k = c" and V: "[] \<notin> V"
  have clean: "counter_at impl k = c" using no_wrap_clean(2)[OF nw w eq] .
  have e: "even (counter_at impl k)" using clean nw by (simp add: no_wrap_def)
  have f: "find_at (slot_at impl) k hash = []" using bl clean V by (simp add: blank_def)
  show "find_at (slot_at (do_wr impl w)) k hash = []"
  proof (cases w)
    case (Wr_Node k' i node)
    show ?thesis
    proof (cases "k' = k")
      case True
      then show ?thesis using w e V f Wr_Node by simp
    next
      case False
      then have "slot_at (do_wr impl w) k = slot_at impl k" unfolding Wr_Node by (simp add: slot_at_wr_node(2))
      then show ?thesis using f find_at_cong[of "slot_at (do_wr impl w)" k "slot_at impl"] by simp
    qed
  next
    case (Wr_Hash k' i h)
    then have "k' \<noteq> k" using w e by auto
    then have "slot_at (do_wr impl w) k = slot_at impl k" unfolding Wr_Hash by (simp add: slot_at_wr_hash)
    then show ?thesis using f find_at_cong[of "slot_at (do_wr impl w)" k "slot_at impl"] by simp
  qed (use f in \<open>simp\<close>)
qed

lemma scanned_wr:
  assumes nw: "no_wrap impl (Suc n) k c" and w: "wr_ok V b1 b2 hash impl w"
  shows "scanned impl k hash c i \<Longrightarrow> scanned (do_wr impl w) k hash c i"
    and "matched impl k hash c i \<Longrightarrow> matched (do_wr impl w) k hash c i"
    and "read_ok V impl k hash c node \<Longrightarrow> read_ok V (do_wr impl w) k hash c node"
proof -
  have c: "counter_at (do_wr impl w) k = c \<Longrightarrow> counter_at impl k = c \<and> (\<forall>j. fst (slot_at (do_wr impl w) k j) = fst (slot_at impl k j))"
    using no_wrap_clean(2)[OF nw w] hash_clean[OF w, of k] nw by (auto simp: no_wrap_def)
  show s: "scanned impl k hash c i \<Longrightarrow> scanned (do_wr impl w) k hash c i" for i
    using c by (auto simp: scanned_def)
  show "matched impl k hash c i \<Longrightarrow> matched (do_wr impl w) k hash c i" using c s by (auto simp: matched_def)
  show "read_ok V impl k hash c node \<Longrightarrow> read_ok V (do_wr impl w) k hash c node"
    using c blank_wr[OF nw w] by (auto simp: read_ok_def)
qed

lemma reader_ok_write:
  assumes "reader_ok V b1 b2 hash impl (Suc n) r" and "wr_ok V b1 b2 hash impl w"
  shows "reader_ok V b1 b2 hash (do_wr impl w) n r"
proof (cases r)
  case (Check_Again c1)
  then show ?thesis using assms no_wrap_clean[OF _ assms(2), of n b1 c1] by auto
qed (use assms no_wrap_clean(1)[OF _ assms(2)] scanned_wr[OF _ assms(2)] blank_wr[OF _ assms(2)] in \<open>auto\<close>)

lemma reader_ok_read:
  assumes ok: "reader_ok V b1 b2 hash impl n r" and st: "state_ok V b1 b2 hash impl" and n: "n < 2 ^ 32"
  shows "reader_ok V b1 b2 hash impl n (reader_step impl b1 b2 hash r)"
proof -
  have scan_end: "read_ok V impl k hash c []" if "scanned impl k hash c i" "\<not> i < CMAP_K" for k c i
    using that find_at_none[of "slot_at impl" k hash] by (auto simp: read_ok_def blank_def scanned_def)
  have node: "read_ok V impl k hash c (snd (slot_at impl k i))" if "matched impl k hash c i" "no_wrap impl n k c" "k \<in> {b1, b2}" for k c i
    using that st find_at_match[of i "slot_at impl" k hash]
    by (auto simp: read_ok_def blank_def matched_def scanned_def no_wrap_def state_ok_def)
  have next_slot: "scanned impl k hash c (Suc i)" if "scanned impl k hash c i" "i < CMAP_K" "fst (slot_at impl k i) \<noteq> hash" for k c i
    using that by (auto simp: scanned_def less_Suc_eq)
  have start: "no_wrap impl n k (counter_at impl k)" "scanned impl k hash c 0" if "even (counter_at impl k)" for k c
    using n that by (simp_all add: no_wrap_def scanned_def)
  have hit: "matched impl k hash c i" if "scanned impl k hash c i" "i < CMAP_K" "fst (slot_at impl k i) = hash" for k c i
    using that by (simp add: matched_def)
  show ?thesis
  proof (cases r)
    case (Scan1 c1 i)
    then show ?thesis using ok hit next_slot scan_end by auto
  next
    case (Node1 c1 i)
    then show ?thesis using ok node[of b1 c1 i] by simp
  next
    case (Check1 c1 nd)
    then show ?thesis using ok by (auto simp: read_ok_def)
  next
    case (Scan2 c1 c2 i)
    then show ?thesis using ok hit next_slot scan_end by auto
  next
    case (Node2 c1 c2 i)
    then show ?thesis using ok node[of b2 c2 i] by simp
  next
    case (Check2 c1 c2 nd)
    have "find_at (slot_at impl) b1 hash \<noteq> []" if "[] \<notin> V" "find_at (slot_at impl) b2 hash = []"
      using st that by (auto simp: state_ok_def)
    with ok Check2 show ?thesis by (auto simp: read_ok_def blank_def)
  qed (use ok start and_1_odd in \<open>auto simp: Let_def\<close>)
qed

lemma trace_ok_state: "trace_ok V b1 b2 hash impl ws \<Longrightarrow> state_ok V b1 b2 hash impl"
  by (cases ws) auto

theorem interleave_found:
  assumes "trace_ok V b1 b2 hash impl ws" and "length ws < 2 ^ 32" and "reader_ok V b1 b2 hash impl (length ws) r"
    and "interleave sched b1 b2 hash impl ws r = (impl', ws', Found node)"
  shows "node \<in> V"
  using assms
proof (induction sched b1 b2 hash impl ws r rule: interleave.induct)
  case (3 sched b1 b2 hash impl w ws r)
  then show ?case using reader_ok_write[of V b1 b2 hash impl "length ws" r w] by (auto)
next
  case (4 sched b1 b2 hash impl ws r)
  then have "reader_ok V b1 b2 hash impl (length ws) (reader_step impl b1 b2 hash r)"
    by (intro reader_ok_read trace_ok_state)
  with 4 show ?case by simp
qed auto

end
