(* ===== verification/Cmap_Writer.thy ===== *)
theory Cmap_Writer
  imports Cmap_Reader
begin

text \<open>
  The writes of insertions, removals and replacements keep what a concurrent reader relies on, in
  particular while the nodes of a cuckoo path are moved: every node stays visible in one of its two
  buckets.
\<close>

unbundle bit_operations_syntax

section \<open>Filling one slot\<close>

text \<open>The chain of the hash is visible in another slot than \<open>(k, i)\<close>.\<close>

definition seen_off :: "'n list set \<Rightarrow> nat \<Rightarrow> nat \<Rightarrow> u32 \<Rightarrow> 'n contents \<Rightarrow> nat \<Rightarrow> nat \<Rightarrow> bool" where
  "seen_off V b1 b2 hash S k i \<longleftrightarrow>
     (\<exists>b \<in> {b1, b2}. \<exists>j < CMAP_K. (b, j) \<noteq> (k, i) \<and> fst (S b j) = hash \<and> (\<forall>j' < j. fst (S b j') \<noteq> hash) \<and> snd (S b j) \<in> V)"

definition contents_ok :: "'n list set \<Rightarrow> nat \<Rightarrow> nat \<Rightarrow> u32 \<Rightarrow> 'n contents \<Rightarrow> bool" where
  "contents_ok V b1 b2 hash S \<longleftrightarrow>
     (\<forall>k \<in> {b1, b2}. find_at S k hash \<in> insert [] V) \<and> ([] \<notin> V \<longrightarrow> (\<exists>k \<in> {b1, b2}. find_at S k hash \<in> V))"

lemma state_okI: "contents_ok V b1 b2 hash (slot_at impl) \<Longrightarrow> state_ok V b1 b2 hash impl"
  by (auto simp: contents_ok_def state_ok_def)

lemma trace_ok_append:
  "trace_ok V b1 b2 hash impl ws \<Longrightarrow> trace_ok V b1 b2 hash (foldl do_wr impl ws) ws' \<Longrightarrow> trace_ok V b1 b2 hash impl (ws @ ws')"
  by (induction ws arbitrary: impl) auto

lemma set_bucket_writes_do:
  assumes "cmap_shape impl" and "k < nbuckets impl" and "i < CMAP_K"
  shows "foldl do_wr impl (set_bucket_writes impl k i node hash) =
    put_bucket impl k (cmap_set_bucket (ci_buckets impl ! k) i node hash)"
  using assms cmap_shape_bucket[OF assms(1,2)]
  by (simp add: set_bucket_writes_def do_wr.simps Let_def put_bucket_def cmap_set_bucket_def)
    (cases "ci_buckets impl ! k", simp)

lemma slot_at_wr_node_upd:
  assumes "k < nbuckets impl" and "i < length (cb_slots (ci_buckets impl ! k))"
  shows "slot_at (do_wr impl (Wr_Node k i node)) = slot_upd (slot_at impl) k i (fst (slot_at impl k i), node)"
    and "slot_at (do_wr impl (Wr_Hash k i h)) = slot_upd (slot_at impl) k i (h, snd (slot_at impl k i))"
  using assms by (auto simp: fun_eq_iff slot_at_def do_wr.simps Let_def nth_upd slot_upd_apply)

lemma seen_off_node:
  assumes "seen_off V b1 b2 hash S k i"
  shows "\<exists>b \<in> {b1, b2}. find_at (slot_upd S k i (fst (S k i), node)) b hash \<in> V"
proof -
  let ?T = "slot_upd S k i (fst (S k i), node)"
  have h: "fst (?T b j) = fst (S b j)" for b j by (simp add: slot_upd_apply)
  from assms obtain b j where "b \<in> {b1, b2}" "j < CMAP_K" "(b, j) \<noteq> (k, i)" "fst (S b j) = hash"
    "\<forall>j' < j. fst (S b j') \<noteq> hash" "snd (S b j) \<in> V" unfolding seen_off_def by blast
  moreover from this have "find_at ?T b hash = snd (?T b j)" by (intro find_at_match) (simp_all add: h)
  moreover have "?T b j = S b j" using \<open>(b, j) \<noteq> (k, i)\<close> by (auto simp: slot_upd_apply)
  ultimately show ?thesis by metis
qed

lemma set_bucket_trace:
  assumes shape: "cmap_shape impl" and k: "k < nbuckets impl" and i: "i < CMAP_K"
    and before: "contents_ok V b1 b2 hash (slot_at impl)"
    and off: "[] \<notin> V \<Longrightarrow> seen_off V b1 b2 hash (slot_at impl) k i"
    and after: "contents_ok V b1 b2 hash (slot_upd (slot_at impl) k i (h, node))"
  shows "trace_ok V b1 b2 hash impl (set_bucket_writes impl k i node h)"
proof -
  let ?S = "slot_at impl" and ?c = "counter_at impl k"
  have e: "even ?c" using cmap_shape_counter[OF shape k] and_1_odd[of ?c] by (auto simp: counter_at_def)
  have len: "i < length (cb_slots (ci_buckets impl ! k))" using i cmap_shape_bucket[OF shape k] by simp
  define m1 where "m1 = do_wr impl (Wr_Counter k (?c + 1))"
  define m2 where "m2 = do_wr m1 (Wr_Node k i node)"
  define m3 where "m3 = do_wr m2 (Wr_Hash k i h)"
  define m4 where "m4 = do_wr m3 (Wr_Counter k (?c + 2))"
  note do = do_wr.simps Let_def nth_upd
  have nb: "nbuckets m1 = nbuckets impl" "nbuckets m2 = nbuckets impl"
    "length (cb_slots (ci_buckets m1 ! k)) = length (cb_slots (ci_buckets impl ! k))"
    "length (cb_slots (ci_buckets m2 ! k)) = length (cb_slots (ci_buckets impl ! k))"
    by (auto simp: m1_def m2_def do)
  have S1: "slot_at m1 = ?S" by (simp add: m1_def)
  have S2: "slot_at m2 = slot_upd ?S k i (fst (?S k i), node)"
    unfolding m2_def S1[symmetric] by (rule slot_at_wr_node_upd(1)) (use k len nb in simp_all)
  have S3: "slot_at m3 = slot_upd ?S k i (h, node)"
    unfolding m3_def by (subst slot_at_wr_node_upd(2)) (use k len nb in \<open>simp_all add: S2 fun_eq_iff slot_upd_apply\<close>)
  have S4: "slot_at m4 = slot_upd ?S k i (h, node)" by (simp add: m4_def S3)
  have c: "counter_at m1 k = ?c + 1" "counter_at m2 k = ?c + 1" "counter_at m3 k = ?c + 1"
    using k nb by (simp_all add: m1_def m2_def m3_def counter_at_do_wr)
  have other: "find_at (slot_upd ?S k i v) b hash = find_at ?S b hash" if "b \<noteq> k" for b v
    using that by (intro find_at_cong) (simp add: slot_upd_apply)
  have fill: "state_ok V b1 b2 hash m" if "odd (counter_at m k)" "slot_at m = slot_upd ?S k i v"
    "[] \<notin> V \<longrightarrow> (\<exists>b \<in> {b1, b2}. find_at (slot_at m) b hash \<in> V)" for m v
    using that before other unfolding state_ok_def contents_ok_def by metis
  have "state_ok V b1 b2 hash impl" using before by (rule state_okI)
  moreover have "state_ok V b1 b2 hash m1" using before by (intro state_okI) (simp add: S1)
  moreover have "state_ok V b1 b2 hash m2"
    by (rule fill) (use c e S2 seen_off_node[OF off] in auto)
  moreover have "state_ok V b1 b2 hash m3"
    by (rule fill) (use c e S3 after in \<open>auto simp: contents_ok_def\<close>)
  moreover have "state_ok V b1 b2 hash m4" using after by (intro state_okI) (simp add: S4)
  moreover have "set_bucket_writes impl k i node h = [Wr_Counter k (?c + 1), Wr_Node k i node, Wr_Hash k i h, Wr_Counter k (?c + 2)]"
    by (simp add: set_bucket_writes_def counter_at_def Let_def)
  ultimately show ?thesis using c e
    by (simp flip: m1_def m2_def m3_def m4_def)
qed

section \<open>Well-formed states\<close>

lemma contents_ok_wf:
  assumes wf: "cmap_wf impl" and V: "cmap_abs impl hash \<in> V"
  shows "contents_ok V (idx1 impl hash) (idx2 impl hash) hash (slot_at impl)"
    and "[] \<notin> V \<Longrightarrow> \<exists>b \<in> {idx1 impl hash, idx2 impl hash}. \<exists>j < CMAP_K. tbl_live (nbuckets impl) (slot_at impl) hash b j \<and>
      (\<forall>j' < j. fst (slot_at impl b j') \<noteq> hash) \<and> snd (slot_at impl b j) \<in> V"
proof -
  let ?S = "slot_at impl" and ?B = "nbuckets impl"
  from wf have shape: "cmap_shape impl" and inv: "tbl_inv ?B (idx1 impl) (idx2 impl) ?S" by (simp_all add: cmap_wf_def)
  have live: "snd (?S b j) \<in> V" if "tbl_live ?B ?S hash b j" for b j
  proof -
    have "tbl_chain ?B ?S hash (snd (?S b j))" using that by (auto simp: tbl_chain_def tbl_live_def)
    then show ?thesis using cmap_abs_eq[OF wf] V by metis
  qed
  show pos: "\<exists>b \<in> {idx1 impl hash, idx2 impl hash}. \<exists>j < CMAP_K. tbl_live ?B ?S hash b j \<and>
      (\<forall>j' < j. fst (?S b j') \<noteq> hash) \<and> snd (?S b j) \<in> V" if "[] \<notin> V"
  proof -
    have "cmap_abs impl hash \<noteq> []" using V that by auto
    then obtain b j where l: "tbl_live ?B ?S hash b j" using cmap_abs_chain[OF wf, of hash] by (auto simp: tbl_chain_def)
    then have "b \<in> {idx1 impl hash, idx2 impl hash}" "j < CMAP_K" "\<forall>j' < j. fst (?S b j') \<noteq> hash"
      using tbl_placed[OF inv l] tbl_first[OF inv l] by (auto simp: tbl_live_def)
    with l live show ?thesis by blast
  qed
  have B: "find_at ?S b hash \<in> insert [] V" if "b \<in> {idx1 impl hash, idx2 impl hash}" for b
  proof (cases rule: find_at_cases[of ?S b hash])
    case (match i)
    have "b < ?B" using that idx_less[OF shape] by auto
    then show ?thesis using match live[of b i] by (auto simp: tbl_live_def)
  qed simp
  moreover have "\<exists>b \<in> {idx1 impl hash, idx2 impl hash}. find_at ?S b hash \<in> V" if "[] \<notin> V"
    using pos[OF that] find_at_match[of _ ?S _ hash] unfolding tbl_live_def by metis
  ultimately show "contents_ok V (idx1 impl hash) (idx2 impl hash) hash ?S" by (simp add: contents_ok_def)
qed

section \<open>Moving the nodes of a path\<close>

text \<open>\<open>T\<close> is \<open>S\<close> after the moves into the positions \<open>m\<close> down to \<open>k + 1\<close> of the path.\<close>

definition moved_to :: "'n contents \<Rightarrow> nat list \<Rightarrow> nat list \<Rightarrow> nat \<Rightarrow> nat \<Rightarrow> 'n contents \<Rightarrow> bool" where
  "moved_to S bs ss m k T \<longleftrightarrow>
     (\<forall>l. k \<le> l \<and> l < m \<longrightarrow> T (bs ! Suc l) (ss ! Suc l) = S (bs ! l) (ss ! l)) \<and>
     (\<forall>b i. (\<forall>l. k \<le> l \<and> l < m \<longrightarrow> (b, i) \<noteq> (bs ! Suc l, ss ! Suc l)) \<longrightarrow> T b i = S b i)"

lemma moved_to_start: "moved_to S bs ss m m S"
  by (auto simp: moved_to_def)

lemma moved_to_step:
  assumes path: "shift_path B i1 i2 S m bs ss" and k: "Suc k \<le> m" and T: "moved_to S bs ss m (Suc k) T"
  shows "T (bs ! k) (ss ! k) = S (bs ! k) (ss ! k)"
    and "moved_to S bs ss m k (slot_upd T (bs ! Suc k) (ss ! Suc k) (T (bs ! k) (ss ! k)))"
proof -
  note eq = shift_path_nth_eq[OF path]
  show src: "T (bs ! k) (ss ! k) = S (bs ! k) (ss ! k)"
    using T k eq[of k "Suc l" for l] unfolding moved_to_def by fastforce
  show "moved_to S bs ss m k (slot_upd T (bs ! Suc k) (ss ! Suc k) (T (bs ! k) (ss ! k)))"
    unfolding moved_to_def
  proof (intro conjI allI impI)
    fix l assume l: "k \<le> l \<and> l < m"
    then show "slot_upd T (bs ! Suc k) (ss ! Suc k) (T (bs ! k) (ss ! k)) (bs ! Suc l) (ss ! Suc l) = S (bs ! l) (ss ! l)"
      using T k eq[of "Suc l" "Suc k"] src by (cases "l = k") (auto simp: slot_upd_apply moved_to_def)
  next
    fix b i assume a: "\<forall>l. k \<le> l \<and> l < m \<longrightarrow> (b, i) \<noteq> (bs ! Suc l, ss ! Suc l)"
    then have "(b, i) \<noteq> (bs ! Suc k, ss ! Suc k)" using k by auto
    with a T show "slot_upd T (bs ! Suc k) (ss ! Suc k) (T (bs ! k) (ss ! k)) b i = S b i"
      by (auto simp: slot_upd_apply moved_to_def)
  qed
qed

text \<open>The origin of what a slot holds half-way.\<close>

lemma moved_to_cases:
  assumes "moved_to S bs ss m k T"
  obtains (Stay) "T b i = S b i" "\<forall>l. k \<le> l \<and> l < m \<longrightarrow> (b, i) \<noteq> (bs ! Suc l, ss ! Suc l)"
    | (Move) l where "k \<le> l" "l < m" "b = bs ! Suc l" "i = ss ! Suc l" "T b i = S (bs ! l) (ss ! l)"
proof (cases "\<exists>l. k \<le> l \<and> l < m \<and> b = bs ! Suc l \<and> i = ss ! Suc l")
  case True
  then obtain l where "k \<le> l" "l < m" "b = bs ! Suc l" "i = ss ! Suc l" by blast
  with assms show ?thesis by (intro Move) (auto simp: moved_to_def)
next
  case False
  with assms show ?thesis by (intro Stay) (auto simp: moved_to_def)
qed

lemma moved_to_shows:
  assumes inv: "tbl_inv B i1 i2 S" and path: "shift_path B i1 i2 S m bs ss" and b12: "i1 hash < B" "i2 hash < B"
    and V: "\<And>b j. tbl_live B S hash b j \<Longrightarrow> snd (S b j) \<in> V" and T: "moved_to S bs ss m k T"
    and b: "b \<in> {i1 hash, i2 hash}"
  shows "find_at T b hash \<in> insert [] V"
proof (cases rule: find_at_cases[of T b hash])
  case (match i)
  show ?thesis
  proof (cases rule: moved_to_cases[OF T, of b i])
    case 1
    then show ?thesis using match V[of b i] b b12 by (cases "snd (S b i) = []") (auto simp: tbl_live_def)
  next
    case (2 l)
    then have "bs ! l < B" "ss ! l < CMAP_K" using path by (auto simp: shift_path_def)
    then show ?thesis using match 2 V[of "bs ! l" "ss ! l"]
      by (cases "snd (S (bs ! l) (ss ! l)) = []") (auto simp: tbl_live_def)
  qed
qed simp

text \<open>A node that is still in its old place is found there, and one that has moved is found in the next
  bucket of the path. Neither is the position \<open>k\<close> that is overwritten next.\<close>

lemma moved_to_first:
  assumes path: "shift_path B i1 i2 S m bs ss" and T: "moved_to S bs ss m k T"
    and none: "\<forall>j' < j. fst (S b j') \<noteq> hash" and new: "\<And>l. k \<le> l \<Longrightarrow> l < m \<Longrightarrow> b = bs ! Suc l \<Longrightarrow> ss ! Suc l < j \<Longrightarrow> fst (S (bs ! l) (ss ! l)) \<noteq> hash"
  shows "\<forall>j' < j. fst (T b j') \<noteq> hash"
proof (intro allI impI)
  fix j' assume "j' < j"
  then show "fst (T b j') \<noteq> hash"
    by (cases rule: moved_to_cases[OF T, of b j']) (use none new in auto)
qed

lemma moved_to_sees:
  assumes inv: "tbl_inv B i1 i2 S" and path: "shift_path B i1 i2 S m bs ss"
    and live: "tbl_live B S hash b j" and V: "snd (S b j) \<in> V" and T: "moved_to S bs ss m k T" and k: "k \<le> m"
  shows "seen_off V (i1 hash) (i2 hash) hash T (bs ! k) (ss ! k)"
proof -
  note eq = shift_path_nth_eq[OF path]
  have j: "j < CMAP_K" "fst (S b j) = hash" "snd (S b j) \<noteq> []" using live by (auto simp: tbl_live_def)
  have only: "(b', j') = (b, j)" if "b' < B" "j' < CMAP_K" "fst (S b' j') = hash" "snd (S b' j') \<noteq> []" for b' j'
    using tbl_unique[OF inv live, of b' j'] that by (auto simp: tbl_live_def)
  have p: "bs ! l < B" "ss ! l < CMAP_K" if "l \<le> m" for l using path that by (auto simp: shift_path_def)
  have full: "snd (S (bs ! l) i) \<noteq> []" if "l < m" "i < CMAP_K" for l i using path that by (auto simp: shift_path_def)
  show ?thesis
  proof (cases "\<exists>l. k \<le> l \<and> l < m \<and> b = bs ! l \<and> j = ss ! l")
    case True
    then obtain l where l: "k \<le> l" "l < m" "b = bs ! l" "j = ss ! l" by blast
    let ?b = "bs ! Suc l" and ?j = "ss ! Suc l"
    have "?b \<noteq> b" using eq[of "Suc l" l] l by simp
    have at: "T ?b ?j = S b j" using T l by (simp add: moved_to_def)
    have "fst (S ?b j') \<noteq> hash" if "j' < ?j" for j'
    proof -
      have "j' < CMAP_K" using that p(2)[of "Suc l"] l(2) by simp
      moreover have "snd (S ?b j') \<noteq> []"
        using path that full[of "Suc l" j'] l(2) calculation by (cases "Suc l = m") (auto simp: shift_path_def)
      ultimately show ?thesis using only[of ?b j'] p(1)[of "Suc l"] l(2) \<open>?b \<noteq> b\<close> by auto
    qed
    moreover have "l' = l" if "l' < m" "?b = bs ! Suc l'" for l' using eq[of "Suc l'" "Suc l"] that l(2) by simp
    ultimately have first: "\<forall>j' < ?j. fst (T ?b j') \<noteq> hash"
      by (intro moved_to_first[OF path T]) auto
    have "?b = i1 hash \<or> ?b = i2 hash" using path l j(2) by (auto simp: shift_path_def)
    moreover have "(?b, ?j) \<noteq> (bs ! k, ss ! k)" using eq[of "Suc l" k] l by auto
    ultimately show ?thesis using first at j V p(2)[of "Suc l"] l(2) unfolding seen_off_def by (metis Suc_leI insertCI)
  next
    case False
    have stay: "T b j = S b j"
    proof (cases rule: moved_to_cases[OF T, of b j])
      case (2 l)
      then have "Suc l = m \<or> k \<le> Suc l \<and> Suc l < m" by auto
      then show ?thesis using False 2 path j(3) by (auto simp: shift_path_def)
    qed simp
    have "\<forall>j' < j. fst (T b j') \<noteq> hash"
    proof (rule moved_to_first[OF path T])
      show "\<forall>j' < j. fst (S b j') \<noteq> hash" using tbl_first[OF inv live] by blast
      show "fst (S (bs ! l) (ss ! l)) \<noteq> hash" if "k \<le> l" "l < m" "b = bs ! Suc l" for l
        using only[of "bs ! l" "ss ! l"] p[of l] full[of l "ss ! l"] that eq[of l "Suc l"] by auto
    qed
    moreover have "(b, j) \<noteq> (bs ! k, ss ! k)" using False k j(3) path by (cases "k = m") (auto simp: shift_path_def)
    moreover have "b = i1 hash \<or> b = i2 hash" using tbl_placed[OF inv live] .
    ultimately show ?thesis using stay j V unfolding seen_off_def by (metis insertCI)
  qed
qed

lemma seen_off_find: "seen_off V b1 b2 hash S k i \<Longrightarrow> \<exists>b \<in> {b1, b2}. find_at S b hash \<in> V"
  using find_at_match[of _ S _ hash] unfolding seen_off_def by metis

lemma live_chain:
  assumes wf: "cmap_wf impl" and V: "cmap_abs impl hash \<in> V"
  shows "tbl_live (nbuckets impl) (slot_at impl) hash b j \<Longrightarrow> snd (slot_at impl b j) \<in> V"
    and "[] \<notin> V \<Longrightarrow> \<exists>b j. tbl_live (nbuckets impl) (slot_at impl) hash b j"
proof -
  show "snd (slot_at impl b j) \<in> V" if "tbl_live (nbuckets impl) (slot_at impl) hash b j"
  proof -
    have "tbl_chain (nbuckets impl) (slot_at impl) hash (snd (slot_at impl b j))"
      using that by (auto simp: tbl_chain_def tbl_live_def)
    then show ?thesis using cmap_abs_eq[OF wf] V by metis
  qed
  show "[] \<notin> V \<Longrightarrow> \<exists>b j. tbl_live (nbuckets impl) (slot_at impl) hash b j"
    using cmap_abs_chain[OF wf, of hash] V by (auto simp: tbl_chain_def)
qed

lemma contents_ok_moved:
  assumes wf: "cmap_wf impl" and V: "cmap_abs impl hash \<in> V" and k: "k \<le> m"
    and path: "shift_path (nbuckets impl) (idx1 impl) (idx2 impl) (slot_at impl) m bs ss"
    and T: "moved_to (slot_at impl) bs ss m k T"
  shows "contents_ok V (idx1 impl hash) (idx2 impl hash) hash T"
    and "[] \<notin> V \<Longrightarrow> seen_off V (idx1 impl hash) (idx2 impl hash) hash T (bs ! k) (ss ! k)"
proof -
  from wf have shape: "cmap_shape impl" and inv: "tbl_inv (nbuckets impl) (idx1 impl) (idx2 impl) (slot_at impl)"
    by (simp_all add: cmap_wf_def)
  show see: "seen_off V (idx1 impl hash) (idx2 impl hash) hash T (bs ! k) (ss ! k)" if "[] \<notin> V"
    using live_chain(2)[OF wf V that] live_chain(1)[OF wf V] moved_to_sees[OF inv path _ _ T k] by blast
  show "contents_ok V (idx1 impl hash) (idx2 impl hash) hash T"
    using moved_to_shows[OF inv path idx_less[OF shape] live_chain(1)[OF wf V] T] seen_off_find[OF see]
    unfolding contents_ok_def by blast
qed

lemma rev_take_Suc: "k < length z \<Longrightarrow> rev (take (Suc k) z) = z ! k # rev (take k z)"
  by (simp add: take_Suc_conv_app_nth)

lemma move_back_trace:
  assumes wf: "cmap_wf impl0" and V: "cmap_abs impl0 hash \<in> V" and k: "k \<le> m"
    and path: "shift_path (nbuckets impl0) (idx1 impl0) (idx2 impl0) (slot_at impl0) m bs ss"
    and T: "moved_to (slot_at impl0) bs ss m k (slot_at impl)" and shape: "cmap_shape impl" and nb: "nbuckets impl = nbuckets impl0"
  shows "let ps = rev (take (Suc k) (zip bs ss)) in
     trace_ok V (idx1 impl0 hash) (idx2 impl0 hash) hash impl (move_back_writes impl ps) \<and>
     foldl do_wr impl (move_back_writes impl ps) = move_back impl ps \<and>
     moved_to (slot_at impl0) bs ss m 0 (slot_at (move_back impl ps))"
  using k T shape nb
proof (induction k arbitrary: impl)
  case 0
  have "length (zip bs ss) = Suc m" using path by (simp add: shift_path_def)
  then have "rev (take (Suc 0) (zip bs ss)) = [zip bs ss ! 0]" by (simp add: take_Suc_conv_app_nth)
  with contents_ok_moved(1)[OF wf V 0(1) path 0(2)] 0(2) show ?case by (simp add: state_okI Let_def)
next
  case (Suc k)
  let ?z = "zip bs ss"
  have len: "length ?z = Suc m" using path by (simp add: shift_path_def)
  let ?d = "(bs ! Suc k, ss ! Suc k)" and ?s = "(bs ! k, ss ! k)" and ?rest = "rev (take k ?z)"
  have ps: "rev (take (Suc (Suc k)) ?z) = ?d # ?s # ?rest" "rev (take (Suc k) ?z) = ?s # ?rest"
    using Suc.prems(1) len by (simp_all add: rev_take_Suc)
  have d: "fst ?d < nbuckets impl" "snd ?d < CMAP_K" using path Suc.prems(1,4) by (auto simp: shift_path_def)
  obtain h c where hc: "slot_at impl (bs ! k) (ss ! k) = (h, c)" by fastforce
  let ?impl = "move_node impl ?d ?s"
  note mv = move_node_eq[OF Suc.prems(3) d, of ?s]
  have T': "moved_to (slot_at impl0) bs ss m k (slot_at ?impl)"
    using moved_to_step(2)[OF path Suc.prems(1,2)] mv(1) by simp
  have w: "move_node_writes impl ?d ?s = set_bucket_writes impl (bs ! Suc k) (ss ! Suc k) c h"
    using hc by (simp add: move_node_writes_def slot_at_def)
  have tr: "trace_ok V (idx1 impl0 hash) (idx2 impl0 hash) hash impl (move_node_writes impl ?d ?s)"
    unfolding w using contents_ok_moved[OF wf V Suc.prems(1) path Suc.prems(2)]
      contents_ok_moved(1)[OF wf V _ path T'] Suc.prems(1) mv(1) hc d
    by (intro set_bucket_trace[OF Suc.prems(3)]) simp_all
  have do: "foldl do_wr impl (move_node_writes impl ?d ?s) = ?impl"
    using set_bucket_writes_do[OF Suc.prems(3) d, of c h] hc by (simp add: w move_node_def slot_at_def)
  from Suc.IH[OF _ T' mv(2)] Suc.prems(1,4) trace_ok_append[OF tr] show ?case
    unfolding ps by (simp add: Let_def do)
qed

section \<open>Insertion\<close>

lemma insert_dup_writes_do:
  assumes "cmap_shape impl" and "k < nbuckets impl"
  shows "map_option (foldl do_wr impl) (insert_dup_writes c hash impl k) =
    map_option (put_bucket impl k) (cmap_insert_dup c hash (ci_buckets impl ! k))"
  using first_slot_SomeD[of "\<lambda>s. fst s = hash" "cb_slots (ci_buckets impl ! k)"]
  by (auto simp: insert_dup_writes_def cmap_insert_dup_def do_wr.simps Let_def split: option.splits)

lemma insert_bucket_writes_do:
  assumes shape: "cmap_shape impl" and k: "k < nbuckets impl"
  shows "map_option (foldl do_wr impl) (insert_bucket_writes c hash impl k) =
    map_option (put_bucket impl k) (cmap_insert_bucket c hash (ci_buckets impl ! k))"
  using first_slot_SomeD[of "\<lambda>s. snd s = []" "cb_slots (ci_buckets impl ! k)"] cmap_shape_bucket[OF assms]
    set_bucket_writes_do[OF assms]
  by (auto simp: insert_bucket_writes_def cmap_insert_bucket_def cmap_find_empty_slot_protected_def split: option.splits)

lemma find_at_node:
  "fst (S k i) \<noteq> hash \<Longrightarrow> find_at (slot_upd S k i (fst (S k i), node)) b hash = find_at S b hash"
  by (cases rule: find_at_cases[of S b hash]) (auto simp: slot_upd_apply find_at_none intro!: trans[OF find_at_match] split: if_splits)

lemma node_write_trace:
  assumes wf: "cmap_wf impl" and k: "k < nbuckets impl" and i: "i < CMAP_K"
    and fits: "slot_fits (nbuckets impl) (idx1 impl) (idx2 impl) (slot_at impl) h k i" and h: "fst (slot_at impl k i) = h"
    and wf': "cmap_wf (do_wr impl (Wr_Node k i node))"
    and V: "cmap_abs impl hash \<in> V" "cmap_abs (do_wr impl (Wr_Node k i node)) hash \<in> V"
  shows "trace_ok V (idx1 impl hash) (idx2 impl hash) hash impl [Wr_Node k i node]"
proof -
  let ?S = "slot_at impl" and ?impl = "do_wr impl (Wr_Node k i node)"
  from wf have shape: "cmap_shape impl" by (rule cmap_wf_shape)
  have "idx1 ?impl = idx1 impl" "idx2 ?impl = idx2 impl" by (simp_all add: do_wr.simps Let_def)
  then have after: "state_ok V (idx1 impl hash) (idx2 impl hash) hash ?impl"
    using contents_ok_wf(1)[OF wf' V(2)] by (intro state_okI) simp
  have S': "slot_at ?impl = slot_upd ?S k i (fst (?S k i), node)"
    by (rule slot_at_wr_node_upd(1)[OF k]) (use i cmap_shape_bucket[OF shape k] in simp)
  have "find_at (slot_at ?impl) k hash = []" if "[] \<notin> V" "find_at ?S k hash = []"
  proof (cases "h = hash")
    case True
    have "\<forall>j < i. fst (?S k j) \<noteq> hash" using fits True by (simp add: slot_fits_def)
    then have "find_at ?S k hash = snd (?S k i)" using find_at_match[OF i] h True by blast
    moreover have "cmap_abs impl hash = snd (?S k i)"
      using slot_fits_chain[OF fits h] cmap_abs_chain[OF wf, of h] True by simp
    ultimately show ?thesis using that V(1) by simp
  next
    case False
    then show ?thesis using find_at_node[of ?S k i hash node k] h that(2) S' by simp
  qed
  then show ?thesis using after contents_ok_wf(1)[OF wf V(1)] by (simp add: state_okI)
qed

lemma insert_bfs_trace:
  assumes wf: "cmap_wf impl" and full: "full impl (idx1 impl h)" "full impl (idx2 impl h)"
    and ws: "insert_bfs_writes impl c h (idx1 impl h) (idx2 impl h) = Some ws"
    and ins: "cmap_insert_bfs impl c h (idx1 impl h) (idx2 impl h) = Some impl'" and wf': "cmap_wf impl'"
    and V: "cmap_abs impl hash \<in> V" "cmap_abs impl' hash \<in> V"
  shows "trace_ok V (idx1 impl hash) (idx2 impl hash) hash impl ws" and "foldl do_wr impl ws = impl'"
proof -
  let ?b1 = "idx1 impl h" and ?b2 = "idx2 impl h"
  have shape: "cmap_shape impl" using wf by (rule cmap_wf_shape)
  from ws obtain p i j where srch: "bfs_search impl (bfs_start ?b1 ?b2) 0 = Some (p, i, j)"
    by (auto simp: insert_bfs_writes_def split: option.splits)
  have found: "bfs_found impl ?b1 ?b2 p i j"
    by (rule bfs_search_inv[OF shape bfs_start_inv[OF idx_less[OF shape] full] srch])
  define bs where "bs = path_buckets impl (cp_start p) (cp_slots p @ [i])"
  define ss where "ss = cp_slots p @ [i, j]"
  define m where "m = Suc (depth p)"
  define mid where "mid = move_back impl (rev (zip bs ss))"
  have path: "shift_path (nbuckets impl) (idx1 impl) (idx2 impl) (slot_at impl) m bs ss"
    unfolding bs_def ss_def m_def by (rule bfs_found_path[OF shape found])
  then have len: "length bs = Suc m" "length ss = Suc m" and pos: "bs ! 0 < nbuckets impl" "ss ! 0 < CMAP_K"
    and rng: "\<forall>p \<in> set (rev (zip bs ss)). fst p < nbuckets impl \<and> snd p < CMAP_K"
    by (auto simp: shift_path_def in_set_zip less_Suc_eq_le)
  have hd: "hd bs = bs ! 0" "hd ss = ss ! 0" using len by (cases bs; cases ss; simp)+
  from move_back_eq[OF shape rng] have mid: "cmap_shape mid" "same_config impl mid" by (simp_all add: mid_def)
  have nb: "nbuckets mid = nbuckets impl" using same_config_idx(3)[OF mid(2)] .
  have "rev (take (Suc m) (zip bs ss)) = rev (zip bs ss)" using len by simp
  with move_back_trace[OF wf V(1) order_refl path moved_to_start shape refl]
  have tr: "trace_ok V (idx1 impl hash) (idx2 impl hash) hash impl (move_back_writes impl (rev (zip bs ss)))"
    and do: "foldl do_wr impl (move_back_writes impl (rev (zip bs ss))) = mid"
    and T: "moved_to (slot_at impl) bs ss m 0 (slot_at mid)" by (simp_all add: Let_def mid_def)
  have ws': "ws = move_back_writes impl (rev (zip bs ss)) @ set_bucket_writes mid (bs ! 0) (ss ! 0) c h"
    using ws srch by (simp add: insert_bfs_writes_def Let_def hd flip: bs_def ss_def mid_def)
  have impl': "impl' = put_bucket mid (bs ! 0) (cmap_set_bucket (ci_buckets mid ! (bs ! 0)) (ss ! 0) c h)"
    using ins srch by (simp add: cmap_insert_bfs_def Let_def hd flip: bs_def ss_def mid_def)
  have S': "slot_at impl' = slot_upd (slot_at mid) (bs ! 0) (ss ! 0) (h, c)"
    unfolding impl' using mid(1) pos nb by (intro slot_at_put_bucket) simp_all
  have cfg: "same_config impl impl'" unfolding impl' by (rule same_config_trans[OF mid(2)]) simp
  have "trace_ok V (idx1 impl hash) (idx2 impl hash) hash mid (set_bucket_writes mid (bs ! 0) (ss ! 0) c h)"
    using contents_ok_moved[OF wf V(1) _ path T] contents_ok_wf(1)[OF wf' V(2)] S' same_config_idx[OF cfg] pos nb
    by (intro set_bucket_trace[OF mid(1)]) simp_all
  then show "trace_ok V (idx1 impl hash) (idx2 impl hash) hash impl ws" unfolding ws' using tr do by (intro trace_ok_append) simp_all
  show "foldl do_wr impl ws = impl'"
    unfolding ws' impl' using set_bucket_writes_do[OF mid(1), of "bs ! 0" "ss ! 0"] pos nb do by simp
qed

text \<open>What the writes of an operation have to do: they are those of the operation, and they keep what the
  readers of every hash rely on.\<close>

definition writes_ok :: "'n cmap_impl \<Rightarrow> 'n wr list \<Rightarrow> 'n cmap_impl \<Rightarrow> bool" where
  "writes_ok impl ws impl' \<longleftrightarrow> foldl do_wr impl ws = impl' \<and>
     (\<forall>hash V. cmap_abs impl hash \<in> V \<longrightarrow> cmap_abs impl' hash \<in> V \<longrightarrow>
        trace_ok V (idx1 impl hash) (idx2 impl hash) hash impl ws)"

lemma insert_dup_writes_ok:
  assumes wf: "cmap_wf impl" and k: "k < nbuckets impl"
    and b: "k = idx1 impl h \<or> k = idx2 impl h \<and> (\<forall>j < CMAP_K. fst (slot_at impl (idx1 impl h) j) \<noteq> h)"
    and ins: "cmap_insert_dup c h (ci_buckets impl ! k) = Some b'" and wf': "cmap_wf (put_bucket impl k b')"
  shows "\<exists>ws. insert_dup_writes c h impl k = Some ws \<and> writes_ok impl ws (put_bucket impl k b')"
proof -
  from wf have shape: "cmap_shape impl" and inv: "tbl_inv (nbuckets impl) (idx1 impl) (idx2 impl) (slot_at impl)"
    by (simp_all add: cmap_wf_def)
  from ins obtain i where i: "first_slot (\<lambda>s. fst s = h) (cb_slots (ci_buckets impl ! k)) = Some i"
    by (auto simp: cmap_insert_dup_def split: option.splits)
  note D = first_slot_SomeD[OF i, unfolded cmap_shape_bucket[OF shape k], folded slot_at_def]
  have fits: "slot_fits (nbuckets impl) (idx1 impl) (idx2 impl) (slot_at impl) h k i"
    by (rule slot_fits_dup[OF inv k D b])
  have ws: "insert_dup_writes c h impl k = Some [Wr_Node k i (c @ snd (slot_at impl k i))]"
    using i by (simp add: insert_dup_writes_def slot_at_def)
  have do: "do_wr impl (Wr_Node k i (c @ snd (slot_at impl k i))) = put_bucket impl k b'"
    using insert_dup_writes_do[OF shape k, of c h] ws ins by simp
  show ?thesis using node_write_trace[OF wf k D(1) fits D(2), of "c @ snd (slot_at impl k i)"] wf' ws
    by (simp add: writes_ok_def do)
qed

lemma insert_bucket_writes_ok:
  assumes wf: "cmap_wf impl" and k: "k < nbuckets impl"
    and ins: "cmap_insert_bucket c h (ci_buckets impl ! k) = Some b'" and wf': "cmap_wf (put_bucket impl k b')"
  shows "\<exists>ws. insert_bucket_writes c h impl k = Some ws \<and> writes_ok impl ws (put_bucket impl k b')"
proof -
  have shape: "cmap_shape impl" using wf by (rule cmap_wf_shape)
  from ins obtain i where i: "first_slot (\<lambda>s. snd s = []) (cb_slots (ci_buckets impl ! k)) = Some i"
    and b': "b' = cmap_set_bucket (ci_buckets impl ! k) i c h"
    by (auto simp: cmap_insert_bucket_def cmap_find_empty_slot_protected_def split: option.splits)
  note D = first_slot_SomeD[OF i, unfolded cmap_shape_bucket[OF shape k], folded slot_at_def]
  have ws: "insert_bucket_writes c h impl k = Some (set_bucket_writes impl k i c h)"
    using i by (simp add: insert_bucket_writes_def cmap_find_empty_slot_protected_def)
  have S': "slot_at (put_bucket impl k b') = slot_upd (slot_at impl) k i (h, c)"
    using slot_at_put_bucket[OF shape k D(1), of b'] by (simp add: b')
  have "trace_ok V (idx1 impl hash) (idx2 impl hash) hash impl (set_bucket_writes impl k i c h)"
    if V: "cmap_abs impl hash \<in> V" "cmap_abs (put_bucket impl k b') hash \<in> V" for V hash
  proof (rule set_bucket_trace[OF shape k D(1) contents_ok_wf(1)[OF wf V(1)]])
    show "seen_off V (idx1 impl hash) (idx2 impl hash) hash (slot_at impl) k i" if "[] \<notin> V"
      using contents_ok_wf(2)[OF wf V(1) that] D(2) unfolding seen_off_def tbl_live_def by (metis Pair_inject)
    show "contents_ok V (idx1 impl hash) (idx2 impl hash) hash (slot_upd (slot_at impl) k i (h, c))"
      using contents_ok_wf(1)[OF wf' V(2)] S' by simp
  qed
  with set_bucket_writes_do[OF shape k D(1)] ws show ?thesis by (simp add: writes_ok_def b')
qed

lemma try_insert_writes_ok:
  assumes wf: "cmap_wf impl" and c: "c \<noteq> []" and ins: "cmap_try_insert impl c h = Some impl'"
  shows "\<exists>ws. try_insert_writes impl c h = Some ws \<and> writes_ok impl ws impl'"
proof -
  let ?b1 = "idx1 impl h" and ?b2 = "idx2 impl h"
  from wf have shape: "cmap_shape impl" by (rule cmap_wf_shape)
  have wf': "cmap_wf impl'" using cmap_try_insert_inserts[OF wf c ins] by (simp add: inserts_def)
  note less = idx_less[OF shape, of h]
  note w = try_insert_writes_def[of impl c h, unfolded Let_def, folded idx1_def idx2_def]
  note ins' = ins[unfolded cmap_try_insert_def Let_def, folded idx1_def idx2_def]
  have dup: "insert_dup_writes c h impl k = None \<longleftrightarrow> cmap_insert_dup c h (ci_buckets impl ! k) = None"
    and buc: "insert_bucket_writes c h impl k = None \<longleftrightarrow> cmap_insert_bucket c h (ci_buckets impl ! k) = None" for k
    by (auto simp: insert_dup_writes_def cmap_insert_dup_def insert_bucket_writes_def cmap_insert_bucket_def simp del: first_slot_None split: option.splits)
  consider (dup1) b where "cmap_insert_dup c h (ci_buckets impl ! ?b1) = Some b"
    | (dup2) b where "cmap_insert_dup c h (ci_buckets impl ! ?b1) = None" "cmap_insert_dup c h (ci_buckets impl ! ?b2) = Some b"
    | (buc1) b where "cmap_insert_dup c h (ci_buckets impl ! ?b1) = None" "cmap_insert_dup c h (ci_buckets impl ! ?b2) = None"
        "cmap_insert_bucket c h (ci_buckets impl ! ?b1) = Some b"
    | (buc2) b where "cmap_insert_dup c h (ci_buckets impl ! ?b1) = None" "cmap_insert_dup c h (ci_buckets impl ! ?b2) = None"
        "cmap_insert_bucket c h (ci_buckets impl ! ?b1) = None" "cmap_insert_bucket c h (ci_buckets impl ! ?b2) = Some b"
    | (bfs) "cmap_insert_dup c h (ci_buckets impl ! ?b1) = None" "cmap_insert_dup c h (ci_buckets impl ! ?b2) = None"
        "cmap_insert_bucket c h (ci_buckets impl ! ?b1) = None" "cmap_insert_bucket c h (ci_buckets impl ! ?b2) = None"
    by fastforce
  then show ?thesis
  proof cases
    case dup1
    with insert_dup_writes_ok[OF wf less(1) _ dup1] ins' wf' w show ?thesis by auto
  next
    case dup2
    have "\<forall>j < CMAP_K. fst (slot_at impl ?b1 j) \<noteq> h" using no_hash_iff[OF shape less(1), of c h] dup2(1) by blast
    moreover have "insert_dup_writes c h impl ?b1 = None" using dup dup2(1) by simp
    ultimately show ?thesis using insert_dup_writes_ok[OF wf less(2) _ dup2(2)] dup2 ins' wf' w by auto
  next
    case buc1
    moreover from this have "insert_dup_writes c h impl ?b1 = None" "insert_dup_writes c h impl ?b2 = None" using dup by simp_all
    ultimately show ?thesis using insert_bucket_writes_ok[OF wf less(1) buc1(3)] ins' wf' w by auto
  next
    case buc2
    moreover from this have "insert_dup_writes c h impl ?b1 = None" "insert_dup_writes c h impl ?b2 = None"
      "insert_bucket_writes c h impl ?b1 = None" using dup buc by simp_all
    ultimately show ?thesis using insert_bucket_writes_ok[OF wf less(2) buc2(4)] ins' wf' w by auto
  next
    case bfs
    then have full: "full impl ?b1" "full impl ?b2" by (simp_all add: full_def cmap_insert_bucket_def split: option.splits)
    have bi: "cmap_insert_bfs impl c h ?b1 ?b2 = Some impl'" using ins' bfs by simp
    then obtain ws where ws: "insert_bfs_writes impl c h ?b1 ?b2 = Some ws"
      by (auto simp: cmap_insert_bfs_def insert_bfs_writes_def Let_def split: option.splits)
    have "insert_dup_writes c h impl ?b1 = None" "insert_dup_writes c h impl ?b2 = None"
      "insert_bucket_writes c h impl ?b1 = None" "insert_bucket_writes c h impl ?b2 = None" using bfs dup buc by simp_all
    then have "try_insert_writes impl c h = Some ws" using w ws by simp
    with insert_bfs_trace[OF wf full ws bi wf'] insert_bfs_trace(2)[OF wf full ws bi wf', where V = UNIV]
    show ?thesis by (auto simp: writes_ok_def)
  qed
qed

section \<open>Removal and replacement\<close>

definition replace_bucket_writes :: "'n cmap_impl \<Rightarrow> 'n \<Rightarrow> 'n option \<Rightarrow> u32 \<Rightarrow> u32 \<Rightarrow> 'n wr list option result" where
  "replace_bucket_writes impl node replacement hash h =
     (let k = bucket_idx impl h; b = ci_buckets impl ! k
      in case cmap_find_slot_protected b hash of
           None \<Rightarrow> Inr None
         | Some slot \<Rightarrow>
             rbind (chain_replace node replacement (snd (cb_slots b ! slot))) (\<lambda>chain.
             Inr (Some [Wr_Node k slot chain])))"

lemma replace_bucket_writes_ok:
  assumes wf: "cmap_wf impl"
  shows "case cmap_replace_bucket impl node rep h (f impl h) of
      Inl e \<Rightarrow> replace_bucket_writes impl node rep h (f impl h) = Inl e
    | Inr None \<Rightarrow> replace_bucket_writes impl node rep h (f impl h) = Inr None
    | Inr (Some impl') \<Rightarrow> \<exists>ws. replace_bucket_writes impl node rep h (f impl h) = Inr (Some ws) \<and> writes_ok impl ws impl' \<and>
        cmap_wf impl' \<and> same_config impl impl'"
proof -
  let ?k = "bucket_idx impl (f impl h)"
  have shape: "cmap_shape impl" and inv: "tbl_inv (nbuckets impl) (idx1 impl) (idx2 impl) (slot_at impl)"
    using wf by (simp_all add: cmap_wf_def)
  have kB: "?k < nbuckets impl" using bucket_idx_less[OF shape] .
  show ?thesis
  proof (cases "cmap_find_slot_protected (ci_buckets impl ! ?k) h")
    case None
    then show ?thesis by (simp add: cmap_replace_bucket_def replace_bucket_writes_def Let_def)
  next
    case (Some i)
    note l = find_slot_protected_live(1)[OF shape kB Some]
    then have i: "i < CMAP_K" "fst (slot_at impl ?k i) = h" by (simp_all add: tbl_live_def)
    show ?thesis
    proof (cases "chain_replace node rep (snd (slot_at impl ?k i))")
      case (Inl e)
      with Some show ?thesis by (simp add: cmap_replace_bucket_def replace_bucket_writes_def Let_def slot_at_def)
    next
      case (Inr c)
      define impl' where "impl' = do_wr impl (Wr_Node ?k i c)"
      have do: "impl' = put_bucket impl ?k ((ci_buckets impl ! ?k)\<lparr>cb_slots := (cb_slots (ci_buckets impl ! ?k))[i := (h, c)]\<rparr>)"
        using i(2) by (simp add: impl'_def do_wr.simps Let_def slot_at_def)
      have r: "rechained impl h c impl'" unfolding do by (rule put_slot_rechained[OF wf l refl])
      have "writes_ok impl [Wr_Node ?k i c] impl'"
        using node_write_trace[OF wf kB i(1) slot_fits_live[OF inv l] i(2), of c] r
        by (auto simp: writes_ok_def rechained_def simp flip: impl'_def)
      moreover have "cmap_replace_bucket impl node rep h (f impl h) = Inr (Some impl')"
        "replace_bucket_writes impl node rep h (f impl h) = Inr (Some [Wr_Node ?k i c])"
        using Some Inr i(2) do by (simp_all add: cmap_replace_bucket_def replace_bucket_writes_def Let_def slot_at_def)
      ultimately show ?thesis using r by (simp add: rechained_def)
    qed
  qed
qed

section \<open>Sequences of operations\<close>

text \<open>The operations of a writer on one table. Rehashing builds a new table and leaves this one, and the
  readers in it, alone.\<close>

datatype 'n map_op = Map_Insert 'n u32 | Map_Replace 'n "'n option" u32

fun op_writes :: "'n cmap_impl \<Rightarrow> 'n map_op \<Rightarrow> 'n wr list option" where
  "op_writes impl (Map_Insert node hash) = try_insert_writes impl [node] hash"
| "op_writes impl (Map_Replace node rep hash) =
     (let h1 = rehash impl hash; h2 = other_hash h1
      in case replace_bucket_writes impl node rep hash h1 of
           Inl e \<Rightarrow> None
         | Inr (Some ws) \<Rightarrow> Some ws
         | Inr None \<Rightarrow>
             (case replace_bucket_writes impl node rep hash h2 of Inr (Some ws) \<Rightarrow> Some ws | _ \<Rightarrow> None))"

text \<open>The operation itself.\<close>

fun op_result :: "'n cmap_impl \<Rightarrow> 'n map_op \<Rightarrow> 'n cmap_impl option" where
  "op_result impl (Map_Insert node hash) = cmap_try_insert impl [node] hash"
| "op_result impl (Map_Replace node rep hash) =
     (let h1 = rehash impl hash; h2 = other_hash h1
      in case cmap_replace_bucket impl node rep hash h1 of
           Inl e \<Rightarrow> None
         | Inr (Some impl') \<Rightarrow> Some impl'
         | Inr None \<Rightarrow>
             (case cmap_replace_bucket impl node rep hash h2 of Inr (Some impl') \<Rightarrow> Some impl' | _ \<Rightarrow> None))"

text \<open>All writes of a sequence of operations, and the tables between them.\<close>

fun ops_writes :: "'n cmap_impl \<Rightarrow> 'n map_op list \<Rightarrow> ('n wr list \<times> 'n cmap_impl list) option" where
  "ops_writes impl [] = Some ([], [impl])"
| "ops_writes impl (x # xs) =
     (case (op_writes impl x, op_result impl x) of
        (Some ws, Some impl') \<Rightarrow> map_option (\<lambda>(ws', impls). (ws @ ws', impl # impls)) (ops_writes impl' xs)
      | _ \<Rightarrow> None)"

lemma op_writes_ok:
  assumes wf: "cmap_wf impl" and res: "op_result impl x = Some impl'"
  shows "\<exists>ws. op_writes impl x = Some ws \<and> writes_ok impl ws impl' \<and> cmap_wf impl' \<and> same_config impl impl'"
proof (cases x)
  case (Map_Insert node hash)
  then have "cmap_try_insert impl [node] hash = Some impl'" using res by simp
  with try_insert_writes_ok[OF wf _ this] cmap_try_insert_inserts[OF wf _ this] Map_Insert show ?thesis
    by (auto simp: inserts_def)
next
  case (Map_Replace node rep hash)
  with replace_bucket_writes_ok[OF wf, of node rep hash rehash]
    replace_bucket_writes_ok[OF wf, of node rep hash "\<lambda>impl h. other_hash (rehash impl h)"] res
  show ?thesis by (auto simp: Let_def split: sum.splits option.splits)
qed

lemma ops_writes_trace:
  assumes "cmap_wf impl" and "ops_writes impl xs = Some (ws, impls)" and "\<forall>m \<in> set impls. cmap_abs m hash \<in> V"
  shows "trace_ok V (idx1 impl hash) (idx2 impl hash) hash impl ws"
  using assms
proof (induction xs arbitrary: impl ws impls)
  case Nil
  then show ?case using contents_ok_wf(1)[of impl hash V] by (auto intro: state_okI)
next
  case (Cons x xs)
  then obtain ws1 impl' ws2 impls' where x: "op_writes impl x = Some ws1" "op_result impl x = Some impl'"
    "ops_writes impl' xs = Some (ws2, impls')" "ws = ws1 @ ws2" "impls = impl # impls'"
    by (auto split: option.splits)
  from op_writes_ok[OF Cons.prems(1) x(2)] x(1) have w: "writes_ok impl ws1 impl'" "cmap_wf impl'" "same_config impl impl'" by auto
  have "impl' \<in> set impls'" using x(3) by (cases xs) (auto split: option.splits)
  then have "trace_ok V (idx1 impl hash) (idx2 impl hash) hash impl ws1"
    using w(1) Cons.prems(3) x(5) by (simp add: writes_ok_def)
  moreover have "trace_ok V (idx1 impl hash) (idx2 impl hash) hash impl' ws2"
    using Cons.IH[OF w(2) x(3)] Cons.prems(3) x(5) same_config_idx[OF w(3)] by simp
  ultimately show ?case using w(1) x(4) by (auto simp: writes_ok_def intro: trace_ok_append)
qed

lemma concurrent_find:
  assumes "cmap_wf impl" and "ops_writes impl xs = Some (ws, impls)" and "length ws < 2 ^ 32"
    and "interleave sched (idx1 impl hash) (idx2 impl hash) hash impl ws Read_Counter1 = (impl', ws', Found node)"
  shows "node \<in> (\<lambda>m. cmap_abs m hash) ` set impls"
  by (rule interleave_found[OF ops_writes_trace[OF assms(1,2)] assms(3) _ assms(4)]) auto

section \<open>The reader returns\<close>

text \<open>How many steps a reader takes at most while nothing is written.\<close>

definition retry :: "'n cmap_impl \<Rightarrow> nat \<Rightarrow> u32 \<Rightarrow> nat \<Rightarrow> nat \<Rightarrow> nat" where
  "retry impl k c yes no = (if counter_at impl k = c then yes else no)"

fun reader_rank :: "'n cmap_impl \<Rightarrow> nat \<Rightarrow> nat \<Rightarrow> 'n reader \<Rightarrow> nat" where
  "reader_rank impl b1 b2 Read_Counter1 = 2 * CMAP_K + 7"
| "reader_rank impl b1 b2 (Scan1 c1 i) = CMAP_K - i + 2 + retry impl b1 c1 (CMAP_K + 4) (2 * CMAP_K + 7)"
| "reader_rank impl b1 b2 (Node1 c1 i) = 2 + retry impl b1 c1 (CMAP_K + 4) (2 * CMAP_K + 7)"
| "reader_rank impl b1 b2 (Check1 c1 node) = 1 + retry impl b1 c1 (CMAP_K + 4) (2 * CMAP_K + 7)"
| "reader_rank impl b1 b2 (Read_Counter2 c1) = CMAP_K + 3 + retry impl b1 c1 1 (2 * CMAP_K + 8)"
| "reader_rank impl b1 b2 (Scan2 c1 c2 i) =
     CMAP_K - i + 2 + retry impl b2 c2 0 (CMAP_K + 3) + retry impl b1 c1 1 (2 * CMAP_K + 8)"
| "reader_rank impl b1 b2 (Node2 c1 c2 i) = 2 + retry impl b2 c2 0 (CMAP_K + 3) + retry impl b1 c1 1 (2 * CMAP_K + 8)"
| "reader_rank impl b1 b2 (Check2 c1 c2 node) = 1 + retry impl b2 c2 0 (CMAP_K + 3) + retry impl b1 c1 1 (2 * CMAP_K + 8)"
| "reader_rank impl b1 b2 (Check_Again c1) = retry impl b1 c1 1 (2 * CMAP_K + 8)"
| "reader_rank impl b1 b2 (Found node) = 0"

lemma reader_rank_step:
  assumes "even (counter_at impl b1)" and "even (counter_at impl b2)"
  shows "reader_rank impl b1 b2 r = 0 \<or> reader_rank impl b1 b2 (reader_step impl b1 b2 hash r) < reader_rank impl b1 b2 r"
  using assms and_1_odd by (cases r) (auto simp: retry_def Let_def)

lemma reader_rank_0: "reader_rank impl b1 b2 r = 0 \<longleftrightarrow> (\<exists>node. r = Found node)"
  by (cases r) (auto simp: retry_def)

lemma reader_rank_bound: "reader_rank impl b1 b2 r \<le> 4 * CMAP_K + 13"
  by (cases r) (auto simp: retry_def)

lemma reader_returns:
  assumes "even (counter_at impl b1)" and "even (counter_at impl b2)" and "reader_rank impl b1 b2 r \<le> n"
  shows "\<exists>node. interleave (replicate n False) b1 b2 hash impl ws r = (impl, ws, Found node)"
  using assms(3)
proof (induction n arbitrary: r)
  case 0
  then show ?case using reader_rank_0[of impl b1 b2 r] by auto
next
  case (Suc n)
  have "reader_rank impl b1 b2 (reader_step impl b1 b2 hash r) \<le> n"
    using reader_rank_step[OF assms(1,2), of r hash] Suc.prems reader_rank_0[of impl b1 b2 r] by fastforce
  from Suc.IH[OF this] show ?case by simp
qed

end
