(* ===== verification/Cmap_Batch.thy ===== *)
theory Cmap_Batch
  imports Cmap_Writer Ovs_Bits
begin

text \<open>
  Looking up many hashes at once, \<^verbatim>\<open>cmap_find_batch()\<close>: first without a writer, where it returns what
  single lookups return, then step by step, interleaved with a writer. Each hash of a batch goes through
  the states of \<open>cmap_find__()\<close>: the first round leaves it found or before the second bucket, and the
  second round takes it from there, starting over if the first bucket has changed.
\<close>

unbundle bit_operations_syntax

section \<open>Without a writer\<close>

text \<open>Buckets are computed where they are needed instead of being kept in \<^verbatim>\<open>b1s\<close> and \<^verbatim>\<open>b2s\<close>. Without a writer no
  counter changes.\<close>

definition batch_bucket1 :: "'n cmap_impl \<Rightarrow> u32 \<Rightarrow> 'n cmap_bucket" where
  "batch_bucket1 impl hash = ci_buckets impl ! bucket_idx impl (rehash impl hash)"

definition batch_bucket2 :: "'n cmap_impl \<Rightarrow> u32 \<Rightarrow> 'n cmap_bucket" where
  "batch_bucket2 impl hash = ci_buckets impl ! bucket_idx impl (other_hash (rehash impl hash))"

fun batch_round1 :: "'n cmap_impl \<Rightarrow> u32 list \<Rightarrow> nat list \<Rightarrow> u64 \<Rightarrow> 'n list list \<Rightarrow> (u64 \<times> 'n list list) result" where
  "batch_round1 impl hashes [] mp nodes = Inr (mp, nodes)"
| "batch_round1 impl hashes (i # idxs) mp nodes =
     (if i < length hashes \<and> i < length nodes
      then let b1 = batch_bucket1 impl (hashes ! i) in
           rbind (of_option No_Return (read_even_counter b1)) (\<lambda>c1.
           let node = cmap_find_in_bucket b1 (hashes ! i) in
           if node = [] then batch_round1 impl hashes idxs mp nodes
           else batch_round1 impl hashes idxs (ULLONG_SET0 mp i) (nodes[i := node]))
      else Inl Wild_Pointer)"

fun batch_round2 :: "'n cmap_impl \<Rightarrow> u32 list \<Rightarrow> nat list \<Rightarrow> u64 \<Rightarrow> 'n list list \<Rightarrow> (u64 \<times> 'n list list) result" where
  "batch_round2 impl hashes [] res nodes = Inr (res, nodes)"
| "batch_round2 impl hashes (i # idxs) res nodes =
     (if i < length hashes \<and> i < length nodes
      then let b2 = batch_bucket2 impl (hashes ! i) in
           rbind (of_option No_Return (read_even_counter b2)) (\<lambda>c2.
           let node = cmap_find_in_bucket b2 (hashes ! i) in
           if node = [] then batch_round2 impl hashes idxs (ULLONG_SET0 res i) nodes
           else batch_round2 impl hashes idxs res (nodes[i := node]))
      else Inl Wild_Pointer)"

definition cmap_find_batch :: "'n cmap_impl \<Rightarrow> u64 \<Rightarrow> u32 list \<Rightarrow> 'n list list \<Rightarrow> (u64 \<times> 'n list list) result" where
  "cmap_find_batch impl mp hashes nodes =
     rbind (batch_round1 impl hashes (ullong_idxs mp) mp nodes) (\<lambda>(mp', nodes').
     batch_round2 impl hashes (ullong_idxs mp') mp nodes')"

section \<open>Step by step\<close>

datatype batch_phase = Round1 "nat list" | Round2 "nat list" | Batch_Done

record 'n batch =
  bt_map :: u64
  bt_result :: u64
  bt_nodes :: "'n list list"
  bt_readers :: "nat \<Rightarrow> 'n reader"
  bt_phase :: batch_phase

definition batch_start :: "u64 \<Rightarrow> 'n list list \<Rightarrow> 'n batch" where
  "batch_start mp nodes =
     \<lparr>bt_map = mp, bt_result = mp, bt_nodes = nodes, bt_readers = (\<lambda>_. Read_Counter1), bt_phase = Round1 (ullong_idxs mp)\<rparr>"

definition step_reader :: "'n cmap_impl \<Rightarrow> u32 list \<Rightarrow> nat \<Rightarrow> 'n batch \<Rightarrow> 'n batch" where
  "step_reader impl hashes i bt =
     bt\<lparr>bt_readers := (bt_readers bt)(i :=
          reader_step impl (idx1 impl (hashes ! i)) (idx2 impl (hashes ! i)) (hashes ! i) (bt_readers bt i))\<rparr>"

definition batch_step :: "'n cmap_impl \<Rightarrow> u32 list \<Rightarrow> 'n batch \<Rightarrow> 'n batch" where
  "batch_step impl hashes bt =
     (case bt_phase bt of
        Round1 [] \<Rightarrow> bt\<lparr>bt_phase := Round2 (ullong_idxs (bt_map bt))\<rparr>
      | Round1 (i # idxs) \<Rightarrow>
          (case bt_readers bt i of
             Found node \<Rightarrow> bt\<lparr>bt_map := ULLONG_SET0 (bt_map bt) i, bt_nodes := (bt_nodes bt)[i := node],
                              bt_phase := Round1 idxs\<rparr>
           | Read_Counter2 c1 \<Rightarrow> bt\<lparr>bt_phase := Round1 idxs\<rparr>
           | _ \<Rightarrow> step_reader impl hashes i bt)
      | Round2 [] \<Rightarrow> bt\<lparr>bt_phase := Batch_Done\<rparr>
      | Round2 (i # idxs) \<Rightarrow>
          (case bt_readers bt i of
             Found node \<Rightarrow>
               if node = [] then bt\<lparr>bt_result := ULLONG_SET0 (bt_result bt) i, bt_phase := Round2 idxs\<rparr>
               else bt\<lparr>bt_nodes := (bt_nodes bt)[i := node], bt_phase := Round2 idxs\<rparr>
           | _ \<Rightarrow> step_reader impl hashes i bt)
      | Batch_Done \<Rightarrow> bt)"

text \<open>As in \<open>interleave\<close>, a schedule gives the next step to the writer (\<open>True\<close>) or to the batch (\<open>False\<close>).\<close>

fun batch_interleave :: "bool list \<Rightarrow> u32 list \<Rightarrow> 'n cmap_impl \<Rightarrow> 'n wr list \<Rightarrow> 'n batch
    \<Rightarrow> 'n cmap_impl \<times> 'n wr list \<times> 'n batch" where
  "batch_interleave [] hashes impl ws bt = (impl, ws, bt)"
| "batch_interleave (True # sched) hashes impl [] bt = batch_interleave sched hashes impl [] bt"
| "batch_interleave (True # sched) hashes impl (w # ws) bt = batch_interleave sched hashes (do_wr impl w) ws bt"
| "batch_interleave (False # sched) hashes impl ws bt =
     batch_interleave sched hashes impl ws (batch_step impl hashes bt)"

section \<open>A batch without a writer\<close>

lemma shape_even:
  assumes "cmap_shape impl"
  shows "\<exists>c. read_even_counter (batch_bucket1 impl h) = Some c" "\<exists>c. read_even_counter (batch_bucket2 impl h) = Some c"
  using cmap_shape_counter[OF assms] bucket_idx_less[OF assms]
  by (auto simp: read_even_counter_def batch_bucket1_def batch_bucket2_def)

lemma abs_buckets:
  assumes "cmap_shape impl"
  shows "cmap_abs impl h =
    (if cmap_find_in_bucket (batch_bucket1 impl h) h \<noteq> [] then cmap_find_in_bucket (batch_bucket1 impl h) h
     else cmap_find_in_bucket (batch_bucket2 impl h) h)"
  using shape_even[OF assms, of h]
  by (auto simp: cmap_abs_def cmap_find_def Let_def cmap_find_buckets_def batch_bucket1_def batch_bucket2_def)

definition in_arrays :: "nat list \<Rightarrow> u32 list \<Rightarrow> 'n list list \<Rightarrow> bool" where
  "in_arrays idxs hashes nodes \<longleftrightarrow> (\<forall>i \<in> set idxs. i < length hashes \<and> i < length nodes)"

lemma batch_round1_ok:
  assumes "cmap_shape impl"
  shows "in_arrays idxs hashes nodes \<Longrightarrow> distinct idxs \<Longrightarrow>
    \<exists>mp' nodes'. batch_round1 impl hashes idxs mp nodes = Inr (mp', nodes') \<and> length nodes' = length nodes \<and>
      (\<forall>i. let node = cmap_find_in_bucket (batch_bucket1 impl (hashes ! i)) (hashes ! i); found = i \<in> set idxs \<and> node \<noteq> []
           in (bit mp' i \<longleftrightarrow> bit mp i \<and> \<not> found) \<and> nodes' ! i = (if found then node else nodes ! i))"
proof (induction idxs arbitrary: mp nodes)
  case (Cons i idxs)
  let ?node = "cmap_find_in_bucket (batch_bucket1 impl (hashes ! i)) (hashes ! i)"
  obtain c where c: "read_even_counter (batch_bucket1 impl (hashes ! i)) = Some c" using shape_even[OF assms] by blast
  have i: "i < length hashes" "i < length nodes" "i \<notin> set idxs" "distinct idxs" "in_arrays idxs hashes nodes"
    using Cons.prems by (auto simp: in_arrays_def)
  show ?case
  proof (cases "?node = []")
    case True
    with Cons.IH[OF i(5,4), of mp] c i show ?thesis by (fastforce simp: Let_def)
  next
    case False
    have "in_arrays idxs hashes (nodes[i := ?node])" using i(5) by (simp add: in_arrays_def)
    from Cons.IH[OF this i(4), of "ULLONG_SET0 mp i"] c i False show ?thesis
      by (fastforce simp: Let_def nth_list_update)
  qed
qed (simp add: Let_def)

lemma batch_round2_ok:
  assumes "cmap_shape impl"
  shows "in_arrays idxs hashes nodes \<Longrightarrow> distinct idxs \<Longrightarrow>
    \<exists>res' nodes'. batch_round2 impl hashes idxs res nodes = Inr (res', nodes') \<and> length nodes' = length nodes \<and>
      (\<forall>i. let node = cmap_find_in_bucket (batch_bucket2 impl (hashes ! i)) (hashes ! i)
           in (bit res' i \<longleftrightarrow> bit res i \<and> \<not> (i \<in> set idxs \<and> node = [])) \<and>
              nodes' ! i = (if i \<in> set idxs \<and> node \<noteq> [] then node else nodes ! i))"
proof (induction idxs arbitrary: res nodes)
  case (Cons i idxs)
  let ?node = "cmap_find_in_bucket (batch_bucket2 impl (hashes ! i)) (hashes ! i)"
  obtain c where c: "read_even_counter (batch_bucket2 impl (hashes ! i)) = Some c" using shape_even[OF assms] by blast
  have i: "i < length hashes" "i < length nodes" "i \<notin> set idxs" "distinct idxs" "in_arrays idxs hashes nodes"
    using Cons.prems by (auto simp: in_arrays_def)
  show ?case
  proof (cases "?node = []")
    case True
    with Cons.IH[OF i(5,4), of "ULLONG_SET0 res i"] c i show ?thesis by (fastforce simp: Let_def)
  next
    case False
    have "in_arrays idxs hashes (nodes[i := ?node])" using i(5) by (simp add: in_arrays_def)
    from Cons.IH[OF this i(4), of res] c i False show ?thesis
      by (fastforce simp: Let_def nth_list_update)
  qed
qed (simp add: Let_def)

lemma cmap_find_batch_ok:
  assumes shape: "cmap_shape impl" and arrays: "in_arrays (ullong_idxs mp) hashes nodes"
  shows "\<exists>res nodes'. cmap_find_batch impl mp hashes nodes = Inr (res, nodes') \<and> length nodes' = length nodes \<and>
    (\<forall>i. (bit res i \<longleftrightarrow> bit mp i \<and> cmap_abs impl (hashes ! i) \<noteq> []) \<and>
         nodes' ! i = (if bit res i then cmap_abs impl (hashes ! i) else nodes ! i))"
proof -
  note idxs = ullong_idxs_bits
  from batch_round1_ok[OF shape arrays, of mp] idxs[of mp] obtain mp1 nodes1 where
    r1: "batch_round1 impl hashes (ullong_idxs mp) mp nodes = Inr (mp1, nodes1)" "length nodes1 = length nodes"
    "\<And>i. bit mp1 i \<longleftrightarrow> bit mp i \<and> cmap_find_in_bucket (batch_bucket1 impl (hashes ! i)) (hashes ! i) = []"
    "\<And>i. nodes1 ! i = (if bit mp i \<and> cmap_find_in_bucket (batch_bucket1 impl (hashes ! i)) (hashes ! i) \<noteq> []
       then cmap_find_in_bucket (batch_bucket1 impl (hashes ! i)) (hashes ! i) else nodes ! i)"
    by (auto simp: Let_def)
  have "in_arrays (ullong_idxs mp1) hashes nodes1"
    using arrays r1(2,3) idxs by (auto simp: in_arrays_def)
  from batch_round2_ok[OF shape this, of mp] idxs[of mp1] obtain res nodes2 where
    r2: "batch_round2 impl hashes (ullong_idxs mp1) mp nodes1 = Inr (res, nodes2)" "length nodes2 = length nodes1"
    "\<And>i. bit res i \<longleftrightarrow> bit mp i \<and> \<not> (bit mp1 i \<and> cmap_find_in_bucket (batch_bucket2 impl (hashes ! i)) (hashes ! i) = [])"
    "\<And>i. nodes2 ! i = (if bit mp1 i \<and> cmap_find_in_bucket (batch_bucket2 impl (hashes ! i)) (hashes ! i) \<noteq> []
       then cmap_find_in_bucket (batch_bucket2 impl (hashes ! i)) (hashes ! i) else nodes1 ! i)"
    by (auto simp: Let_def)
  show ?thesis
    by (intro exI[of _ res] exI[of _ nodes2]) (auto simp: cmap_find_batch_def r1 r2 abs_buckets[OF shape])
qed

section \<open>A batch with a writer\<close>

lemma interleave_append:
  "interleave (s1 @ s2) b1 b2 hash impl ws r =
     (case interleave s1 b1 b2 hash impl ws r of (impl', ws', r') \<Rightarrow> interleave s2 b1 b2 hash impl' ws' r')"
  by (induction s1 b1 b2 hash impl ws r rule: interleave.induct) auto

text \<open>What one reader has seen so far: a run of its own, from the beginning.\<close>

definition reader_ran :: "'n cmap_impl \<Rightarrow> 'n wr list \<Rightarrow> u32 \<Rightarrow> 'n cmap_impl \<Rightarrow> 'n wr list \<Rightarrow> 'n reader \<Rightarrow> bool" where
  "reader_ran impl0 ws0 hash impl ws r \<longleftrightarrow>
     (\<exists>sched. interleave sched (idx1 impl0 hash) (idx2 impl0 hash) hash impl0 ws0 Read_Counter1 = (impl, ws, r))"

lemma do_wr_idx: "idx1 (do_wr impl w) = idx1 impl" "idx2 (do_wr impl w) = idx2 impl"
  by (cases w; simp add: fun_eq_iff idx1_def idx2_def do_wr.simps put_bucket_def Let_def rehash_def bucket_idx_def)+

lemma reader_ran_write:
  "reader_ran impl0 ws0 hash impl (w # ws) r \<Longrightarrow> reader_ran impl0 ws0 hash (do_wr impl w) ws r"
proof -
  assume "reader_ran impl0 ws0 hash impl (w # ws) r"
  then obtain sched where "interleave sched (idx1 impl0 hash) (idx2 impl0 hash) hash impl0 ws0 Read_Counter1 = (impl, w # ws, r)"
    by (auto simp: reader_ran_def)
  then have "interleave (sched @ [True]) (idx1 impl0 hash) (idx2 impl0 hash) hash impl0 ws0 Read_Counter1 = (do_wr impl w, ws, r)"
    by (simp add: interleave_append)
  then show ?thesis by (auto simp: reader_ran_def)
qed

lemma reader_ran_step:
  assumes "reader_ran impl0 ws0 hash impl ws r"
  shows "reader_ran impl0 ws0 hash impl ws (reader_step impl (idx1 impl0 hash) (idx2 impl0 hash) hash r)"
proof -
  from assms obtain sched where "interleave sched (idx1 impl0 hash) (idx2 impl0 hash) hash impl0 ws0 Read_Counter1 = (impl, ws, r)"
    by (auto simp: reader_ran_def)
  then have "interleave (sched @ [False]) (idx1 impl0 hash) (idx2 impl0 hash) hash impl0 ws0 Read_Counter1 =
      (impl, ws, reader_step impl (idx1 impl0 hash) (idx2 impl0 hash) hash r)"
    by (simp add: interleave_append)
  then show ?thesis by (auto simp: reader_ran_def)
qed

fun first_round :: "'n reader \<Rightarrow> bool" where
  "first_round (Found node) \<longleftrightarrow> node \<noteq> []"
| "first_round Read_Counter1 \<longleftrightarrow> True"
| "first_round (Scan1 c1 i) \<longleftrightarrow> True"
| "first_round (Node1 c1 i) \<longleftrightarrow> True"
| "first_round (Check1 c1 node) \<longleftrightarrow> True"
| "first_round (Read_Counter2 c1) \<longleftrightarrow> True"
| "first_round _ \<longleftrightarrow> False"

lemma first_round_step:
  "first_round r \<Longrightarrow> (\<And>c. r \<noteq> Read_Counter2 c) \<Longrightarrow> first_round (reader_step impl b1 b2 hash r)"
  by (cases r) (auto simp: Let_def)

text \<open>What the batch has settled for index \<open>i\<close>.\<close>

definition settled :: "'n list list \<Rightarrow> 'n batch \<Rightarrow> nat \<Rightarrow> bool" where
  "settled nodes bt i \<longleftrightarrow> (\<exists>node. bt_readers bt i = Found node \<and> (bit (bt_result bt) i \<longleftrightarrow> node \<noteq> []) \<and>
     bt_nodes bt ! i = (if node = [] then nodes ! i else node))"

definition open_idx :: "'n list list \<Rightarrow> 'n batch \<Rightarrow> nat \<Rightarrow> bool" where
  "open_idx nodes bt i \<longleftrightarrow> bit (bt_result bt) i \<and> bt_nodes bt ! i = nodes ! i"

fun idx_ok :: "'n list list \<Rightarrow> 'n batch \<Rightarrow> batch_phase \<Rightarrow> nat \<Rightarrow> bool" where
  "idx_ok nodes bt (Round1 idxs) i \<longleftrightarrow> first_round (bt_readers bt i) \<and>
     (if bit (bt_map bt) i then open_idx nodes bt i else i \<notin> set idxs \<and> settled nodes bt i)"
| "idx_ok nodes bt (Round2 idxs) i \<longleftrightarrow> (if i \<in> set idxs then open_idx nodes bt i else settled nodes bt i)"
| "idx_ok nodes bt Batch_Done i \<longleftrightarrow> settled nodes bt i"

fun phase_ok :: "u64 \<Rightarrow> u64 \<Rightarrow> batch_phase \<Rightarrow> bool" where
  "phase_ok mp mp' (Round1 idxs) \<longleftrightarrow> distinct idxs \<and> (\<forall>i \<in> set idxs. bit mp i) \<and> (\<forall>i. bit mp' i \<longrightarrow> bit mp i)"
| "phase_ok mp mp' (Round2 idxs) \<longleftrightarrow> distinct idxs \<and> (\<forall>i \<in> set idxs. bit mp i)"
| "phase_ok mp mp' Batch_Done \<longleftrightarrow> True"

definition batch_ok :: "u64 \<Rightarrow> 'n list list \<Rightarrow> 'n batch \<Rightarrow> bool" where
  "batch_ok mp nodes bt \<longleftrightarrow> phase_ok mp (bt_map bt) (bt_phase bt) \<and>
     (\<forall>i. bit mp i \<longrightarrow> idx_ok nodes bt (bt_phase bt) i) \<and> length (bt_nodes bt) = length nodes \<and>
     (\<forall>i. \<not> bit mp i \<longrightarrow> \<not> bit (bt_result bt) i \<and> bt_nodes bt ! i = nodes ! i)"

lemma batch_okD:
  assumes "batch_ok mp nodes bt"
  shows "phase_ok mp (bt_map bt) (bt_phase bt)" and "bit mp i \<Longrightarrow> idx_ok nodes bt (bt_phase bt) i"
    and "length (bt_nodes bt) = length nodes" and "\<not> bit mp i \<Longrightarrow> \<not> bit (bt_result bt) i"
    and "\<not> bit mp i \<Longrightarrow> bt_nodes bt ! i = nodes ! i"
  using assms by (simp_all add: batch_ok_def)

lemma batch_okI:
  assumes "phase_ok mp (bt_map bt) (bt_phase bt)" and "\<And>i. bit mp i \<Longrightarrow> idx_ok nodes bt (bt_phase bt) i"
    and "length (bt_nodes bt) = length nodes"
    and "\<And>i. \<not> bit mp i \<Longrightarrow> \<not> bit (bt_result bt) i" and "\<And>i. \<not> bit mp i \<Longrightarrow> bt_nodes bt ! i = nodes ! i"
  shows "batch_ok mp nodes bt"
  using assms by (simp add: batch_ok_def)

lemma batch_start_ok: "batch_ok mp nodes (batch_start mp nodes)"
  using ullong_idxs_bits[of mp] by (auto simp: batch_ok_def batch_start_def open_idx_def)

lemma step_reader_simps [simp]:
  "bt_map (step_reader impl hashes i bt) = bt_map bt" "bt_result (step_reader impl hashes i bt) = bt_result bt"
  "bt_nodes (step_reader impl hashes i bt) = bt_nodes bt" "bt_phase (step_reader impl hashes i bt) = bt_phase bt"
  "bt_readers (step_reader impl hashes i bt) = (bt_readers bt)(i :=
     reader_step impl (idx1 impl (hashes ! i)) (idx2 impl (hashes ! i)) (hashes ! i) (bt_readers bt i))"
  by (simp_all add: step_reader_def)

text \<open>What does not touch an index leaves it open or settled.\<close>

lemma idx_frame [simp]:
  "settled nodes (bt\<lparr>bt_phase := ph\<rparr>) k = settled nodes bt k"
  "settled nodes (bt\<lparr>bt_map := m\<rparr>) k = settled nodes bt k"
  "ns ! k = bt_nodes bt ! k \<Longrightarrow> settled nodes (bt\<lparr>bt_nodes := ns\<rparr>) k = settled nodes bt k"
  "bit res k = bit (bt_result bt) k \<Longrightarrow> settled nodes (bt\<lparr>bt_result := res\<rparr>) k = settled nodes bt k"
  "k \<noteq> i \<Longrightarrow> settled nodes (step_reader impl hashes i bt) k = settled nodes bt k"
  "open_idx nodes (bt\<lparr>bt_phase := ph\<rparr>) k = open_idx nodes bt k"
  "open_idx nodes (bt\<lparr>bt_map := m\<rparr>) k = open_idx nodes bt k"
  "ns ! k = bt_nodes bt ! k \<Longrightarrow> open_idx nodes (bt\<lparr>bt_nodes := ns\<rparr>) k = open_idx nodes bt k"
  "bit res k = bit (bt_result bt) k \<Longrightarrow> open_idx nodes (bt\<lparr>bt_result := res\<rparr>) k = open_idx nodes bt k"
  "open_idx nodes (step_reader impl hashes i bt) k = open_idx nodes bt k"
  by (simp_all add: settled_def open_idx_def)

lemma round1_step_ok:
  assumes ok: "batch_ok mp nodes bt" and ph: "bt_phase bt = Round1 (i # idxs)" and i: "i < length nodes"
  shows "batch_ok mp nodes (batch_step impl hashes bt)"
proof -
  note D = batch_okD[OF ok, unfolded ph]
  have idx: "bit mp i" "i \<notin> set idxs" using D(1) by simp_all
  with D(2)[OF idx(1)] have open_i: "bit (bt_map bt) i" "open_idx nodes bt i" and fr: "first_round (bt_readers bt i)"
    by (auto split: if_splits)
  consider (found) node where "bt_readers bt i = Found node" | (park) c1 where "bt_readers bt i = Read_Counter2 c1"
    | (go) "batch_step impl hashes bt = step_reader impl hashes i bt" "\<And>c. bt_readers bt i \<noteq> Read_Counter2 c"
    using ph by (cases "bt_readers bt i") (auto simp: batch_step_def)
  then show ?thesis
  proof cases
    case found
    let ?bt = "bt\<lparr>bt_map := ULLONG_SET0 (bt_map bt) i, bt_nodes := (bt_nodes bt)[i := node], bt_phase := Round1 idxs\<rparr>"
    have step: "batch_step impl hashes bt = ?bt" using ph found by (simp add: batch_step_def)
    have ok': "idx_ok nodes ?bt (bt_phase ?bt) k" if k: "bit mp k" for k
    proof (cases "k = i")
      case True
      with found fr idx open_i(2) i D(3) show ?thesis by (simp add: settled_def open_idx_def)
    next
      case False
      with D(2)[OF k] show ?thesis by (auto split: if_splits)
    qed
    have "(bt_nodes bt)[i := node] ! k = nodes ! k" if "\<not> bit mp k" for k using that idx D(5) by (cases "k = i") auto
    then show ?thesis unfolding step
      by (intro batch_okI) ((rule ok', assumption) | (use D(1,3,4) in force))+
  next
    case park
    let ?bt = "bt\<lparr>bt_phase := Round1 idxs\<rparr>"
    have step: "batch_step impl hashes bt = ?bt" using ph park by (simp add: batch_step_def)
    have ok': "idx_ok nodes ?bt (bt_phase ?bt) k" if "bit mp k" for k
      using D(2)[OF that] by auto
    show ?thesis unfolding step by (rule batch_okI) ((rule ok', assumption) | (use D(1,3-5) in force))+
  next
    case go
    have ok': "idx_ok nodes (step_reader impl hashes i bt) (bt_phase (step_reader impl hashes i bt)) k" if k: "bit mp k" for k
    proof (cases "k = i")
      case True
      with first_round_step[OF fr go(2)] open_i ph show ?thesis by simp
    next
      case False
      with D(2)[OF k] ph show ?thesis by (auto split: if_splits)
    qed
    show ?thesis unfolding go(1) by (rule batch_okI) ((rule ok', assumption) | (use D(1,3-5) ph in force))+
  qed
qed

lemma round2_step_ok:
  assumes ok: "batch_ok mp nodes bt" and ph: "bt_phase bt = Round2 (i # idxs)" and i: "i < length nodes"
  shows "batch_ok mp nodes (batch_step impl hashes bt)"
proof -
  note D = batch_okD[OF ok, unfolded ph]
  have idx: "bit mp i" "i \<notin> set idxs" using D(1) by simp_all
  with D(2)[OF idx(1)] have open_i: "open_idx nodes bt i" by simp
  consider (none) "bt_readers bt i = Found []" | (found) node where "bt_readers bt i = Found node" "node \<noteq> []"
    | (go) "batch_step impl hashes bt = step_reader impl hashes i bt"
    using ph by (cases "bt_readers bt i") (auto simp: batch_step_def)
  then show ?thesis
  proof cases
    case none
    let ?bt = "bt\<lparr>bt_result := ULLONG_SET0 (bt_result bt) i, bt_phase := Round2 idxs\<rparr>"
    have step: "batch_step impl hashes bt = ?bt" using ph none by (simp add: batch_step_def)
    have ok': "idx_ok nodes ?bt (bt_phase ?bt) k" if "bit mp k" for k
    proof (cases "k = i")
      case True
      with none idx open_i show ?thesis by (simp add: settled_def open_idx_def)
    next
      case False
      with D(2)[OF that] show ?thesis by simp
    qed
    show ?thesis unfolding step by (rule batch_okI) ((rule ok', assumption) | (use D(1,3-5) in force))+
  next
    case found
    let ?bt = "bt\<lparr>bt_nodes := (bt_nodes bt)[i := node], bt_phase := Round2 idxs\<rparr>"
    have step: "batch_step impl hashes bt = ?bt" using ph found by (simp add: batch_step_def)
    have ok': "idx_ok nodes ?bt (bt_phase ?bt) k" if "bit mp k" for k
    proof (cases "k = i")
      case True
      with found idx open_i D(3) i show ?thesis by (simp add: settled_def open_idx_def)
    next
      case False
      with D(2)[OF that] show ?thesis by simp
    qed
    have "(bt_nodes bt)[i := node] ! k = nodes ! k" if "\<not> bit mp k" for k using that idx D(5) by (cases "k = i") auto
    then show ?thesis unfolding step
      by (intro batch_okI) ((rule ok', assumption) | (use D(1,3,4) in force))+
  next
    case go
    have ok': "idx_ok nodes (step_reader impl hashes i bt) (bt_phase (step_reader impl hashes i bt)) k" if "bit mp k" for k
      using D(2)[OF that] open_i ph by (cases "k = i") auto
    show ?thesis unfolding go(1) by (rule batch_okI) ((rule ok', assumption) | (use D(1,3-5) ph in force))+
  qed
qed

lemma batch_step_ok:
  assumes ok: "batch_ok mp nodes bt" and len: "\<And>i. bit mp i \<Longrightarrow> i < length nodes"
  shows "batch_ok mp nodes (batch_step impl hashes bt)"
proof (cases "bt_phase bt")
  case (Round1 idxs)
  show ?thesis
  proof (cases idxs)
    case Nil
    let ?bt = "bt\<lparr>bt_phase := Round2 (ullong_idxs (bt_map bt))\<rparr>"
    note D = batch_okD[OF ok, unfolded Round1 Nil]
    have step: "batch_step impl hashes bt = ?bt" using Round1 Nil by (simp add: batch_step_def)
    have ok': "idx_ok nodes ?bt (bt_phase ?bt) k" if "bit mp k" for k
      using D(2)[OF that] ullong_idxs_bits[of "bt_map bt"] by simp
    show ?thesis unfolding step by (rule batch_okI) ((rule ok', assumption) | (use D(1,3-5) ullong_idxs_bits[of "bt_map bt"] in force))+
  next
    case (Cons i idxs')
    with ok Round1 have "bit mp i" by (simp add: batch_ok_def)
    with round1_step_ok[OF ok] Round1 Cons len show ?thesis by simp
  qed
next
  case (Round2 idxs)
  show ?thesis
  proof (cases idxs)
    case Nil
    with ok Round2 show ?thesis by (simp add: batch_ok_def batch_step_def)
  next
    case (Cons i idxs')
    with ok Round2 have "bit mp i" by (simp add: batch_ok_def)
    with round2_step_ok[OF ok] Round2 Cons len show ?thesis by simp
  qed
next
  case Batch_Done
  with ok show ?thesis by (simp add: batch_step_def)
qed

lemma batch_step_readers:
  "bt_readers (batch_step impl hashes bt) k = bt_readers bt k \<or>
   bt_readers (batch_step impl hashes bt) k =
     reader_step impl (idx1 impl (hashes ! k)) (idx2 impl (hashes ! k)) (hashes ! k) (bt_readers bt k)"
  by (auto simp: batch_step_def split: batch_phase.splits list.splits reader.splits)

lemma batch_interleave_ok:
  assumes "batch_interleave sched hashes impl ws bt = (impl', ws', bt')"
    and "batch_ok mp nodes bt" and "\<And>i. bit mp i \<Longrightarrow> i < length nodes"
    and "idx1 impl = idx1 impl0" "idx2 impl = idx2 impl0"
    and "\<And>k. reader_ran impl0 ws0 (hashes ! k) impl ws (bt_readers bt k)"
  shows "batch_ok mp nodes bt' \<and> (\<forall>k. reader_ran impl0 ws0 (hashes ! k) impl' ws' (bt_readers bt' k))"
  using assms
proof (induction sched hashes impl ws bt rule: batch_interleave.induct)
  case (3 sched hashes impl w ws bt)
  from 3(2-) have "batch_interleave sched hashes (do_wr impl w) ws bt = (impl', ws', bt')" by simp
  from 3(1)[OF this 3(3,4)] 3(5-) reader_ran_write do_wr_idx show ?case by (metis (no_types))
next
  case (4 sched hashes impl ws bt)
  let ?bt = "batch_step impl hashes bt"
  have run: "batch_interleave sched hashes impl ws ?bt = (impl', ws', bt')" using 4(2) by simp
  have "reader_ran impl0 ws0 (hashes ! k) impl ws (bt_readers ?bt k)" for k
    using batch_step_readers[of impl hashes bt k] reader_ran_step[OF 4(7), of k] 4(7)[of k] 4(5,6) by auto
  from 4(1)[OF run batch_step_ok[OF 4(3,4)] 4(4-6) this] show ?case by simp
qed auto

lemma concurrent_batch:
  assumes "cmap_wf impl" and "ops_writes impl xs = Some (ws, impls)" and "length ws < 2 ^ 32"
    and "\<And>i. bit mp i \<Longrightarrow> i < length nodes"
    and "batch_interleave sched hashes impl ws (batch_start mp nodes) = (impl', ws', bt)" and "bt_phase bt = Batch_Done"
  shows "length (bt_nodes bt) = length nodes"
    and "\<not> bit mp i \<Longrightarrow> \<not> bit (bt_result bt) i \<and> bt_nodes bt ! i = nodes ! i"
    and "bit mp i \<Longrightarrow> \<exists>m \<in> set impls. (bit (bt_result bt) i \<longleftrightarrow> cmap_abs m (hashes ! i) \<noteq> []) \<and>
      bt_nodes bt ! i = (if bit (bt_result bt) i then cmap_abs m (hashes ! i) else nodes ! i)"
proof -
  have "reader_ran impl ws (hashes ! k) impl ws (bt_readers (batch_start mp nodes) k)" for k
    by (auto simp: reader_ran_def batch_start_def intro: exI[of _ "[]"])
  from batch_interleave_ok[OF assms(5) batch_start_ok assms(4) refl refl this]
  have ok: "batch_ok mp nodes bt" and ran: "\<And>k. reader_ran impl ws (hashes ! k) impl' ws' (bt_readers bt k)" by auto
  then show "length (bt_nodes bt) = length nodes" "\<not> bit mp i \<Longrightarrow> \<not> bit (bt_result bt) i \<and> bt_nodes bt ! i = nodes ! i"
    by (auto simp: batch_ok_def)
  assume "bit mp i"
  with ok assms(6) obtain node where node: "bt_readers bt i = Found node" "bit (bt_result bt) i \<longleftrightarrow> node \<noteq> []"
    "bt_nodes bt ! i = (if node = [] then nodes ! i else node)" by (auto simp: batch_ok_def settled_def)
  from ran[of i] node(1) obtain sched' where
    "interleave sched' (idx1 impl (hashes ! i)) (idx2 impl (hashes ! i)) (hashes ! i) impl ws Read_Counter1 = (impl', ws', Found node)"
    by (auto simp: reader_ran_def)
  from concurrent_find[OF assms(1-3) this] obtain m where "m \<in> set impls" "node = cmap_abs m (hashes ! i)" by auto
  with node show "\<exists>m \<in> set impls. (bit (bt_result bt) i \<longleftrightarrow> cmap_abs m (hashes ! i) \<noteq> []) \<and>
      bt_nodes bt ! i = (if bit (bt_result bt) i then cmap_abs m (hashes ! i) else nodes ! i)" by auto
qed

end
