(* ===== verification/Ovs_Scan.thy ===== *)
theory Ovs_Scan
  imports Ovs_Prelude "HOL-Library.Char_ord"
begin

text \<open>
  The scanner \<open>ovs_scan\<close> of \<^verbatim>\<open>lib/util.c\<close>, the replacement of \<^verbatim>\<open>sscanf()\<close> that the parsers of the
  switch are built on. A C string is the list of its characters without the terminator; a
  pointer into it is the rest of the list. What the scanner stores through its arguments is
  returned as the list of the values in order. The value that \<^verbatim>\<open>strtold()\<close> gives to a text
  is represented by the text.
\<close>

unbundle bit_operations_syntax

section \<open>Characters\<close>

text \<open>\<^verbatim>\<open>s[i]\<close>, which is the terminator at the end of the string.\<close>

definition char_at :: "string \<Rightarrow> nat \<Rightarrow> char" where
  "char_at s i = (if i < length s then s ! i else CHR 0x00)"

definition isspace :: "char \<Rightarrow> bool" where
  "isspace c \<longleftrightarrow> c \<in> {CHR '' '', CHR 0x09, CHR 0x0A, CHR 0x0B, CHR 0x0C, CHR 0x0D}"

definition skip_spaces :: "string \<Rightarrow> string" where
  "skip_spaces s = dropWhile isspace s"

definition isdigit :: "char \<Rightarrow> bool" where
  "isdigit c \<longleftrightarrow> CHR ''0'' \<le> c \<and> c \<le> CHR ''9''"

definition skip_digits :: "string \<Rightarrow> string" where
  "skip_digits s = dropWhile isdigit s"

definition hexit_value :: "char \<Rightarrow> int" where
  "hexit_value c =
     (if isdigit c then of_char c - of_char (CHR ''0'')
      else if c \<in> {CHR ''a'', CHR ''A''} then 0xa
      else if c \<in> {CHR ''b'', CHR ''B''} then 0xb
      else if c \<in> {CHR ''c'', CHR ''C''} then 0xc
      else if c \<in> {CHR ''d'', CHR ''D''} then 0xd
      else if c \<in> {CHR ''e'', CHR ''E''} then 0xe
      else if c \<in> {CHR ''f'', CHR ''F''} then 0xf
      else - 1)"

section \<open>Conversions\<close>

datatype scan_type = SCAN_DISCARD | SCAN_CHAR | SCAN_SHORT | SCAN_INT | SCAN_LONG | SCAN_LLONG
  | SCAN_INTMAX_T | SCAN_PTRDIFF_T | SCAN_SIZE_T

record scan_spec =
  sp_width :: u32
  sp_type :: scan_type

datatype scan_val =
    Scan_Int scan_type u64
  | Scan_Float scan_type string
  | Scan_String string
  | Scan_Chars string
  | Scan_Pos nat

text \<open>What is left of the value in a destination of the given type.\<close>

definition store_int :: "scan_type \<Rightarrow> u64 \<Rightarrow> scan_val list" where
  "store_int type v =
     (case type of
        SCAN_DISCARD \<Rightarrow> []
      | SCAN_CHAR \<Rightarrow> [Scan_Int type (take_bit 8 v)]
      | SCAN_SHORT \<Rightarrow> [Scan_Int type (take_bit 16 v)]
      | SCAN_INT \<Rightarrow> [Scan_Int type (take_bit 32 v)]
      | _ \<Rightarrow> [Scan_Int type v])"

text \<open>The loop over the digits, with room for \<open>room\<close> more characters.\<close>

fun scan_digits :: "int \<Rightarrow> int \<Rightarrow> string \<Rightarrow> u64 \<Rightarrow> nat \<Rightarrow> u64 \<times> nat \<times> string" where
  "scan_digits base room [] v n = (v, n, [])"
| "scan_digits base room (c # s) v n =
     (let digit = hexit_value c in
      if room \<le> 0 \<or> digit < 0 \<or> digit \<ge> base then (v, n, c # s)
      else scan_digits base (room - 1) s (v * of_int base + of_int digit) (n + 1))"

definition scan_sign :: "string \<Rightarrow> bool \<times> string" where
  "scan_sign s = (char_at s 0 = CHR ''-'',
     if char_at s 0 = CHR ''-'' \<or> char_at s 0 = CHR ''+'' then tl s else s)"

definition scan_base :: "string \<Rightarrow> int \<Rightarrow> int \<times> string" where
  "scan_base s base =
     (if (base = 0 \<or> base = 16) \<and> char_at s 0 = CHR ''0'' \<and>
         (char_at s 1 = CHR ''x'' \<or> char_at s 1 = CHR ''X'') then (16, drop 2 s)
      else if base = 0 then (if char_at s 0 = CHR ''0'' then 8 else 10, s)
      else (base, s))"

definition scan_int :: "string \<Rightarrow> scan_spec \<Rightarrow> int \<Rightarrow> (scan_val list \<times> string) option" where
  "scan_int start spec base =
     (let (negative, s) = scan_sign start;
          (base, s) = scan_base s base;
          consumed = int (length start) - int (length s);
          (v, n_digits, s) = scan_digits base (uint (sp_width spec) - consumed) s 0 0
      in if consumed \<ge> uint (sp_width spec) then None
         else if n_digits = 0 then None
         else Some (store_int (sp_type spec) (if negative then - v else v), s))"

text \<open>\<open>strtold_complete\<close>: \<^verbatim>\<open>strtold()\<close> leaves nothing of a text of the shape that \<open>scan_float\<close> cuts
  out. This holds for the empty text, too.\<close>

definition strtold_complete :: "string \<Rightarrow> bool" where
  "strtold_complete t =
     (let s = snd (scan_sign t);
          s1 = skip_digits s;
          s2 = (if char_at s1 0 = CHR ''.'' then skip_digits (tl s1) else s1);
          mantissa = length (filter isdigit (take (length s - length s2) s));
          e = snd (scan_sign (tl s2))
      in t = [] \<or> mantissa > 0 \<and>
           (s2 = [] \<or> char_at s2 0 \<in> {CHR ''e'', CHR ''E''} \<and> e \<noteq> [] \<and> skip_digits e = []))"

definition scan_float :: "string \<Rightarrow> scan_spec \<Rightarrow> (scan_val list \<times> string) option result" where
  "scan_float start spec =
     (let s = skip_digits (snd (scan_sign start));
          s = (if char_at s 0 = CHR ''.'' then skip_digits (tl s) else s);
          s = (if char_at s 0 \<in> {CHR ''e'', CHR ''E''}
               then skip_digits (snd (scan_sign (tl s))) else s);
          n = min (int (length start) - int (length s)) (uint (sp_width spec));
          copy = take (nat n) start;
          s = drop (nat n) start
      in if \<not> strtold_complete copy then Inr None
         else case sp_type spec of
                SCAN_DISCARD \<Rightarrow> Inr (Some ([], s))
              | SCAN_INT \<Rightarrow> Inr (Some ([Scan_Float SCAN_INT copy], s))
              | SCAN_LONG \<Rightarrow> Inr (Some ([Scan_Float SCAN_LONG copy], s))
              | SCAN_LLONG \<Rightarrow> Inr (Some ([Scan_Float SCAN_LLONG copy], s))
              | _ \<Rightarrow> Inl Assert_Fail)"

definition scan_output_string :: "scan_spec \<Rightarrow> string \<Rightarrow> nat \<Rightarrow> scan_val list" where
  "scan_output_string spec s n = (if sp_type spec \<noteq> SCAN_DISCARD then [Scan_String (take n s)] else [])"

text \<open>The number of leading characters with property \<open>P\<close>, at most \<open>room\<close>.\<close>

fun span_count :: "(char \<Rightarrow> bool) \<Rightarrow> int \<Rightarrow> string \<Rightarrow> nat" where
  "span_count P room [] = 0"
| "span_count P room (c # s) = (if room > 0 \<and> P c then Suc (span_count P (room - 1) s) else 0)"

definition scan_string :: "string \<Rightarrow> scan_spec \<Rightarrow> (scan_val list \<times> string) option" where
  "scan_string s spec =
     (let n = span_count (\<lambda>c. \<not> isspace c) (uint (sp_width spec)) s
      in if n = 0 then None else Some (scan_output_string spec s n, drop n s))"

text \<open>A scan set is a list of ranges of characters.\<close>

fun scanset_loop :: "string \<Rightarrow> (char \<times> char) list \<Rightarrow> (char \<times> char) list \<times> string" where
  "scanset_loop [] rs = (rs, [])"
| "scanset_loop (c # p) rs =
     (if c = CHR '']'' then (rs, p)
      else if char_at p 0 = CHR ''-'' \<and> char_at p 1 \<noteq> CHR '']'' \<and> char_at p 1 > c
      then scanset_loop (drop 2 p) ((c, char_at p 1) # rs)
      else scanset_loop p ((c, c) # rs))"

definition parse_scanset :: "string \<Rightarrow> bool \<times> (char \<times> char) list \<times> string" where
  "parse_scanset p =
     (let complemented = char_at p 0 = CHR ''^'';
          p = (if complemented then tl p else p);
          (rs, p) = (if char_at p 0 = CHR '']'' then ([(CHR '']'', CHR '']'')], tl p) else ([], p));
          (rs, p) = scanset_loop p rs
      in (complemented, rs, p))"

definition in_scanset :: "(char \<times> char) list \<Rightarrow> char \<Rightarrow> bool" where
  "in_scanset rs c \<longleftrightarrow> list_ex (\<lambda>(lo, hi). lo \<le> c \<and> c \<le> hi) rs"

definition scan_set :: "string \<Rightarrow> scan_spec \<Rightarrow> string \<Rightarrow> (scan_val list \<times> string) option \<times> string" where
  "scan_set s spec p =
     (let (complemented, rs, p) = parse_scanset p;
          n = span_count (\<lambda>c. in_scanset rs c = (\<not> complemented)) (uint (sp_width spec)) s
      in (if n = 0 then None else Some (scan_output_string spec s n, drop n s), p))"

definition scan_chars :: "string \<Rightarrow> scan_spec \<Rightarrow> (scan_val list \<times> string) option" where
  "scan_chars s spec =
     (let n = (if sp_width spec = - 1 then 1 else uint (sp_width spec)) in
      if int (length s) < n then None
      else Some (if sp_type spec \<noteq> SCAN_DISCARD then [Scan_Chars (take (nat n) s)] else [],
                 drop (nat n) s))"

section \<open>Formats\<close>

fun scan_width :: "string \<Rightarrow> u32 \<Rightarrow> u32 \<times> string" where
  "scan_width [] w = (w, [])"
| "scan_width (c # p) w =
     (if isdigit c then scan_width p (w * 10 + of_int (hexit_value c)) else (w, c # p))"

definition scan_modifier :: "string \<Rightarrow> scan_type \<times> string" where
  "scan_modifier p =
     (let c = char_at p 0 in
      if c = CHR ''h''
      then (if char_at p 1 = CHR ''h'' then (SCAN_CHAR, drop 2 p) else (SCAN_SHORT, drop 1 p))
      else if c = CHR ''j'' then (SCAN_INTMAX_T, drop 1 p)
      else if c = CHR ''l''
      then (if char_at p 1 = CHR ''l'' then (SCAN_LLONG, drop 2 p) else (SCAN_LONG, drop 1 p))
      else if c = CHR ''L'' \<or> c = CHR ''q'' then (SCAN_LLONG, drop 1 p)
      else if c = CHR ''t'' then (SCAN_PTRDIFF_T, drop 1 p)
      else if c = CHR ''z'' then (SCAN_SIZE_T, drop 1 p)
      else (SCAN_INT, p))"

definition scan_prefix :: "string \<Rightarrow> scan_spec \<times> string" where
  "scan_prefix p =
     (let discard = char_at p 0 = CHR ''*'';
          p = (if discard then tl p else p);
          (width, p) = scan_width p 0;
          width = (if width = 0 then - 1 else width);
          (type, p) = scan_modifier p
      in (\<lparr>sp_width = width, sp_type = if discard then SCAN_DISCARD else type\<rparr>, p))"

text \<open>The conversion \<open>c\<close>: the values it stores and the rest of the input (none if it fails), and
  the rest of the format. A character that is no conversion is skipped.\<close>

definition scan_convert :: "nat \<Rightarrow> char \<Rightarrow> scan_spec \<Rightarrow> string \<Rightarrow> string
    \<Rightarrow> ((scan_val list \<times> string) option \<times> string) result" where
  "scan_convert len c spec p s =
     (let s = (if c \<notin> {CHR ''c'', CHR ''n'', CHR ''[''} then skip_spaces s else s) in
      if c = CHR ''d'' \<or> c = CHR ''u'' then Inr (scan_int s spec 10, p)
      else if c = CHR ''i'' then Inr (scan_int s spec 0, p)
      else if c = CHR ''o'' then Inr (scan_int s spec 8, p)
      else if c = CHR ''x'' \<or> c = CHR ''X'' then Inr (scan_int s spec 16, p)
      else if c \<in> {CHR ''e'', CHR ''f'', CHR ''g'', CHR ''E'', CHR ''G''}
      then rbind (scan_float s spec) (\<lambda>r. Inr (r, p))
      else if c = CHR ''s'' then Inr (scan_string s spec, p)
      else if c = CHR ''['' then Inr (scan_set s spec p)
      else if c = CHR ''c'' then Inr (scan_chars s spec, p)
      else if c = CHR ''n''
      then Inr (Some (if sp_type spec \<noteq> SCAN_DISCARD then [Scan_Pos (len - length s)] else [], s), p)
      else Inr (Some ([], s), p))"

lemma length_scan_width: "length (snd (scan_width p w)) \<le> length p"
  by (induction p w rule: scan_width.induct) auto

lemma length_scanset_loop: "length (snd (scanset_loop p rs)) \<le> length p"
proof (induction p rs rule: scanset_loop.induct)
  case (2 c p rs)
  then show ?case by (auto simp: le_diff_conv)
qed simp

lemma length_parse_scanset: "length (snd (snd (parse_scanset p))) \<le> length p"
  unfolding parse_scanset_def Let_def
  by (simp add: case_prod_unfold) (intro conjI impI; rule order_trans[OF length_scanset_loop]; simp)

lemma length_scan_prefix: "scan_prefix p = (spec, q) \<Longrightarrow> length q \<le> length p"
  using length_scan_width[of p 0] length_scan_width[of "tl p" 0]
  by (auto simp: scan_prefix_def scan_modifier_def Let_def split: prod.splits if_splits)

lemma length_scan_convert: "scan_convert len c spec p s = Inr (r, q) \<Longrightarrow> length q \<le> length p"
  using length_parse_scanset[of p]
  by (auto simp: scan_convert_def scan_set_def Let_def rbind_eq_Inr split: if_splits prod.splits)

text \<open>The loop over the format; the result tells whether the scan succeeded, what it has stored and
  where it stopped. A format that ends inside a conversion is read past its end.\<close>

function scan_loop :: "nat \<Rightarrow> string \<Rightarrow> string \<Rightarrow> (bool \<times> scan_val list \<times> string) result" where
  "scan_loop len [] s = Inr (True, [], s)"
| "scan_loop len (c # p) s =
     (if isspace c then scan_loop len p (skip_spaces s)
      else if c \<noteq> CHR ''%''
      then (if char_at s 0 \<noteq> c then Inr (False, [], s) else scan_loop len p (tl s))
      else if char_at p 0 = CHR ''%''
      then (if char_at s 0 \<noteq> CHR ''%'' then Inr (False, [], s) else scan_loop len (tl p) (tl s))
      else case scan_prefix p of
             (spec, []) \<Rightarrow> Inl Wild_Pointer
           | (spec, d # p) \<Rightarrow>
               (case scan_convert len d spec p s of
                  Inl e \<Rightarrow> Inl e
                | Inr (None, p) \<Rightarrow> Inr (False, [], s)
                | Inr (Some (vs, s), p) \<Rightarrow>
                    rbind (scan_loop len p s) (\<lambda>(ok, ws, s). Inr (ok, vs @ ws, s))))"
  by pat_completeness auto
termination
proof (relation "measure (\<lambda>(len, p, s). length p)", goal_cases)
  case (5 len c p s spec dq d q r conv)
  then show ?case
    using length_scan_prefix[of p spec "d # q"] length_scan_convert[of len d spec q s] by fastforce
qed auto

definition ovs_scan :: "string \<Rightarrow> string \<Rightarrow> (bool \<times> scan_val list) result" where
  "ovs_scan s fmt = rbind (scan_loop (length s) fmt s) (\<lambda>(ok, vs, _). Inr (ok, vs))"

definition ovs_scan_len :: "string \<Rightarrow> nat \<Rightarrow> string \<Rightarrow> (bool \<times> nat \<times> scan_val list) result" where
  "ovs_scan_len s n fmt =
     rbind (scan_loop (length (drop n s)) fmt (drop n s)) (\<lambda>(ok, vs, s').
     Inr (ok, if ok then n + (length (drop n s) - length s') else n, vs))"

end
