(* ===== verification/Ofp_Parse.thy ===== *)
theory Ofp_Parse
  imports Ovs_Scan Dp_Packet
begin

text \<open>
  The conversions between text and numbers of \<^verbatim>\<open>lib/ofp-parse.c\<close>, \<^verbatim>\<open>lib/util.c\<close> and
  \<^verbatim>\<open>lib/socket-util.c\<close> that the actions are parsed with, down to the functions of the C library they
  call (\<open>strtoll\<close>, \<open>strtoul\<close>, \<open>inet_pton4\<close>), and the text that the \<^verbatim>\<open>printf()\<close> formats of the
  actions produce. An error is the message of the source.
\<close>

unbundle bit_operations_syntax

section \<open>The C library\<close>

fun digits_value :: "int \<Rightarrow> string \<Rightarrow> int \<Rightarrow> nat \<Rightarrow> int \<times> nat \<times> string" where
  "digits_value base [] v n = (v, n, [])"
| "digits_value base (c # s) v n =
     (if hexit_value c < 0 \<or> hexit_value c \<ge> base then (v, n, c # s)
      else digits_value base s (v * base + hexit_value c) (n + 1))"

text \<open>The common part of \<open>strtoll\<close> and \<open>strtoul\<close>: sign, magnitude and rest. A prefix \<^verbatim>\<open>0x\<close>
  counts only before a hexadecimal digit. \<open>None\<close> if there are no digits.\<close>

definition strto :: "string \<Rightarrow> int \<Rightarrow> (bool \<times> int \<times> string) option" where
  "strto s base =
     (let (negative, s) = scan_sign (skip_spaces s);
          (base, s) = (if 0 \<le> hexit_value (char_at s 2) then scan_base s base
                       else if base = 0 then (if char_at s 0 = CHR ''0'' then 8 else 10, s)
                       else (base, s));
          (v, n, tail) = digits_value base s 0 0
      in if n = 0 then None else Some (negative, v, tail))"

text \<open>The value, the rest, and whether \<^verbatim>\<open>errno\<close> is set to \<^verbatim>\<open>ERANGE\<close>.\<close>

definition strtoll :: "string \<Rightarrow> int \<Rightarrow> int \<times> string \<times> bool" where
  "strtoll s base =
     (case strto s base of
        None \<Rightarrow> (0, s, False)
      | Some (negative, v, tail) \<Rightarrow>
          let x = (if negative then - v else v) in
          if x < - (2 ^ 63) then (- (2 ^ 63), tail, True)
          else if x > 2 ^ 63 - 1 then (2 ^ 63 - 1, tail, True)
          else (x, tail, False))"

definition strtoul :: "string \<Rightarrow> int \<Rightarrow> u64 \<times> string \<times> bool" where
  "strtoul s base =
     (case strto s base of
        None \<Rightarrow> (0, s, False)
      | Some (negative, v, tail) \<Rightarrow>
          if v > 2 ^ 64 - 1 then (- 1, tail, True)
          else (of_int (if negative then - v else v), tail, False))"

text \<open>\<^verbatim>\<open>inet_pton()\<close> for \<^verbatim>\<open>AF_INET\<close>: the octets read so far, the current one first.\<close>

fun inet_loop :: "string \<Rightarrow> int list \<Rightarrow> bool \<Rightarrow> int list option" where
  "inet_loop [] os saw_digit = (if length os = 4 \<and> saw_digit then Some os else None)"
| "inet_loop (c # s) os saw_digit =
     (if isdigit c
      then if saw_digit
           then let new = hd os * 10 + hexit_value c in
                if hd os = 0 \<or> new > 255 then None else inet_loop s (new # tl os) True
           else if length os \<ge> 4 then None else inet_loop s (hexit_value c # os) True
      else if c = CHR ''.'' \<and> saw_digit
      then if length os = 4 then None else inet_loop s os False
      else None)"

definition inet_pton4 :: "string \<Rightarrow> ovs_be32 option" where
  "inet_pton4 s =
     (case inet_loop s [] False of
        Some [b3, b2, b1, b0] \<Rightarrow> Some (le32 (of_int b0) (of_int b1) (of_int b2) (of_int b3))
      | _ \<Rightarrow> None)"

section \<open>lib/util.c and lib/socket-util.c\<close>

definition str_to_llong :: "string \<Rightarrow> int \<Rightarrow> bool \<times> int" where
  "str_to_llong s base =
     (let (x, tail, erange) = strtoll s base
      in if erange \<or> tail = s \<or> tail \<noteq> [] then (False, 0) else (True, x))"

definition str_to_int :: "string \<Rightarrow> int \<Rightarrow> bool \<times> int" where
  "str_to_int s base = (let (ok, ll) = str_to_llong s base in (ok, signed_take_bit 31 ll))"

definition lookup_ip :: "string \<Rightarrow> ovs_be32 option" where
  "lookup_ip host_name = inet_pton4 host_name"

section \<open>lib/ofp-parse.c\<close>

definition str_to_u8 :: "string \<Rightarrow> string \<Rightarrow> string + u8" where
  "str_to_u8 str name =
     (let (ok, val) = str_to_int str 0 in
      if \<not> ok \<or> val < 0 \<or> val > 255
      then Inl (''invalid '' @ name @ '' '' @ [CHR 0x22] @ str @ [CHR 0x22]) else Inr (of_int val))"

definition str_to_u16 :: "string \<Rightarrow> string \<Rightarrow> string + u16" where
  "str_to_u16 str name =
     (let (ok, val) = str_to_int str 0 in
      if \<not> ok \<or> val < 0 \<or> val > 65535
      then Inl (''invalid '' @ name @ '' '' @ [CHR 0x22] @ str @ [CHR 0x22]) else Inr (of_int val))"

definition str_to_u32 :: "string \<Rightarrow> string + u32" where
  "str_to_u32 str =
     (if str = [] then Inl ''missing required numeric argument''
      else let (val, tail, erange) = strtoul str 0 in
           if erange \<or> tail \<noteq> [] then Inl (''invalid numeric format '' @ str) else Inr (ucast val))"

definition str_to_u64 :: "string \<Rightarrow> string + u64" where
  "str_to_u64 str =
     (if str = [] then Inl ''missing required numeric argument''
      else let (val, tail, erange) = strtoul str 0 in
           if erange \<or> tail \<noteq> [] then Inl (''invalid numeric format '' @ str) else Inr val)"

text \<open>A MAC address is the word of its six octets, the first one highest.\<close>

definition ETH_ADDR_SCAN_FMT :: string where
  "ETH_ADDR_SCAN_FMT = ''%hhx:%hhx:%hhx:%hhx:%hhx:%hhx''"

fun mac_of_scan :: "scan_val list \<Rightarrow> 48 word" where
  "mac_of_scan [] = 0"
| "mac_of_scan (Scan_Int _ v # vs) = push_bit (8 * length vs) (ucast v) OR mac_of_scan vs"
| "mac_of_scan (_ # vs) = mac_of_scan vs"

definition str_to_mac :: "string \<Rightarrow> (string + 48 word) result" where
  "str_to_mac str =
     rbind (ovs_scan str ETH_ADDR_SCAN_FMT) (\<lambda>(ok, vs).
     Inr (if \<not> ok then Inl (''invalid mac address '' @ str) else Inr (mac_of_scan vs)))"

definition str_to_ip :: "string \<Rightarrow> string + ovs_be32" where
  "str_to_ip str =
     (case lookup_ip str of
        None \<Rightarrow> Inl (str @ '': could not convert to IP address'')
      | Some ip \<Rightarrow> Inr ip)"

section \<open>Printing\<close>

definition digit_char :: "nat \<Rightarrow> char" where
  "digit_char d = ''0123456789abcdef'' ! d"

function digits_of :: "nat \<Rightarrow> nat \<Rightarrow> string" where
  "digits_of b n =
     (if b \<le> 1 \<or> n < b then [digit_char n] else digits_of b (n div b) @ [digit_char (n mod b)])"
  by pat_completeness auto
termination by (relation "measure snd") auto

declare digits_of.simps [simp del]

text \<open>The conversions \<^verbatim>\<open>%d\<close> of a non-negative number, \<^verbatim>\<open>%#x\<close> and \<^verbatim>\<open>%02x\<close>.\<close>

definition fmt_d :: "nat \<Rightarrow> string" where
  "fmt_d n = digits_of 10 n"

definition fmt_alt_x :: "nat \<Rightarrow> string" where
  "fmt_alt_x n = (if n = 0 then ''0'' else ''0x'' @ digits_of 16 n)"

definition fmt_02x :: "u8 \<Rightarrow> string" where
  "fmt_02x b = [digit_char (unat b div 16), digit_char (unat b mod 16)]"

definition mac_octet :: "48 word \<Rightarrow> nat \<Rightarrow> u8" where
  "mac_octet mac i = ucast (drop_bit (8 * (5 - i)) mac)"

definition fmt_mac :: "48 word \<Rightarrow> string" where
  "fmt_mac mac =
     fmt_02x (mac_octet mac 0) @ '':'' @ fmt_02x (mac_octet mac 1) @ '':'' @
     fmt_02x (mac_octet mac 2) @ '':'' @ fmt_02x (mac_octet mac 3) @ '':'' @
     fmt_02x (mac_octet mac 4) @ '':'' @ fmt_02x (mac_octet mac 5)"

definition fmt_ip :: "ovs_be32 \<Rightarrow> string" where
  "fmt_ip ip =
     fmt_d (unat (drop_bit 24 (ntohl ip))) @ ''.'' @
     fmt_d (unat (drop_bit 16 (ntohl ip) AND 0xff)) @ ''.'' @
     fmt_d (unat (drop_bit 8 (ntohl ip) AND 0xff)) @ ''.'' @
     fmt_d (unat (ntohl ip AND 0xff))"

section \<open>Reading what was printed\<close>

lemma digit_char_cases:
  assumes "d < 16"
  shows "hexit_value (digit_char d) = int d" and "isdigit (digit_char d) \<longleftrightarrow> d < 10"
    and "\<not> isspace (digit_char d)" and "digit_char d \<notin> {CHR ''-'', CHR ''+'', CHR ''x'', CHR ''X'', CHR '':'', CHR ''.''}"
    and "digit_char d = CHR ''0'' \<longleftrightarrow> d = 0"
proof -
  have "d \<in> {0, 1, 2, 3, 4, 5, 6, 7, 8, 9, 10, 11, 12, 13, 14, 15}"
    unfolding insert_iff empty_iff using assms by presburger
  then show "hexit_value (digit_char d) = int d" "isdigit (digit_char d) \<longleftrightarrow> d < 10"
    "\<not> isspace (digit_char d)" "digit_char d \<notin> {CHR ''-'', CHR ''+'', CHR ''x'', CHR ''X'', CHR '':'', CHR ''.''}"
    "digit_char d = CHR ''0'' \<longleftrightarrow> d = 0"
    by (elim insertE emptyE; simp add: digit_char_def hexit_value_def isdigit_def isspace_def less_eq_char_def)+
qed

text \<open>A list of digits of base \<open>b\<close>.\<close>

definition base_digits :: "int \<Rightarrow> string \<Rightarrow> bool" where
  "base_digits b s \<longleftrightarrow> (\<forall>c \<in> set s. 0 \<le> hexit_value c \<and> hexit_value c < b)"

definition digits_val :: "int \<Rightarrow> int \<Rightarrow> string \<Rightarrow> int" where
  "digits_val b v s = foldl (\<lambda>v c. v * b + hexit_value c) v s"

lemma digits_value_append:
  assumes "base_digits b s"
  shows "digits_value b (s @ rest) v n = digits_value b rest (digits_val b v s) (n + length s)"
  using assms by (induction s arbitrary: v n) (auto simp: base_digits_def digits_val_def)

lemma digits_of_Nil [simp]: "digits_of b n \<noteq> []"
  by (subst digits_of.simps) simp

lemma digits_of_ok:
  assumes "2 \<le> b" and "b \<le> 16"
  shows "base_digits (int b) (digits_of b n) \<and> digits_val (int b) 0 (digits_of b n) = int n \<and>
    (n \<noteq> 0 \<longrightarrow> hd (digits_of b n) \<noteq> CHR ''0'')"
  using assms
proof (induction b n rule: digits_of.induct)
  case (1 b n)
  show ?case
  proof (cases "n < b")
    case True
    then show ?thesis
      using 1(2,3) digit_char_cases(1,5)[of n]
      by (subst (1 2 3) digits_of.simps) (simp add: base_digits_def digits_val_def)
  next
    case False
    have n: "digits_of b n = digits_of b (n div b) @ [digit_char (n mod b)]"
      using False 1(2) by (subst digits_of.simps) simp
    have m: "n mod b < b" using 1(2) by simp
    have "n div b \<noteq> 0" using False 1(2) by (simp add: div_eq_0_iff)
    moreover have "int (n div b) * int b + int (n mod b) = int n"
      by (simp flip: of_nat_mult of_nat_add)
    ultimately show ?thesis
      using False 1 digit_char_cases(1)[of "n mod b"] m
      by (simp add: n base_digits_def digits_val_def)
  qed
qed

lemmas dec_ok = digits_of_ok[of 10, simplified]
lemmas hex_ok = digits_of_ok[of 16, simplified]

lemma scan_sign_digits: "s \<noteq> [] \<Longrightarrow> base_digits b s \<Longrightarrow> scan_sign (s @ t) = (False, s @ t)"
  by (cases s) (auto simp: scan_sign_def char_at_def base_digits_def hexit_value_def isdigit_def less_eq_char_def)

lemma skip_spaces_digits: "s \<noteq> [] \<Longrightarrow> base_digits b s \<Longrightarrow> skip_spaces (s @ t) = s @ t"
  by (cases s) (auto simp: skip_spaces_def base_digits_def hexit_value_def isdigit_def isspace_def less_eq_char_def)

lemma digits_not_x: "base_digits b s \<Longrightarrow> c \<in> set s \<Longrightarrow> c \<noteq> CHR ''x'' \<and> c \<noteq> CHR ''X''"
  by (auto simp: base_digits_def hexit_value_def isdigit_def less_eq_char_def)

text \<open>Decimal and hexadecimal text without a sign.\<close>

lemma strto_fmt_d: "strto (fmt_d n) 0 = Some (False, int n, [])"
proof -
  let ?s = "digits_of 10 n"
  note ok = dec_ok[of n, THEN conjunct1]
  have nx: "char_at ?s 1 \<noteq> CHR ''x''" "char_at ?s 1 \<noteq> CHR ''X''"
    using digits_not_x[OF ok] by (auto simp: char_at_def)
  have h: "char_at ?s 0 = hd ?s" by (simp add: char_at_def hd_conv_nth)
  have sp: "skip_spaces ?s = ?s" "scan_sign ?s = (False, ?s)"
    using skip_spaces_digits[OF _ ok, of "[]"] scan_sign_digits[OF _ ok, of "[]"] by simp_all
  show ?thesis
  proof (cases "n = 0")
    case True
    then have "?s = ''0''" by (subst digits_of.simps) (simp add: digit_char_def)
    then show ?thesis
      using True by (simp add: strto_def fmt_d_def skip_spaces_def isspace_def scan_sign_def char_at_def
          scan_base_def hexit_value_def isdigit_def less_eq_char_def)
  next
    case False
    then have "char_at ?s 0 \<noteq> CHR ''0''" using dec_ok[of n] h by simp
    then show ?thesis
      using sp nx digits_value_append[OF ok, of "[]" 0 0] dec_ok[of n]
      by (simp add: strto_def fmt_d_def scan_base_def)
  qed
qed

lemma strto_fmt_alt_x: "strto (fmt_alt_x n) 0 = Some (False, int n, [])"
proof (cases "n = 0")
  case True
  then show ?thesis
    by (simp add: strto_def fmt_alt_x_def skip_spaces_def isspace_def scan_sign_def char_at_def
        scan_base_def hexit_value_def isdigit_def less_eq_char_def)
next
  case False
  let ?s = "digits_of 16 n"
  note ok = hex_ok[of n, THEN conjunct1]
  have "char_at (''0x'' @ ?s) 2 = hd ?s" by (simp add: char_at_def hd_conv_nth)
  then have d: "0 \<le> hexit_value (char_at (''0x'' @ ?s) 2)" using ok by (simp add: base_digits_def)
  have "digits_value 16 ?s 0 0 = (int n, length ?s, [])"
    using digits_value_append[OF ok, of "[]" 0 0] hex_ok[of n] by simp
  with False d show ?thesis
    by (simp add: strto_def fmt_alt_x_def skip_spaces_def isspace_def scan_sign_def char_at_def scan_base_def)
qed

lemma fmt_d_Nil [simp]: "fmt_d n \<noteq> []" "[] \<noteq> fmt_d n"
  by (simp_all add: fmt_d_def) (metis digits_of_Nil)

lemma str_to_int_fmt_d:
  "str_to_int (fmt_d n) 0 = (if n < 2 ^ 63 then (True, signed_take_bit 31 (int n)) else (False, 0))"
  by (auto simp: str_to_int_def str_to_llong_def strtoll_def strto_fmt_d Let_def)

text \<open>The value passes through an \<^verbatim>\<open>int\<close>, so numbers beyond 32 bits are accepted modulo 2^32.\<close>

lemma str_to_u8_fmt_d:
  "str_to_u8 (fmt_d n) name = Inr v \<longleftrightarrow>
     n < 2 ^ 63 \<and> signed_take_bit 31 (int n) \<in> {0..255} \<and> v = of_int (signed_take_bit 31 (int n))"
  by (auto simp: str_to_u8_def str_to_int_fmt_d)

lemma signed_take_bit_small: "0 \<le> k \<Longrightarrow> k < 2 ^ 31 \<Longrightarrow> signed_take_bit 31 k = (k :: int)"
  by (simp add: signed_take_bit_int_eq_self)

lemma str_to_u8_wraps:
  assumes "n < 256" and "n + 2 ^ 32 * k < 2 ^ 63"
  shows "str_to_u8 (fmt_d (n + 2 ^ 32 * k)) name = Inr (of_nat n)"
proof -
  have "signed_take_bit 31 (int n + 2 ^ 32 * int k) = signed_take_bit 31 (int n)"
    by (simp add: signed_take_bit_eq_iff_take_bit_eq take_bit_eq_mod)
  then show ?thesis using assms by (simp add: str_to_u8_fmt_d signed_take_bit_small)
qed

lemma str_to_u8_fmt: "str_to_u8 (fmt_d (unat v)) name = Inr v"
proof -
  have "uint v < 256" using unsigned_less[of v, where ?'a = int] by simp
  moreover from this have "signed_take_bit 31 (uint v) = uint v"
    by (intro signed_take_bit_small) simp_all
  moreover have "unat v < 2 ^ 63" using unsigned_less[of v, where ?'a = nat] by simp
  ultimately show ?thesis by (simp add: str_to_u8_def str_to_int_fmt_d)
qed

lemma str_to_u16_fmt: "str_to_u16 (fmt_d (unat v)) name = Inr v"
proof -
  have "uint v < 65536" using unsigned_less[of v, where ?'a = int] by simp
  moreover from this have "signed_take_bit 31 (uint v) = uint v"
    by (intro signed_take_bit_small) simp_all
  moreover have "unat v < 2 ^ 63" using unsigned_less[of v, where ?'a = nat] by simp
  ultimately show ?thesis by (simp add: str_to_u16_def str_to_int_fmt_d)
qed

lemma str_to_u32_fmt: "str_to_u32 (fmt_alt_x (unat v)) = Inr v"
proof -
  have "uint v < 2 ^ 32" using unsigned_less[of v, where ?'a = int] by simp
  moreover have "fmt_alt_x (unat v) \<noteq> []" by (simp add: fmt_alt_x_def)
  moreover have "ucast (ucast v :: u64) = v" by (rule bit_word_eqI) (simp add: bit_simps)
  ultimately show ?thesis
    by (simp add: str_to_u32_def strtoul_def strto_fmt_alt_x Let_def)
qed

subsection \<open>MAC addresses\<close>

lemma scan_int_02x:
  assumes "rest = [] \<or> hexit_value (hd rest) < 0"
  shows "scan_int (fmt_02x b @ rest) \<lparr>sp_width = - 1, sp_type = SCAN_CHAR\<rparr> 16 =
    Some ([Scan_Int SCAN_CHAR (ucast b)], rest)"
proof -
  let ?h = "unat b div 16" and ?l = "unat b mod 16"
  have b: "unat b < 256" using unsigned_less[of b, where ?'a = nat] by simp
  then have h: "?h < 16" and l: "?l < 16" by auto
  note D = digit_char_cases[OF h] digit_char_cases[OF l]
  have "scan_digits 16 k rest v n = (v, n, rest)" for k v n
    using assms by (cases rest) auto
  then have "scan_digits 16 (2 ^ 32 - 1) (fmt_02x b @ rest) 0 0 = (of_int (int ?h * 16 + int ?l), 2, rest)"
    using h l by (simp add: fmt_02x_def D(1) D(6) Let_def)
  moreover have "int ?h * 16 + int ?l = int (unat b)"
    by (metis div_mult_mod_eq of_nat_add of_nat_mult of_nat_numeral)
  moreover have "of_int (int (unat b)) = (ucast b :: u64)" by simp
  moreover have "scan_sign (fmt_02x b @ rest) = (False, fmt_02x b @ rest)"
    "scan_base (fmt_02x b @ rest) 16 = (16, fmt_02x b @ rest)"
    using D(4,9) by (simp_all add: scan_sign_def scan_base_def char_at_def fmt_02x_def)
  moreover have "take_bit 8 (ucast b :: u64) = ucast b"
    by (rule bit_word_eqI) (auto simp: bit_simps dest: bit_imp_le_length)
  moreover have "uint (- 1 :: u32) = 4294967295" by code_simp
  ultimately show ?thesis
    by (simp add: scan_int_def store_int_def)
qed

lemma scan_loop_colon: "scan_loop len (CHR '':'' # p) (CHR '':'' # s) = scan_loop len p s"
  by (simp add: isspace_def char_at_def)

lemma scan_loop_hhx:
  assumes "rest = [] \<or> hexit_value (hd rest) < 0"
  shows "scan_loop len (CHR ''%'' # CHR ''h'' # CHR ''h'' # CHR ''x'' # p) (fmt_02x b @ rest) =
    rbind (scan_loop len p rest) (\<lambda>(ok, ws, s). Inr (ok, Scan_Int SCAN_CHAR (ucast b) # ws, s))"
proof -
  have pre: "scan_prefix (CHR ''h'' # CHR ''h'' # CHR ''x'' # p) =
      (\<lparr>sp_width = - 1, sp_type = SCAN_CHAR\<rparr>, CHR ''x'' # p)"
    by (simp add: scan_prefix_def scan_modifier_def char_at_def isdigit_def less_eq_char_def)
  have "unat b div 16 < 16" using unsigned_less[of b, where ?'a = nat] by simp
  from digit_char_cases(3)[OF this] have "skip_spaces (fmt_02x b @ rest) = fmt_02x b @ rest"
    by (simp add: skip_spaces_def fmt_02x_def)
  then have "scan_convert len (CHR ''x'') \<lparr>sp_width = - 1, sp_type = SCAN_CHAR\<rparr> p (fmt_02x b @ rest) =
      Inr (Some ([Scan_Int SCAN_CHAR (ucast b)], rest), p)"
    using scan_int_02x[OF assms, of b] by (simp add: scan_convert_def)
  with pre show ?thesis by (simp add: isspace_def char_at_def)
qed

lemma mac_octets:
  "mac_of_scan [Scan_Int t0 (ucast (mac_octet mac 0)), Scan_Int t1 (ucast (mac_octet mac 1)),
     Scan_Int t2 (ucast (mac_octet mac 2)), Scan_Int t3 (ucast (mac_octet mac 3)),
     Scan_Int t4 (ucast (mac_octet mac 4)), Scan_Int t5 (ucast (mac_octet mac 5))] = mac"
proof (rule bit_word_eqI)
  fix n assume n: "n < LENGTH(48)"
  have 1: "bit (push_bit k (ucast (ucast (ucast (drop_bit k mac) :: u8) :: u64) :: 48 word)) n \<longleftrightarrow>
      k \<le> n \<and> n < k + 8 \<and> bit mac n" for k
    using n by (auto simp: bit_simps)
  have 2: "n < 48" using n by simp
  have 3: "mac_of_scan [Scan_Int t0 a0, Scan_Int t1 a1, Scan_Int t2 a2, Scan_Int t3 a3, Scan_Int t4 a4,
      Scan_Int t5 a5] = push_bit 40 (ucast a0) OR push_bit 32 (ucast a1) OR push_bit 24 (ucast a2) OR
      push_bit 16 (ucast a3) OR push_bit 8 (ucast a4) OR push_bit 0 (ucast a5)" for a0 a1 a2 a3 a4 a5
    by simp
  have 4: "mac_octet mac 0 = ucast (drop_bit 40 mac)" "mac_octet mac 1 = ucast (drop_bit 32 mac)"
    "mac_octet mac 2 = ucast (drop_bit 24 mac)" "mac_octet mac 3 = ucast (drop_bit 16 mac)"
    "mac_octet mac 4 = ucast (drop_bit 8 mac)" "mac_octet mac 5 = ucast (drop_bit 0 mac)"
    by (simp_all add: mac_octet_def)
  show "bit (mac_of_scan [Scan_Int t0 (ucast (mac_octet mac 0)), Scan_Int t1 (ucast (mac_octet mac 1)),
     Scan_Int t2 (ucast (mac_octet mac 2)), Scan_Int t3 (ucast (mac_octet mac 3)),
     Scan_Int t4 (ucast (mac_octet mac 4)), Scan_Int t5 (ucast (mac_octet mac 5))]) n = bit mac n"
    unfolding 3 4 bit_or_iff 1 using 2 by arith
qed

lemma str_to_mac_fmt: "str_to_mac (fmt_mac mac) = Inr (Inr mac)"
proof -
  have c: "hexit_value (CHR '':'') < 0" by (simp add: hexit_value_def isdigit_def less_eq_char_def)
  have hhx: "scan_loop len (CHR ''%'' # CHR ''h'' # CHR ''h'' # CHR ''x'' # p) (fmt_02x b @ CHR '':'' # r) =
    rbind (scan_loop len p (CHR '':'' # r)) (\<lambda>(ok, ws, s). Inr (ok, Scan_Int SCAN_CHAR (ucast b) # ws, s))"
    for len p b r
    using c by (intro scan_loop_hhx) simp
  have "ovs_scan (fmt_mac mac) ETH_ADDR_SCAN_FMT = Inr (True,
     [Scan_Int SCAN_CHAR (ucast (mac_octet mac 0)), Scan_Int SCAN_CHAR (ucast (mac_octet mac 1)),
     Scan_Int SCAN_CHAR (ucast (mac_octet mac 2)), Scan_Int SCAN_CHAR (ucast (mac_octet mac 3)),
     Scan_Int SCAN_CHAR (ucast (mac_octet mac 4)), Scan_Int SCAN_CHAR (ucast (mac_octet mac 5))])"
    using scan_loop_hhx[of "[]" _ "[]" "mac_octet mac 5"]
    by (simp add: ovs_scan_def fmt_mac_def ETH_ADDR_SCAN_FMT_def hhx scan_loop_colon
        del: scan_loop.simps(2))
  then show ?thesis using mac_octets by (simp add: str_to_mac_def del: mac_of_scan.simps)
qed

subsection \<open>Internet addresses\<close>

lemma base_10_isdigit: "0 \<le> hexit_value c \<Longrightarrow> hexit_value c < 10 \<Longrightarrow> isdigit c"
  by (auto simp: hexit_value_def split: if_splits)

lemma digits_val_ge: "base_digits 10 s \<Longrightarrow> 0 \<le> v \<Longrightarrow> v \<le> digits_val 10 v s"
proof (induction s arbitrary: v)
  case (Cons c s)
  then have "v * 10 + hexit_value c \<le> digits_val 10 (v * 10 + hexit_value c) s"
    by (intro Cons.IH) (auto simp: base_digits_def)
  moreover have "v \<le> v * 10 + hexit_value c" using Cons.prems by (simp add: base_digits_def)
  ultimately show ?case by (simp add: digits_val_def)
qed (simp add: digits_val_def)

lemma inet_loop_digits:
  assumes "base_digits 10 s" and "0 < v" and "digits_val 10 v s \<le> 255"
  shows "inet_loop (s @ rest) (v # os) True = inet_loop rest (digits_val 10 v s # os) True"
  using assms
proof (induction s arbitrary: v)
  case (Cons c s)
  have d: "0 \<le> hexit_value c" "hexit_value c < 10" "base_digits 10 s"
    using Cons.prems(1) by (auto simp: base_digits_def)
  have v: "digits_val 10 v (c # s) = digits_val 10 (v * 10 + hexit_value c) s"
    by (simp add: digits_val_def)
  have "v * 10 + hexit_value c \<le> 255"
    using digits_val_ge[OF d(3), of "v * 10 + hexit_value c"] Cons.prems(2,3) d(1) by (simp add: v)
  with Cons.IH[OF d(3), of "v * 10 + hexit_value c"] Cons.prems(2,3) d base_10_isdigit[OF d(1,2)]
  show ?case by (simp add: v)
qed (simp add: digits_val_def)

lemma inet_loop_fmt_d:
  assumes "n \<le> 255" and "length os < 4"
  shows "inet_loop (fmt_d n @ rest) os False = inet_loop rest (int n # os) True"
proof -
  obtain c s where cs: "digits_of 10 n = c # s" by (cases "digits_of 10 n") auto
  note ok = dec_ok[of n, unfolded cs]
  have d: "0 \<le> hexit_value c" "hexit_value c < 10" "base_digits 10 s"
    using ok by (auto simp: base_digits_def)
  have v: "digits_val 10 (hexit_value c) s = int n" using ok by (simp add: digits_val_def)
  have first: "inet_loop (fmt_d n @ rest) os False = inet_loop (s @ rest) (hexit_value c # os) True"
    using assms(2) base_10_isdigit[OF d(1,2)] by (simp add: fmt_d_def cs)
  show ?thesis
  proof (cases "s = []")
    case True
    with first v show ?thesis by (simp add: digits_val_def)
  next
    case False
    then have "\<not> n < 10" using cs by (auto simp: digits_of.simps[of 10 n])
    then have "c \<noteq> CHR ''0''" using ok by simp
    moreover have "isdigit c" using d base_10_isdigit by blast
    moreover from \<open>c \<noteq> CHR ''0''\<close> have "of_char c \<noteq> (of_char (CHR ''0'') :: int)" by (simp only: of_char_eq_iff) simp
    ultimately have "hexit_value c \<noteq> 0" by (simp add: hexit_value_def)
    with first inet_loop_digits[OF d(3), of "hexit_value c" rest os] v d assms(1) show ?thesis by simp
  qed
qed

lemma fmt_ip_bytes:
  "fmt_ip (le32 b0 b1 b2 b3) = fmt_d (unat b0) @ ''.'' @ fmt_d (unat b1) @ ''.'' @
     fmt_d (unat b2) @ ''.'' @ fmt_d (unat b3)"
proof -
  have m: "x AND 0xff = take_bit 8 x" for x :: u32
    by (simp add: take_bit_eq_mask mask_eq_exp_minus_1)
  have "drop_bit 24 (le32 b3 b2 b1 b0) = ucast b0" "take_bit 8 (drop_bit 16 (le32 b3 b2 b1 b0)) = ucast b1"
    "take_bit 8 (drop_bit 8 (le32 b3 b2 b1 b0)) = ucast b2" "take_bit 8 (le32 b3 b2 b1 b0) = ucast b3"
    by (rule bit_word_eqI; auto simp: bit_simps bit_le32 dest: bit_imp_le_length)+
  moreover have "unat (ucast b :: u32) = unat b" for b :: u8
    using unsigned_less[of b, where ?'a = nat] by (simp add: unsigned_ucast_eq take_bit_nat_eq_self)
  ultimately show ?thesis by (simp add: fmt_ip_def m)
qed

lemma str_to_ip_fmt: "str_to_ip (fmt_ip ip) = Inr ip"
proof -
  define b0 b1 b2 b3 :: u8 where "b0 = ucast ip" and "b1 = ucast (drop_bit 8 ip)"
    and "b2 = ucast (drop_bit 16 ip)" and "b3 = ucast (drop_bit 24 ip)"
  then have ip: "ip = le32 b0 b1 b2 b3" by simp
  have b: "unat b \<le> 255" for b :: u8 using unsigned_less[of b, where ?'a = nat] by simp
  have dot: "inet_loop (CHR ''.'' # s) (k # os) True = inet_loop s (k # os) False" if "length os < 3" for s k os
    using that by (simp add: isdigit_def less_eq_char_def)
  have "inet_loop (fmt_ip ip) [] False = Some [uint b3, uint b2, uint b1, uint b0]"
    using inet_loop_fmt_d[OF b, of _ b3 "[]"]
    by (simp add: ip fmt_ip_bytes inet_loop_fmt_d[OF b] dot del: inet_loop.simps(2))
  then show ?thesis by (simp add: str_to_ip_def lookup_ip_def inet_pton4_def ip)
qed

end
