(* ===== verification/Ofp_Raw.thy ===== *)
theory Ofp_Raw
  imports Dp_Packet
begin

text \<open>
  The wire format of actions in \<^verbatim>\<open>lib/ofp-actions.c\<close>: the raw action types with the annotations
  that describe their encodings, the table that \<^verbatim>\<open>build-aux/extract-ofp-actions\<close> generates from
  them, and the functions that take an action off a message or append one. As in C, the
  raw action types are numbers.
\<close>

unbundle bit_operations_syntax

section \<open>Raw action types\<close>

type_synonym ofp_raw_action_type = nat

abbreviation (input) OFPAT_RAW10_OUTPUT :: nat where "OFPAT_RAW10_OUTPUT \<equiv> 0"
abbreviation (input) OFPAT_RAW11_OUTPUT :: nat where "OFPAT_RAW11_OUTPUT \<equiv> 1"
abbreviation (input) OFPAT_RAW10_SET_VLAN_VID :: nat where "OFPAT_RAW10_SET_VLAN_VID \<equiv> 2"
abbreviation (input) OFPAT_RAW10_SET_VLAN_PCP :: nat where "OFPAT_RAW10_SET_VLAN_PCP \<equiv> 3"
abbreviation (input) OFPAT_RAW11_SET_VLAN_VID :: nat where "OFPAT_RAW11_SET_VLAN_VID \<equiv> 4"
abbreviation (input) OFPAT_RAW11_SET_VLAN_PCP :: nat where "OFPAT_RAW11_SET_VLAN_PCP \<equiv> 5"
abbreviation (input) OFPAT_RAW11_PUSH_VLAN :: nat where "OFPAT_RAW11_PUSH_VLAN \<equiv> 6"
abbreviation (input) OFPAT_RAW10_STRIP_VLAN :: nat where "OFPAT_RAW10_STRIP_VLAN \<equiv> 7"
abbreviation (input) OFPAT_RAW11_POP_VLAN :: nat where "OFPAT_RAW11_POP_VLAN \<equiv> 8"
abbreviation (input) OFPAT_RAW_SET_DL_SRC :: nat where "OFPAT_RAW_SET_DL_SRC \<equiv> 9"
abbreviation (input) OFPAT_RAW_SET_DL_DST :: nat where "OFPAT_RAW_SET_DL_DST \<equiv> 10"
abbreviation (input) OFPAT_RAW_SET_NW_SRC :: nat where "OFPAT_RAW_SET_NW_SRC \<equiv> 11"
abbreviation (input) OFPAT_RAW_SET_NW_DST :: nat where "OFPAT_RAW_SET_NW_DST \<equiv> 12"
abbreviation (input) OFPAT_RAW_SET_NW_TOS :: nat where "OFPAT_RAW_SET_NW_TOS \<equiv> 13"
abbreviation (input) OFPAT_RAW11_SET_NW_ECN :: nat where "OFPAT_RAW11_SET_NW_ECN \<equiv> 14"
abbreviation (input) OFPAT_RAW_SET_TP_SRC :: nat where "OFPAT_RAW_SET_TP_SRC \<equiv> 15"
abbreviation (input) OFPAT_RAW_SET_TP_DST :: nat where "OFPAT_RAW_SET_TP_DST \<equiv> 16"
abbreviation (input) OFPAT_RAW10_ENQUEUE :: nat where "OFPAT_RAW10_ENQUEUE \<equiv> 17"
abbreviation (input) OFPAT_RAW_SET_MPLS_LABEL :: nat where "OFPAT_RAW_SET_MPLS_LABEL \<equiv> 18"
abbreviation (input) OFPAT_RAW_SET_MPLS_TC :: nat where "OFPAT_RAW_SET_MPLS_TC \<equiv> 19"
abbreviation (input) OFPAT_RAW_SET_MPLS_TTL :: nat where "OFPAT_RAW_SET_MPLS_TTL \<equiv> 20"
abbreviation (input) OFPAT_RAW_DEC_MPLS_TTL :: nat where "OFPAT_RAW_DEC_MPLS_TTL \<equiv> 21"
abbreviation (input) OFPAT_RAW_PUSH_MPLS :: nat where "OFPAT_RAW_PUSH_MPLS \<equiv> 22"
abbreviation (input) OFPAT_RAW_POP_MPLS :: nat where "OFPAT_RAW_POP_MPLS \<equiv> 23"
abbreviation (input) OFPAT_RAW_SET_QUEUE :: nat where "OFPAT_RAW_SET_QUEUE \<equiv> 24"
abbreviation (input) OFPAT_RAW11_GROUP :: nat where "OFPAT_RAW11_GROUP \<equiv> 25"
abbreviation (input) OFPAT_RAW11_SET_NW_TTL :: nat where "OFPAT_RAW11_SET_NW_TTL \<equiv> 26"
abbreviation (input) OFPAT_RAW_DEC_NW_TTL :: nat where "OFPAT_RAW_DEC_NW_TTL \<equiv> 27"
abbreviation (input) NXAST_RAW_DEC_TTL_CNT_IDS :: nat where "NXAST_RAW_DEC_TTL_CNT_IDS \<equiv> 28"
abbreviation (input) OFPAT_RAW12_SET_FIELD :: nat where "OFPAT_RAW12_SET_FIELD \<equiv> 29"
abbreviation (input) OFPAT_RAW15_SET_FIELD :: nat where "OFPAT_RAW15_SET_FIELD \<equiv> 30"
abbreviation (input) OFPAT_RAW10_HANDLE_GTP :: nat where "OFPAT_RAW10_HANDLE_GTP \<equiv> 31"
abbreviation (input) OFPAT_RAW10_OPERATE_GTP :: nat where "OFPAT_RAW10_OPERATE_GTP \<equiv> 32"
abbreviation (input) OFPAT_RAW10_GTP_TEID :: nat where "OFPAT_RAW10_GTP_TEID \<equiv> 33"
abbreviation (input) OFPAT_RAW10_GTP_PGW_IP :: nat where "OFPAT_RAW10_GTP_PGW_IP \<equiv> 34"
abbreviation (input) OFPAT_RAW10_OVS_ID :: nat where "OFPAT_RAW10_OVS_ID \<equiv> 35"
abbreviation (input) OFPAT_RAW10_OVS_TOTAL :: nat where "OFPAT_RAW10_OVS_TOTAL \<equiv> 36"
abbreviation (input) OFPAT_RAW10_GTP_PGW_PORT :: nat where "OFPAT_RAW10_GTP_PGW_PORT \<equiv> 37"
abbreviation (input) OFPAT_RAW10_OVS_PHY_PORT :: nat where "OFPAT_RAW10_OVS_PHY_PORT \<equiv> 38"
abbreviation (input) OFPAT_RAW10_HANDLE_PGW_SGI :: nat where "OFPAT_RAW10_HANDLE_PGW_SGI \<equiv> 39"
abbreviation (input) OFPAT_RAW10_PGW_SGI_PORT :: nat where "OFPAT_RAW10_PGW_SGI_PORT \<equiv> 40"
abbreviation (input) OFPAT_RAW10_PGW_FASTPATH :: nat where "OFPAT_RAW10_PGW_FASTPATH \<equiv> 41"
abbreviation (input) OFPAT_RAW10_GTP_PGW_ETH :: nat where "OFPAT_RAW10_GTP_PGW_ETH \<equiv> 42"
abbreviation (input) OFPAT_RAW10_PGW_SGI_ETH :: nat where "OFPAT_RAW10_PGW_SGI_ETH \<equiv> 43"
abbreviation (input) OFPAT_RAW11_HANDLE_GTP :: nat where "OFPAT_RAW11_HANDLE_GTP \<equiv> 44"
abbreviation (input) OFPAT_RAW11_OPERATE_GTP :: nat where "OFPAT_RAW11_OPERATE_GTP \<equiv> 45"
abbreviation (input) OFPAT_RAW11_GTP_TEID :: nat where "OFPAT_RAW11_GTP_TEID \<equiv> 46"
abbreviation (input) OFPAT_RAW11_GTP_PGW_IP :: nat where "OFPAT_RAW11_GTP_PGW_IP \<equiv> 47"
abbreviation (input) OFPAT_RAW11_OVS_ID :: nat where "OFPAT_RAW11_OVS_ID \<equiv> 48"
abbreviation (input) OFPAT_RAW11_OVS_TOTAL :: nat where "OFPAT_RAW11_OVS_TOTAL \<equiv> 49"
abbreviation (input) OFPAT_RAW11_GTP_PGW_PORT :: nat where "OFPAT_RAW11_GTP_PGW_PORT \<equiv> 50"
abbreviation (input) OFPAT_RAW11_OVS_PHY_PORT :: nat where "OFPAT_RAW11_OVS_PHY_PORT \<equiv> 51"
abbreviation (input) OFPAT_RAW11_HANDLE_PGW_SGI :: nat where "OFPAT_RAW11_HANDLE_PGW_SGI \<equiv> 52"
abbreviation (input) OFPAT_RAW11_PGW_SGI_PORT :: nat where "OFPAT_RAW11_PGW_SGI_PORT \<equiv> 53"
abbreviation (input) OFPAT_RAW11_PGW_FASTPATH :: nat where "OFPAT_RAW11_PGW_FASTPATH \<equiv> 54"
abbreviation (input) OFPAT_RAW11_GTP_PGW_ETH :: nat where "OFPAT_RAW11_GTP_PGW_ETH \<equiv> 55"
abbreviation (input) OFPAT_RAW11_PGW_SGI_ETH :: nat where "OFPAT_RAW11_PGW_SGI_ETH \<equiv> 56"
abbreviation (input) OFPAT_RAW12_HANDLE_GTP :: nat where "OFPAT_RAW12_HANDLE_GTP \<equiv> 57"
abbreviation (input) OFPAT_RAW12_OPERATE_GTP :: nat where "OFPAT_RAW12_OPERATE_GTP \<equiv> 58"
abbreviation (input) OFPAT_RAW12_GTP_TEID :: nat where "OFPAT_RAW12_GTP_TEID \<equiv> 59"
abbreviation (input) OFPAT_RAW12_GTP_PGW_IP :: nat where "OFPAT_RAW12_GTP_PGW_IP \<equiv> 60"
abbreviation (input) OFPAT_RAW12_OVS_ID :: nat where "OFPAT_RAW12_OVS_ID \<equiv> 61"
abbreviation (input) OFPAT_RAW12_OVS_TOTAL :: nat where "OFPAT_RAW12_OVS_TOTAL \<equiv> 62"
abbreviation (input) OFPAT_RAW12_GTP_PGW_PORT :: nat where "OFPAT_RAW12_GTP_PGW_PORT \<equiv> 63"
abbreviation (input) OFPAT_RAW12_OVS_PHY_PORT :: nat where "OFPAT_RAW12_OVS_PHY_PORT \<equiv> 64"
abbreviation (input) OFPAT_RAW12_HANDLE_PGW_SGI :: nat where "OFPAT_RAW12_HANDLE_PGW_SGI \<equiv> 65"
abbreviation (input) OFPAT_RAW12_PGW_SGI_PORT :: nat where "OFPAT_RAW12_PGW_SGI_PORT \<equiv> 66"
abbreviation (input) OFPAT_RAW12_PGW_FASTPATH :: nat where "OFPAT_RAW12_PGW_FASTPATH \<equiv> 67"
abbreviation (input) OFPAT_RAW12_GTP_PGW_ETH :: nat where "OFPAT_RAW12_GTP_PGW_ETH \<equiv> 68"
abbreviation (input) OFPAT_RAW12_PGW_SGI_ETH :: nat where "OFPAT_RAW12_PGW_SGI_ETH \<equiv> 69"
abbreviation (input) NXAST_RAW_REG_LOAD :: nat where "NXAST_RAW_REG_LOAD \<equiv> 70"
abbreviation (input) NXAST_RAW_REG_LOAD2 :: nat where "NXAST_RAW_REG_LOAD2 \<equiv> 71"
abbreviation (input) OFPAT_RAW15_COPY_FIELD :: nat where "OFPAT_RAW15_COPY_FIELD \<equiv> 72"
abbreviation (input) ONFACT_RAW13_COPY_FIELD :: nat where "ONFACT_RAW13_COPY_FIELD \<equiv> 73"
abbreviation (input) NXAST_RAW_REG_MOVE :: nat where "NXAST_RAW_REG_MOVE \<equiv> 74"
abbreviation (input) NXAST_RAW_RESUBMIT :: nat where "NXAST_RAW_RESUBMIT \<equiv> 75"
abbreviation (input) NXAST_RAW_RESUBMIT_TABLE :: nat where "NXAST_RAW_RESUBMIT_TABLE \<equiv> 76"
abbreviation (input) NXAST_RAW_SET_TUNNEL :: nat where "NXAST_RAW_SET_TUNNEL \<equiv> 77"
abbreviation (input) NXAST_RAW_SET_TUNNEL64 :: nat where "NXAST_RAW_SET_TUNNEL64 \<equiv> 78"
abbreviation (input) NXAST_RAW_POP_QUEUE :: nat where "NXAST_RAW_POP_QUEUE \<equiv> 79"
abbreviation (input) NXAST_RAW_NOTE :: nat where "NXAST_RAW_NOTE \<equiv> 80"
abbreviation (input) NXAST_RAW_MULTIPATH :: nat where "NXAST_RAW_MULTIPATH \<equiv> 81"
abbreviation (input) NXAST_RAW_BUNDLE :: nat where "NXAST_RAW_BUNDLE \<equiv> 82"
abbreviation (input) NXAST_RAW_BUNDLE_LOAD :: nat where "NXAST_RAW_BUNDLE_LOAD \<equiv> 83"
abbreviation (input) NXAST_RAW_OUTPUT_REG :: nat where "NXAST_RAW_OUTPUT_REG \<equiv> 84"
abbreviation (input) NXAST_RAW_OUTPUT_REG2 :: nat where "NXAST_RAW_OUTPUT_REG2 \<equiv> 85"
abbreviation (input) NXAST_RAW_LEARN :: nat where "NXAST_RAW_LEARN \<equiv> 86"
abbreviation (input) NXAST_RAW_EXIT :: nat where "NXAST_RAW_EXIT \<equiv> 87"
abbreviation (input) NXAST_RAW_FIN_TIMEOUT :: nat where "NXAST_RAW_FIN_TIMEOUT \<equiv> 88"
abbreviation (input) NXAST_RAW_CONTROLLER :: nat where "NXAST_RAW_CONTROLLER \<equiv> 89"
abbreviation (input) NXAST_RAW_WRITE_METADATA :: nat where "NXAST_RAW_WRITE_METADATA \<equiv> 90"
abbreviation (input) NXAST_RAW_STACK_PUSH :: nat where "NXAST_RAW_STACK_PUSH \<equiv> 91"
abbreviation (input) NXAST_RAW_STACK_POP :: nat where "NXAST_RAW_STACK_POP \<equiv> 92"
abbreviation (input) NXAST_RAW_SAMPLE :: nat where "NXAST_RAW_SAMPLE \<equiv> 93"
abbreviation (input) NXAST_RAW_CONJUNCTION :: nat where "NXAST_RAW_CONJUNCTION \<equiv> 94"
abbreviation (input) NXAST_RAW_CT :: nat where "NXAST_RAW_CT \<equiv> 95"
abbreviation (input) NXAST_RAW_DEBUG_RECIRC :: nat where "NXAST_RAW_DEBUG_RECIRC \<equiv> 96"

datatype vendor_name = OF | ONF | NX

datatype basic_type = Uint8 | Ovs_be16 | Ovs_be32 | Ovs_be64 | Uint16 | Uint32 | Uint64

text \<open>\<open>Struct n\<close> is a struct of \<open>n\<close> bytes, \<open>Struct_Ellipsis n\<close> the same followed by more.\<close>

datatype argtype = Basic basic_type | Void | Struct nat | Struct_Ellipsis nat

datatype version_range = Exactly | Onward | Upto nat

text \<open>A destination \<^verbatim>\<open>OF1.2-1.4(28)\<close> is \<open>(OF, 3, Upto 5, 28)\<close>: versions are the numbers of the
  protocol header.\<close>

type_synonym action_dst = "vendor_name \<times> nat \<times> version_range \<times> nat"
type_synonym action_spec = "ofp_raw_action_type \<times> action_dst list \<times> argtype"

definition standard_actions :: "action_spec list" where
  "standard_actions =
  [(OFPAT_RAW10_OUTPUT, [(OF, 1, Exactly, 0)], Struct 8),
   (OFPAT_RAW11_OUTPUT, [(OF, 2, Onward, 0)], Struct 16),
   (OFPAT_RAW10_SET_VLAN_VID, [(OF, 1, Exactly, 1)], Basic Uint16),
   (OFPAT_RAW10_SET_VLAN_PCP, [(OF, 1, Exactly, 2)], Basic Uint8),
   (OFPAT_RAW11_SET_VLAN_VID, [(OF, 2, Exactly, 1), (OF, 3, Onward, 1)], Basic Uint16),
   (OFPAT_RAW11_SET_VLAN_PCP, [(OF, 2, Exactly, 2), (OF, 3, Onward, 2)], Basic Uint8),
   (OFPAT_RAW11_PUSH_VLAN, [(OF, 2, Onward, 17)], Basic Ovs_be16),
   (OFPAT_RAW10_STRIP_VLAN, [(OF, 1, Exactly, 3)], Void),
   (OFPAT_RAW11_POP_VLAN, [(OF, 2, Onward, 18)], Void),
   (OFPAT_RAW_SET_DL_SRC, [(OF, 1, Exactly, 4), (OF, 2, Exactly, 3), (OF, 3, Onward, 3)], Struct 16),
   (OFPAT_RAW_SET_DL_DST, [(OF, 1, Exactly, 5), (OF, 2, Exactly, 4), (OF, 3, Onward, 4)], Struct 16),
   (OFPAT_RAW_SET_NW_SRC, [(OF, 1, Exactly, 6), (OF, 2, Exactly, 5), (OF, 3, Onward, 5)], Basic Ovs_be32),
   (OFPAT_RAW_SET_NW_DST, [(OF, 1, Exactly, 7), (OF, 2, Exactly, 6), (OF, 3, Onward, 6)], Basic Ovs_be32),
   (OFPAT_RAW_SET_NW_TOS, [(OF, 1, Exactly, 8), (OF, 2, Exactly, 7), (OF, 3, Onward, 7)], Basic Uint8),
   (OFPAT_RAW11_SET_NW_ECN, [(OF, 2, Exactly, 8), (OF, 3, Onward, 8)], Basic Uint8),
   (OFPAT_RAW_SET_TP_SRC, [(OF, 1, Exactly, 9), (OF, 2, Exactly, 9), (OF, 3, Onward, 9)], Basic Ovs_be16),
   (OFPAT_RAW_SET_TP_DST, [(OF, 1, Exactly, 10), (OF, 2, Exactly, 10), (OF, 3, Onward, 10)], Basic Ovs_be16),
   (OFPAT_RAW10_ENQUEUE, [(OF, 1, Exactly, 11)], Struct 16),
   (OFPAT_RAW_SET_MPLS_LABEL, [(NX, 1, Exactly, 30), (OF, 2, Exactly, 13), (OF, 3, Onward, 13)], Basic Ovs_be32),
   (OFPAT_RAW_SET_MPLS_TC, [(NX, 1, Exactly, 31), (OF, 2, Exactly, 14), (OF, 3, Onward, 14)], Basic Uint8),
   (OFPAT_RAW_SET_MPLS_TTL, [(NX, 1, Exactly, 25), (OF, 2, Exactly, 15), (OF, 3, Onward, 15)], Basic Uint8),
   (OFPAT_RAW_DEC_MPLS_TTL, [(NX, 1, Exactly, 26), (OF, 2, Onward, 16)], Void),
   (OFPAT_RAW_PUSH_MPLS, [(NX, 1, Exactly, 23), (OF, 2, Onward, 19)], Basic Ovs_be16),
   (OFPAT_RAW_POP_MPLS, [(NX, 1, Exactly, 24), (OF, 2, Onward, 20)], Basic Ovs_be16),
   (OFPAT_RAW_SET_QUEUE, [(NX, 1, Exactly, 4), (OF, 2, Onward, 21)], Basic Uint32),
   (OFPAT_RAW11_GROUP, [(OF, 2, Onward, 22)], Basic Uint32),
   (OFPAT_RAW11_SET_NW_TTL, [(OF, 2, Onward, 23)], Basic Uint8),
   (OFPAT_RAW_DEC_NW_TTL, [(NX, 1, Exactly, 18), (OF, 2, Onward, 24)], Void),
   (NXAST_RAW_DEC_TTL_CNT_IDS, [(NX, 1, Onward, 21)], Struct_Ellipsis 16),
   (OFPAT_RAW12_SET_FIELD, [(OF, 3, (Upto 5), 25)], Struct_Ellipsis 8),
   (OFPAT_RAW15_SET_FIELD, [(OF, 6, Onward, 25)], Struct_Ellipsis 8)]"

definition gtp_actions_10 :: "action_spec list" where
  "gtp_actions_10 =
  [(OFPAT_RAW10_HANDLE_GTP, [(OF, 1, Exactly, 28)], Void),
   (OFPAT_RAW10_OPERATE_GTP, [(OF, 1, Exactly, 29)], Basic Uint8),
   (OFPAT_RAW10_GTP_TEID, [(OF, 1, Exactly, 30)], Basic Uint32),
   (OFPAT_RAW10_GTP_PGW_IP, [(OF, 1, Exactly, 31)], Basic Ovs_be32),
   (OFPAT_RAW10_OVS_ID, [(OF, 1, Exactly, 32)], Basic Uint16),
   (OFPAT_RAW10_OVS_TOTAL, [(OF, 1, Exactly, 33)], Basic Uint16),
   (OFPAT_RAW10_GTP_PGW_PORT, [(OF, 1, Exactly, 34)], Basic Uint16),
   (OFPAT_RAW10_OVS_PHY_PORT, [(OF, 1, Exactly, 35)], Basic Uint16),
   (OFPAT_RAW10_HANDLE_PGW_SGI, [(OF, 1, Exactly, 36)], Void),
   (OFPAT_RAW10_PGW_SGI_PORT, [(OF, 1, Exactly, 37)], Basic Uint16),
   (OFPAT_RAW10_PGW_FASTPATH, [(OF, 1, Exactly, 38)], Basic Uint8),
   (OFPAT_RAW10_GTP_PGW_ETH, [(OF, 1, Exactly, 39)], Struct 16),
   (OFPAT_RAW10_PGW_SGI_ETH, [(OF, 1, Exactly, 40)], Struct 16)]"

definition gtp_actions_11 :: "action_spec list" where
  "gtp_actions_11 =
  [(OFPAT_RAW11_HANDLE_GTP, [(OF, 2, Exactly, 28)], Void),
   (OFPAT_RAW11_OPERATE_GTP, [(OF, 2, Exactly, 29)], Basic Uint8),
   (OFPAT_RAW11_GTP_TEID, [(OF, 2, Exactly, 30)], Basic Uint32),
   (OFPAT_RAW11_GTP_PGW_IP, [(OF, 2, Exactly, 31)], Basic Ovs_be32),
   (OFPAT_RAW11_OVS_ID, [(OF, 2, Exactly, 32)], Basic Uint16),
   (OFPAT_RAW11_OVS_TOTAL, [(OF, 2, Exactly, 33)], Basic Uint16),
   (OFPAT_RAW11_GTP_PGW_PORT, [(OF, 2, Exactly, 34)], Basic Uint16),
   (OFPAT_RAW11_OVS_PHY_PORT, [(OF, 2, Exactly, 35)], Basic Uint16),
   (OFPAT_RAW11_HANDLE_PGW_SGI, [(OF, 2, Exactly, 36)], Void),
   (OFPAT_RAW11_PGW_SGI_PORT, [(OF, 2, Exactly, 37)], Basic Uint16),
   (OFPAT_RAW11_PGW_FASTPATH, [(OF, 2, Exactly, 38)], Basic Uint8),
   (OFPAT_RAW11_GTP_PGW_ETH, [(OF, 2, Exactly, 39)], Struct 16),
   (OFPAT_RAW11_PGW_SGI_ETH, [(OF, 2, Exactly, 40)], Struct 16)]"

definition gtp_actions_12 :: "action_spec list" where
  "gtp_actions_12 =
  [(OFPAT_RAW12_HANDLE_GTP, [(OF, 3, (Upto 5), 28)], Void),
   (OFPAT_RAW12_OPERATE_GTP, [(OF, 3, (Upto 5), 29)], Basic Uint8),
   (OFPAT_RAW12_GTP_TEID, [(OF, 3, (Upto 5), 30)], Basic Uint32),
   (OFPAT_RAW12_GTP_PGW_IP, [(OF, 3, (Upto 5), 31)], Basic Ovs_be32),
   (OFPAT_RAW12_OVS_ID, [(OF, 3, (Upto 5), 32)], Basic Uint16),
   (OFPAT_RAW12_OVS_TOTAL, [(OF, 3, (Upto 5), 33)], Basic Uint16),
   (OFPAT_RAW12_GTP_PGW_PORT, [(OF, 3, (Upto 5), 34)], Basic Uint16),
   (OFPAT_RAW12_OVS_PHY_PORT, [(OF, 3, (Upto 5), 35)], Basic Uint16),
   (OFPAT_RAW12_HANDLE_PGW_SGI, [(OF, 3, (Upto 5), 36)], Void),
   (OFPAT_RAW12_PGW_SGI_PORT, [(OF, 3, (Upto 5), 37)], Basic Uint16),
   (OFPAT_RAW12_PGW_FASTPATH, [(OF, 3, (Upto 5), 38)], Basic Uint8),
   (OFPAT_RAW12_GTP_PGW_ETH, [(OF, 3, (Upto 5), 39)], Struct 16),
   (OFPAT_RAW12_PGW_SGI_ETH, [(OF, 3, (Upto 5), 40)], Struct 16)]"

definition copy_actions :: "action_spec list" where
  "copy_actions =
  [(NXAST_RAW_REG_LOAD, [(NX, 1, (Upto 5), 7)], Struct 24),
   (NXAST_RAW_REG_LOAD2, [(NX, 1, (Upto 5), 33)], Struct_Ellipsis 16),
   (OFPAT_RAW15_COPY_FIELD, [(OF, 6, Onward, 28)], Struct_Ellipsis 16),
   (ONFACT_RAW13_COPY_FIELD, [(ONF, 4, (Upto 5), 3200)], Struct_Ellipsis 24),
   (NXAST_RAW_REG_MOVE, [(NX, 1, (Upto 5), 6)], Struct_Ellipsis 16)]"

definition nicira_actions :: "action_spec list" where
  "nicira_actions =
  [(NXAST_RAW_RESUBMIT, [(NX, 1, Onward, 1)], Basic Uint16),
   (NXAST_RAW_RESUBMIT_TABLE, [(NX, 1, Onward, 14)], Struct 16),
   (NXAST_RAW_SET_TUNNEL, [(NX, 1, Onward, 2)], Basic Uint32),
   (NXAST_RAW_SET_TUNNEL64, [(NX, 1, Onward, 9)], Basic Uint64),
   (NXAST_RAW_POP_QUEUE, [(NX, 1, Onward, 5)], Void),
   (NXAST_RAW_NOTE, [(NX, 1, Onward, 8)], Struct_Ellipsis 16),
   (NXAST_RAW_MULTIPATH, [(NX, 1, Onward, 10)], Struct 32),
   (NXAST_RAW_BUNDLE, [(NX, 1, Onward, 12)], Struct_Ellipsis 32),
   (NXAST_RAW_BUNDLE_LOAD, [(NX, 1, Onward, 13)], Struct_Ellipsis 32),
   (NXAST_RAW_OUTPUT_REG, [(NX, 1, Onward, 15)], Struct 24),
   (NXAST_RAW_OUTPUT_REG2, [(NX, 1, Onward, 32)], Struct 24),
   (NXAST_RAW_LEARN, [(NX, 1, Onward, 16)], Struct_Ellipsis 32),
   (NXAST_RAW_EXIT, [(NX, 1, Onward, 17)], Void),
   (NXAST_RAW_FIN_TIMEOUT, [(NX, 1, Onward, 19)], Struct 16),
   (NXAST_RAW_CONTROLLER, [(NX, 1, Onward, 20)], Struct 16),
   (NXAST_RAW_WRITE_METADATA, [(NX, 1, Onward, 22)], Struct 32),
   (NXAST_RAW_STACK_PUSH, [(NX, 1, Onward, 27)], Struct 24),
   (NXAST_RAW_STACK_POP, [(NX, 1, Onward, 28)], Struct 24),
   (NXAST_RAW_SAMPLE, [(NX, 1, Onward, 29)], Struct 24),
   (NXAST_RAW_CONJUNCTION, [(NX, 1, Onward, 34)], Struct 16),
   (NXAST_RAW_CT, [(NX, 1, Onward, 35)], Struct_Ellipsis 24),
   (NXAST_RAW_DEBUG_RECIRC, [(NX, 1, Onward, 255)], Void)]"

definition raw_action_specs :: "action_spec list" where
  "raw_action_specs = standard_actions @ gtp_actions_10 @ gtp_actions_11 @ gtp_actions_12 @
     copy_actions @ nicira_actions"

section \<open>The generated table\<close>

definition OFP_ACTION_ALIGN :: nat where
  "OFP_ACTION_ALIGN = 8"

text \<open>The vendor's code and the length of the header of its actions.\<close>

fun vendor_map :: "vendor_name \<Rightarrow> u32 \<times> nat" where
  "vendor_map OF = (0, 4)"
| "vendor_map ONF = (0x4f4e4600, 10)"
| "vendor_map NX = (0x00002320, 10)"

fun type_size :: "basic_type \<Rightarrow> nat" where
  "type_size Uint8 = 1"
| "type_size Ovs_be16 = 2"
| "type_size Ovs_be32 = 4"
| "type_size Ovs_be64 = 8"
| "type_size Uint16 = 2"
| "type_size Uint32 = 4"
| "type_size Uint64 = 8"

definition round_up :: "nat \<Rightarrow> nat \<Rightarrow> nat" where
  "round_up x y = (x + (y - 1)) div y * y"

record ofpact_hdrs =
  oh_vendor :: u32
  oh_type :: u16
  oh_ofp_version :: nat

record ofpact_raw_instance =
  ri_hdrs :: ofpact_hdrs
  ri_raw :: ofp_raw_action_type
  ri_min_length :: nat
  ri_max_length :: nat
  ri_arg_ofs :: nat
  ri_arg_len :: nat

fun last_version :: "nat \<Rightarrow> version_range \<Rightarrow> nat" where
  "last_version v1 Exactly = v1"
| "last_version v1 Onward = 6"
| "last_version v1 (Upto v2) = v2"

text \<open>Minimum length, offset and length of the argument.\<close>

fun arg_layout :: "nat \<Rightarrow> argtype \<Rightarrow> nat \<times> nat \<times> nat" where
  "arg_layout header_len (Basic t) =
     (let arg_ofs = round_up header_len (type_size t)
      in (round_up (arg_ofs + type_size t) OFP_ACTION_ALIGN, arg_ofs, type_size t))"
| "arg_layout header_len Void = (round_up header_len OFP_ACTION_ALIGN, 0, 0)"
| "arg_layout header_len (Struct n) = (n, 0, 0)"
| "arg_layout header_len (Struct_Ellipsis n) = (n, 0, 0)"

definition extract_instance :: "ofp_raw_action_type \<Rightarrow> vendor_name \<Rightarrow> nat \<Rightarrow> argtype \<Rightarrow> nat
    \<Rightarrow> ofpact_raw_instance" where
  "extract_instance enum vendor type argtype version =
     (let (min_length, arg_ofs, arg_len) = arg_layout (snd (vendor_map vendor)) argtype;
          max_length = (case argtype of Struct_Ellipsis n \<Rightarrow> 65536 - OFP_ACTION_ALIGN | _ \<Rightarrow> min_length)
      in \<lparr>ri_hdrs = \<lparr>oh_vendor = fst (vendor_map vendor), oh_type = of_nat type, oh_ofp_version = version\<rparr>,
          ri_raw = enum, ri_min_length = min_length, ri_max_length = max_length,
          ri_arg_ofs = arg_ofs, ri_arg_len = arg_len\<rparr>)"

definition extract_dst :: "ofp_raw_action_type \<Rightarrow> argtype \<Rightarrow> action_dst \<Rightarrow> ofpact_raw_instance list" where
  "extract_dst enum argtype dst =
     (case dst of (vendor, v1, v2, type) \<Rightarrow>
        map (extract_instance enum vendor type argtype) [v1..<last_version v1 v2 + 1])"

definition extract_ofp_actions :: "action_spec list \<Rightarrow> ofpact_raw_instance list" where
  "extract_ofp_actions specs =
     concat (map (\<lambda>(enum, dsts, argtype). concat (map (extract_dst enum argtype) dsts)) specs)"

definition all_raw_instances :: "ofpact_raw_instance list" where
  "all_raw_instances = extract_ofp_actions raw_action_specs"

section \<open>Bytes\<close>

fun be_bytes :: "nat \<Rightarrow> u64 \<Rightarrow> u8 list" where
  "be_bytes 0 v = []"
| "be_bytes (Suc k) v = be_bytes k (drop_bit 8 v) @ [ucast v]"

definition be_value :: "u8 list \<Rightarrow> u64" where
  "be_value bs = foldl (\<lambda>v b. push_bit 8 v OR ucast b) 0 bs"

definition put_at :: "nat \<Rightarrow> u8 list \<Rightarrow> u8 list \<Rightarrow> u8 list" where
  "put_at ofs bs buf = take ofs buf @ bs @ drop (ofs + length bs) buf"

definition get_at :: "nat \<Rightarrow> nat \<Rightarrow> u8 list \<Rightarrow> u64" where
  "get_at ofs len buf = be_value (take len (drop ofs buf))"

section \<open>Decoding and encoding\<close>

datatype ofperr = OFPBAC_BAD_LEN | OFPBAC_BAD_VENDOR | OFPBAC_BAD_VENDOR_TYPE | OFPBAC_BAD_TYPE

definition OFPAT_VENDOR :: u16 where "OFPAT_VENDOR = 0xffff"
definition NX_VENDOR_ID :: u32 where "NX_VENDOR_ID = 0x00002320"
definition ONF_VENDOR_ID :: u32 where "ONF_VENDOR_ID = 0x4f4e4600"

text \<open>Looking up the table by the headers, through the hash table that \<open>ofpact_decode_hmap\<close> fills
  with all instances.\<close>

definition ofpact_decode_lookup :: "ofpact_hdrs \<Rightarrow> ofpact_raw_instance option" where
  "ofpact_decode_lookup hdrs = find (\<lambda>inst. hdrs = ri_hdrs inst) all_raw_instances"

definition ofpact_decode_hdrs :: "nat \<Rightarrow> u8 list \<Rightarrow> ofperr + ofpact_hdrs" where
  "ofpact_decode_hdrs ofp_version oah =
     (if length oah < 8 then Inl OFPBAC_BAD_LEN
      else let type = ucast (get_at 0 2 oah) in
      if type = OFPAT_VENDOR
      then let vendor = ucast (get_at 4 4 oah) in
           if vendor = NX_VENDOR_ID \<or> vendor = ONF_VENDOR_ID
           then if length oah < 16 then Inl OFPBAC_BAD_LEN
                else Inr \<lparr>oh_vendor = vendor, oh_type = ucast (get_at 8 2 oah),
                          oh_ofp_version = ofp_version\<rparr>
           else Inl OFPBAC_BAD_VENDOR
      else Inr \<lparr>oh_vendor = 0, oh_type = type, oh_ofp_version = ofp_version\<rparr>)"

definition ofpact_decode_raw :: "nat \<Rightarrow> u8 list \<Rightarrow> ofperr + ofpact_raw_instance" where
  "ofpact_decode_raw ofp_version oah =
     (case ofpact_decode_hdrs ofp_version oah of
        Inl e \<Rightarrow> Inl e
      | Inr hdrs \<Rightarrow>
          (case ofpact_decode_lookup hdrs of
             Some inst \<Rightarrow> Inr inst
           | None \<Rightarrow> Inl (if oh_vendor hdrs \<noteq> 0 then OFPBAC_BAD_VENDOR_TYPE else OFPBAC_BAD_TYPE)))"

text \<open>The raw type, the argument, the bytes of the action and the rest of the buffer;
  \<^verbatim>\<open>ofpbuf_at_assert()\<close> stops the switch when the argument lies outside the buffer.\<close>

definition ofpact_pull_raw :: "u8 list \<Rightarrow> nat
    \<Rightarrow> (ofperr + ofp_raw_action_type \<times> u64 \<times> u8 list \<times> u8 list) result" where
  "ofpact_pull_raw buf ofp_version =
     (case ofpact_decode_raw ofp_version buf of
        Inl e \<Rightarrow> Inr (Inl e)
      | Inr action \<Rightarrow>
          let len = unat (get_at 2 2 buf) in
          if len > length buf then Inr (Inl OFPBAC_BAD_LEN)
          else if len < ri_min_length action \<or> len > ri_max_length action then Inr (Inl OFPBAC_BAD_LEN)
          else if len mod 8 \<noteq> 0 then Inr (Inl OFPBAC_BAD_LEN)
          else if ri_arg_len action \<noteq> 0 \<and> ri_arg_ofs action + ri_arg_len action > length buf
          then Inl Assert_Fail
          else Inr (Inr (ri_raw action,
                 if ri_arg_len action \<noteq> 0 then get_at (ri_arg_ofs action) (ri_arg_len action) buf else 0,
                 take len buf, drop len buf)))"

text \<open>\<open>OVS_NOT_REACHED\<close> of an unknown raw type is the fault \<open>Assert_Fail\<close>.\<close>

definition ofpact_raw_lookup :: "nat \<Rightarrow> ofp_raw_action_type \<Rightarrow> ofpact_raw_instance result" where
  "ofpact_raw_lookup ofp_version raw =
     of_option Assert_Fail
       (find (\<lambda>inst. ri_raw inst = raw \<and> oh_ofp_version (ri_hdrs inst) = ofp_version) all_raw_instances)"

definition ofpact_put_inst :: "ofpact_raw_instance \<Rightarrow> u64 \<Rightarrow> u8 list result" where
  "ofpact_put_inst inst arg =
     (let hdrs = ri_hdrs inst;
          oah = replicate (ri_min_length inst) 0;
          oah = put_at 0 (be_bytes 2 (if oh_vendor hdrs \<noteq> 0 then ucast OFPAT_VENDOR
                                      else ucast (oh_type hdrs))) oah;
          oah = put_at 2 (be_bytes 2 (of_nat (ri_min_length inst))) oah;
          oah = put_at 4 (be_bytes 4 (ucast (oh_vendor hdrs))) oah
      in rbind (if oh_vendor hdrs = 0 then Inr oah
                else if oh_vendor hdrs = NX_VENDOR_ID \<or> oh_vendor hdrs = ONF_VENDOR_ID
                then Inr (put_at 8 (be_bytes 2 (ucast (oh_type hdrs))) oah)
                else Inl Assert_Fail) (\<lambda>oah.
         if ri_arg_len inst \<noteq> 0
         then Inr (put_at (ri_arg_ofs inst) (be_bytes (ri_arg_len inst) arg) oah)
         else if arg = 0 then Inr oah else Inl Assert_Fail))"

definition ofpact_put_raw :: "nat \<Rightarrow> ofp_raw_action_type \<Rightarrow> u64 \<Rightarrow> u8 list result" where
  "ofpact_put_raw ofp_version raw arg =
     rbind (ofpact_raw_lookup ofp_version raw) (\<lambda>inst. ofpact_put_inst inst arg)"

section \<open>The table is unambiguous\<close>

text \<open>Two destinations with the same vendor and type must not share a version. This is the check
  that makes \<^verbatim>\<open>extract-ofp-actions\<close> refuse its input.\<close>

definition dst_list :: "action_spec list \<Rightarrow> action_dst list" where
  "dst_list specs = concat (map (\<lambda>(enum, dsts, argtype). dsts) specs)"

definition dst_disjoint :: "action_dst \<Rightarrow> action_dst \<Rightarrow> bool" where
  "dst_disjoint d e =
     (case (d, e) of ((n, v1, v2, t), (n', v1', v2', t')) \<Rightarrow>
        n \<noteq> n' \<or> t \<noteq> t' \<or> last_version v1 v2 < v1' \<or> last_version v1' v2' < v1)"

lemma dst_disjoint_if:
  "dst_disjoint (n, v1, v2, t) (n', v1', v2', t') =
     (if t = t' then if n = n' then last_version v1 v2 < v1' \<or> last_version v1' v2' < v1 else True
      else True)"
  by (auto simp: dst_disjoint_def)

lemmas action_lists = raw_action_specs_def standard_actions_def gtp_actions_10_def
  gtp_actions_11_def gtp_actions_12_def copy_actions_def nicira_actions_def

lemmas list_eval = append.simps list.map prod.case concat.simps sorted_wrt.simps list.set ball_simps
  insert_iff empty_iff simp_thms if_True if_False

lemmas numeral_eval = num.simps numeral_eq_iff one_eq_numeral_iff numeral_eq_one_iff zero_neq_numeral
  numeral_neq_zero zero_neq_one one_neq_zero numeral_less_iff one_less_numeral_iff less_num_simps
  semiring_norm not_numeral_less_one

lemma raw_action_specs_disjoint: "sorted_wrt dst_disjoint (dst_list raw_action_specs)"
  unfolding dst_list_def action_lists list_eval
  by (simp only: list_eval numeral_eval dst_disjoint_if vendor_name.simps last_version.simps)

definition dst_hdrs :: "action_dst \<Rightarrow> ofpact_hdrs list" where
  "dst_hdrs d = (case d of (vendor, v1, v2, t) \<Rightarrow>
     map (\<lambda>v. \<lparr>oh_vendor = fst (vendor_map vendor), oh_type = of_nat t, oh_ofp_version = v\<rparr>)
       [v1..<last_version v1 v2 + 1])"

lemma vendor_map_inject: "fst (vendor_map n) = fst (vendor_map n') \<longleftrightarrow> n = n'"
  by (cases n; cases n') simp_all

lemma extract_hdrs: "map ri_hdrs (extract_ofp_actions specs) = concat (map dst_hdrs (dst_list specs))"
proof -
  have "map ri_hdrs (extract_dst e a d) = dst_hdrs d" for e a d
    by (auto simp: extract_dst_def dst_hdrs_def extract_instance_def Let_def split: prod.splits)
  then show ?thesis
    by (induction specs) (auto simp: extract_ofp_actions_def dst_list_def map_concat comp_def split: prod.splits)
qed

lemma distinct_dst_hdrs:
  assumes "sorted_wrt dst_disjoint ds" and "\<forall>(n, v1, v2, t) \<in> set ds. t < 65536"
  shows "distinct (concat (map dst_hdrs ds))"
  using assms
proof (induction ds)
  case (Cons d ds)
  have D: "set (dst_hdrs d) \<inter> set (dst_hdrs e) = {}" if e: "e \<in> set ds" for e
  proof -
    obtain n v1 v2 t n' v1' v2' t' where d: "d = (n, v1, v2, t)" "e = (n', v1', v2', t')"
      by (metis prod_cases4)
    have "t < 65536" "t' < 65536" using Cons.prems(2) e d by auto
    then have "(of_nat t :: u16) = of_nat t' \<longleftrightarrow> t = t'"
      by (simp add: word_unat_eq_iff unat_of_nat take_bit_nat_eq_self)
    moreover have "dst_disjoint d e" using Cons.prems(1) e by simp
    ultimately show ?thesis
      by (auto simp: d dst_hdrs_def dst_disjoint_def vendor_map_inject)
  qed
  have "distinct (dst_hdrs d)"
    by (auto simp: dst_hdrs_def distinct_map inj_on_def split: prod.splits)
  with D Cons show ?case by (simp add: Int_UN_distrib)
qed simp

text \<open>Sizes that fit: every struct is a multiple of eight bytes and holds its header.\<close>

definition spec_ok :: "action_spec \<Rightarrow> bool" where
  "spec_ok s = (case s of (enum, dsts, argtype) \<Rightarrow> list_all (\<lambda>(n, v1, v2, t). t < 65535 \<and>
     (case argtype of Struct k \<Rightarrow> k mod 8 = 0 \<and> (if n = OF then 8 else 16) \<le> k \<and> k < 65528
      | Struct_Ellipsis k \<Rightarrow> k mod 8 = 0 \<and> (if n = OF then 8 else 16) \<le> k \<and> k < 65528
      | _ \<Rightarrow> True)) dsts)"

lemma raw_action_specs_ok: "list_all spec_ok raw_action_specs"
  unfolding action_lists list_eval by (simp add: spec_ok_def)

definition inst_ok :: "ofpact_raw_instance \<Rightarrow> bool" where
  "inst_ok i \<longleftrightarrow>
     oh_vendor (ri_hdrs i) \<in> {0, NX_VENDOR_ID, ONF_VENDOR_ID} \<and>
     (oh_vendor (ri_hdrs i) = 0 \<longrightarrow> oh_type (ri_hdrs i) \<noteq> OFPAT_VENDOR \<and> 8 \<le> ri_min_length i \<and>
        (ri_arg_len i \<noteq> 0 \<longrightarrow> 4 \<le> ri_arg_ofs i)) \<and>
     (oh_vendor (ri_hdrs i) \<noteq> 0 \<longrightarrow> 16 \<le> ri_min_length i \<and> (ri_arg_len i \<noteq> 0 \<longrightarrow> 10 \<le> ri_arg_ofs i)) \<and>
     ri_min_length i \<le> ri_max_length i \<and> ri_min_length i mod 8 = 0 \<and> ri_min_length i < 65536 \<and>
     ri_arg_ofs i + ri_arg_len i \<le> ri_min_length i \<and> ri_arg_len i \<le> 8"

lemma extract_instance_ok:
  assumes "spec_ok (enum, dsts, a)" and "(n, v1, v2, t) \<in> set dsts"
  shows "inst_ok (extract_instance enum n t a v)"
proof -
  have s: "t < 65535" "case a of Struct k \<Rightarrow> k mod 8 = 0 \<and> (if n = OF then 8 else 16) \<le> k \<and> k < 65528
      | Struct_Ellipsis k \<Rightarrow> k mod 8 = 0 \<and> (if n = OF then 8 else 16) \<le> k \<and> k < 65528 | _ \<Rightarrow> True"
    using bspec[OF assms(1)[unfolded spec_ok_def prod.case list_all_iff] assms(2)] by simp_all
  have t: "(of_nat t :: u16) \<noteq> OFPAT_VENDOR"
    using s(1) by (simp add: word_unat_eq_iff unat_of_nat take_bit_nat_eq_self OFPAT_VENDOR_def)
  note defs = inst_ok_def extract_instance_def NX_VENDOR_ID_def ONF_VENDOR_ID_def OFP_ACTION_ALIGN_def round_up_def
  show ?thesis
  proof (cases a)
    case (Basic b)
    then show ?thesis using t by (cases n; cases b) (simp_all add: defs)
  next
    case Void
    then show ?thesis using t by (cases n) (simp_all add: defs)
  next
    case (Struct k)
    then show ?thesis using s t by (cases n) (simp_all add: defs)
  next
    case (Struct_Ellipsis k)
    then show ?thesis using s t by (cases n) (simp_all add: defs)
  qed
qed

lemma all_raw_instances_ok: "inst \<in> set all_raw_instances \<Longrightarrow> inst_ok inst"
  using raw_action_specs_ok
  by (auto simp: all_raw_instances_def extract_ofp_actions_def extract_dst_def list_all_iff
      intro!: extract_instance_ok)

lemma ofpact_decode_lookup_inst:
  assumes "inst \<in> set all_raw_instances"
  shows "ofpact_decode_lookup (ri_hdrs inst) = Some inst"
proof -
  have "\<forall>(n, v1, v2, t) \<in> set (dst_list raw_action_specs). t < 65536"
    using raw_action_specs_ok by (fastforce simp: dst_list_def list_all_iff spec_ok_def)
  then have "distinct (map ri_hdrs all_raw_instances)"
    using distinct_dst_hdrs[OF raw_action_specs_disjoint] by (simp add: all_raw_instances_def extract_hdrs)
  then have uniq: "ri_hdrs i = ri_hdrs inst \<Longrightarrow> i = inst" if "i \<in> set all_raw_instances" for i
    using that assms by (auto simp: distinct_map inj_on_def)
  show ?thesis
    unfolding ofpact_decode_lookup_def
  proof (cases "find (\<lambda>i. ri_hdrs inst = ri_hdrs i) all_raw_instances")
    case None
    with assms show "find (\<lambda>i. ri_hdrs inst = ri_hdrs i) all_raw_instances = Some inst"
      by (auto simp: find_None_iff)
  next
    case (Some i)
    then have "i \<in> set all_raw_instances" "ri_hdrs i = ri_hdrs inst"
      by (auto simp: find_Some_iff)
    with uniq Some show "find (\<lambda>i. ri_hdrs inst = ri_hdrs i) all_raw_instances = Some inst" by simp
  qed
qed

section \<open>Fields of a buffer\<close>

lemma length_be_bytes [simp]: "length (be_bytes k v) = k"
  by (induction k v rule: be_bytes.induct) simp_all

lemma be_value_be_bytes: "be_value (be_bytes k v) = take_bit (8 * k) v"
proof (induction k v rule: be_bytes.induct)
  case (2 k v)
  have "push_bit 8 (take_bit (8 * k) (drop_bit 8 v)) OR ucast (ucast v :: u8) = take_bit (8 * Suc k) v"
    by (rule bit_word_eqI) (auto simp: bit_simps)
  with 2 show ?case by (simp add: be_value_def)
qed (simp add: be_value_def)

lemma length_put_at [simp]: "ofs + length bs \<le> length buf \<Longrightarrow> length (put_at ofs bs buf) = length buf"
  by (simp add: put_at_def)

lemma get_at_put_at: "ofs + length bs \<le> length buf \<Longrightarrow> get_at ofs (length bs) (put_at ofs bs buf) = be_value bs"
  by (simp add: get_at_def put_at_def)

lemma get_at_put_before:
  "o1 + l1 \<le> ofs \<Longrightarrow> ofs + length bs \<le> length buf \<Longrightarrow> get_at o1 l1 (put_at ofs bs buf) = get_at o1 l1 buf"
  by (simp add: get_at_def put_at_def drop_take)

lemma get_at_append: "ofs + l \<le> length buf \<Longrightarrow> get_at ofs l (buf @ rest) = get_at ofs l buf"
  by (simp add: get_at_def)

section \<open>Round trip\<close>

lemma get_at_put_be:
  "ofs + k \<le> length buf \<Longrightarrow> get_at ofs k (put_at ofs (be_bytes k v) buf) = take_bit (8 * k) v"
  using get_at_put_at[of ofs "be_bytes k v" buf] by (simp add: be_value_be_bytes)

lemma field_widths [simp]:
  "take_bit 16 (ucast (t :: u16) :: u64) = ucast t" "take_bit 32 (ucast (v :: u32) :: u64) = ucast v"
  by (rule bit_word_eqI; auto simp: bit_simps dest: bit_imp_le_length)+

lemma ofpact_put_inst_bytes:
  assumes ok: "inst_ok inst" and put: "ofpact_put_inst inst arg = Inr bs"
  shows "length bs = ri_min_length inst"
    and "get_at 0 2 bs = (if oh_vendor (ri_hdrs inst) \<noteq> 0 then ucast OFPAT_VENDOR else ucast (oh_type (ri_hdrs inst)))"
    and "get_at 2 2 bs = of_nat (ri_min_length inst)"
    and "oh_vendor (ri_hdrs inst) \<noteq> 0 \<Longrightarrow> get_at 4 4 bs = ucast (oh_vendor (ri_hdrs inst))"
    and "oh_vendor (ri_hdrs inst) \<noteq> 0 \<Longrightarrow> get_at 8 2 bs = ucast (oh_type (ri_hdrs inst))"
    and "ri_arg_len inst \<noteq> 0 \<Longrightarrow> get_at (ri_arg_ofs inst) (ri_arg_len inst) bs = take_bit (8 * ri_arg_len inst) arg"
    and "ri_arg_len inst = 0 \<Longrightarrow> arg = 0"
proof -
  let ?V = "oh_vendor (ri_hdrs inst)" and ?m = "ri_min_length inst" and ?k = "ri_arg_len inst"
  define oah where "oah = put_at 4 (be_bytes 4 (ucast ?V)) (put_at 2 (be_bytes 2 (of_nat ?m))
    (put_at 0 (be_bytes 2 (if ?V \<noteq> 0 then ucast OFPAT_VENDOR else ucast (oh_type (ri_hdrs inst))))
      (replicate ?m 0)))"
  define oah' where "oah' = (if ?V = 0 then oah else put_at 8 (be_bytes 2 (ucast (oh_type (ri_hdrs inst)))) oah)"
  have m: "8 \<le> ?m" "?V \<noteq> 0 \<Longrightarrow> 16 \<le> ?m" using ok by (auto simp: inst_ok_def)
  have bs: "bs = (if ?k \<noteq> 0 then put_at (ri_arg_ofs inst) (be_bytes ?k arg) oah' else oah')" "?k = 0 \<Longrightarrow> arg = 0"
    using put ok by (auto simp: ofpact_put_inst_def Let_def oah_def oah'_def inst_ok_def split: if_splits)
  have arg: "?k \<noteq> 0 \<Longrightarrow> 4 \<le> ri_arg_ofs inst" "?V \<noteq> 0 \<Longrightarrow> ?k \<noteq> 0 \<Longrightarrow> 10 \<le> ri_arg_ofs inst"
    "ri_arg_ofs inst + ?k \<le> ?m"
    using ok by (auto simp: inst_ok_def)
  have len: "length oah = ?m" "length oah' = ?m" using m by (cases "?V = 0"; simp add: oah_def oah'_def)+
  have "take_bit 16 (of_nat ?m :: u64) = of_nat ?m"
    using ok by (simp add: inst_ok_def word_unat_eq_iff unsigned_take_bit_eq unat_of_nat take_bit_nat_eq_self)
  then have 1: "get_at 0 2 oah = (if ?V \<noteq> 0 then ucast OFPAT_VENDOR else ucast (oh_type (ri_hdrs inst)))"
    "get_at 2 2 oah = of_nat ?m" "get_at 4 4 oah = ucast ?V"
    using m by (simp_all add: oah_def get_at_put_be get_at_put_before)
  have 2: "get_at 0 2 oah' = get_at 0 2 oah" "get_at 2 2 oah' = of_nat ?m" "get_at 4 4 oah' = ucast ?V"
    "?V \<noteq> 0 \<Longrightarrow> get_at 8 2 oah' = ucast (oh_type (ri_hdrs inst))"
    using 1 m len by (cases "?V = 0"; simp add: oah'_def get_at_put_be get_at_put_before)+
  show "length bs = ri_min_length inst" using bs len arg by simp
  show "get_at 0 2 bs = (if ?V \<noteq> 0 then ucast OFPAT_VENDOR else ucast (oh_type (ri_hdrs inst)))"
    "get_at 2 2 bs = of_nat ?m"
    using bs(1) arg 1 2 len by (cases "?k = 0"; simp add: get_at_put_before)+
  show "get_at 4 4 bs = ucast ?V" "get_at 8 2 bs = ucast (oh_type (ri_hdrs inst))" if "?V \<noteq> 0"
    using that bs(1) arg 2 len by (cases "?k = 0"; simp add: get_at_put_before)+
  show "get_at (ri_arg_ofs inst) ?k bs = take_bit (8 * ?k) arg" if "?k \<noteq> 0"
    using that bs(1) arg(3) len by (simp add: get_at_put_be)
  show "?k = 0 \<Longrightarrow> arg = 0" by (rule bs(2))
qed

lemma ofpact_raw_lookup_inst:
  assumes "ofpact_raw_lookup v raw = Inr inst"
  shows "inst \<in> set all_raw_instances" and "ri_raw inst = raw" and "oh_ofp_version (ri_hdrs inst) = v"
  using assms by (auto simp: ofpact_raw_lookup_def find_Some_iff)

lemma ofpact_decode_put:
  assumes inst: "inst \<in> set all_raw_instances" and put: "ofpact_put_inst inst arg = Inr bs"
  shows "ofpact_decode_raw (oh_ofp_version (ri_hdrs inst)) (bs @ rest) = Inr inst"
proof -
  have ok: "inst_ok inst" by (rule all_raw_instances_ok[OF inst])
  note B = ofpact_put_inst_bytes[OF ok put]
  have m: "8 \<le> length bs" "oh_vendor (ri_hdrs inst) \<noteq> 0 \<Longrightarrow> 16 \<le> length bs"
    "oh_vendor (ri_hdrs inst) = 0 \<Longrightarrow> oh_type (ri_hdrs inst) \<noteq> OFPAT_VENDOR"
    "oh_vendor (ri_hdrs inst) \<in> {0, NX_VENDOR_ID, ONF_VENDOR_ID}"
    using ok B(1) by (auto simp: inst_ok_def)
  have u: "ucast (ucast t :: u64) = t" "ucast (ucast w :: u64) = w" for t :: u16 and w :: u32
    by (rule bit_word_eqI; simp add: bit_simps)+
  have "ofpact_decode_hdrs (oh_ofp_version (ri_hdrs inst)) (bs @ rest) = Inr (ri_hdrs inst)"
  proof (cases "oh_vendor (ri_hdrs inst) = 0")
    case True
    then show ?thesis
      using m B(2) by (simp add: ofpact_decode_hdrs_def get_at_append u)
  next
    case False
    then show ?thesis
      using m B(2,4,5) by (auto simp: ofpact_decode_hdrs_def get_at_append u)
  qed
  then show ?thesis by (simp add: ofpact_decode_raw_def ofpact_decode_lookup_inst[OF inst])
qed

lemma ofpact_pull_put:
  assumes look: "ofpact_raw_lookup v raw = Inr inst" and put: "ofpact_put_raw v raw arg = Inr bs"
  shows "ofpact_pull_raw (bs @ rest) v = Inr (Inr (raw, take_bit (8 * ri_arg_len inst) arg, bs, rest))"
proof -
  note I = ofpact_raw_lookup_inst[OF look]
  have p: "ofpact_put_inst inst arg = Inr bs" using put look by (simp add: ofpact_put_raw_def)
  have ok: "inst_ok inst" by (rule all_raw_instances_ok[OF I(1)])
  note B = ofpact_put_inst_bytes[OF ok p]
  have "unat (of_nat (ri_min_length inst) :: u64) = ri_min_length inst"
    using ok by (simp add: inst_ok_def unat_of_nat take_bit_nat_eq_self)
  moreover have "8 \<le> length bs" using B(1) ok by (auto simp: inst_ok_def)
  ultimately have len: "unat (get_at 2 2 (bs @ rest)) = length bs"
    using B(1,3) by (simp add: get_at_append)
  show ?thesis
    using ofpact_decode_put[OF I(1) p, of rest] I(2,3) B(1,6,7) ok
    by (simp add: ofpact_pull_raw_def len Let_def get_at_append inst_ok_def)
qed

text \<open>Taking an action off a buffer never crashes, and takes at least eight bytes.\<close>

lemma ofpact_pull_raw_safe:
  "\<exists>r. ofpact_pull_raw buf v = Inr r \<and>
     (\<forall>raw arg act rest. r = Inr (raw, arg, act, rest) \<longrightarrow> buf = act @ rest \<and> 8 \<le> length act)"
proof (cases "ofpact_decode_raw v buf")
  case (Inr inst)
  then have "inst \<in> set all_raw_instances"
    by (auto simp: ofpact_decode_raw_def ofpact_decode_lookup_def find_Some_iff split: sum.splits option.splits)
  from all_raw_instances_ok[OF this] have "8 \<le> ri_min_length inst"
    "ri_arg_ofs inst + ri_arg_len inst \<le> ri_min_length inst"
    by (auto simp: inst_ok_def)
  with Inr show ?thesis by (auto simp: ofpact_pull_raw_def Let_def)
qed (simp add: ofpact_pull_raw_def)

end
