(* ===== verification/Gtp_Actions.thy ===== *)
theory Gtp_Actions
  imports Ofp_Parse Ofp_Raw Xlate
begin

text \<open>
  The GTP actions of \<^verbatim>\<open>lib/ofp-actions.c\<close>: the thirteen action types with their decoders, encoders,
  parsers and formatters, the functions that dispatch on the type, and the loops that decode, encode,
  parse and format a list of actions. The three decoders of an action (one for each of OpenFlow 1.0,
  1.1 and 1.2) are the same code, and so are one definition.
\<close>

unbundle bit_operations_syntax

section \<open>The actions\<close>

datatype gtp_ofpact =
    OFPACT_HANDLE_GTP ofp_raw_action_type
  | OFPACT_HANDLE_PGW_SGI ofp_raw_action_type
  | OFPACT_OPERATE_GTP u8
  | OFPACT_GTP_TEID u32
  | OFPACT_GTP_PGW_IP ovs_be32
  | OFPACT_OVS_ID u16
  | OFPACT_OVS_TOTAL u16
  | OFPACT_GTP_PGW_PORT u16
  | OFPACT_OVS_PHY_PORT u16
  | OFPACT_PGW_SGI_PORT u16
  | OFPACT_PGW_FASTPATH u8
  | OFPACT_GTP_PGW_ETH eth_addr
  | OFPACT_PGW_SGI_ETH eth_addr

text \<open>The generated \<open>put_OFPAT...\<close> functions append an action in its encoding for the first version
  that its raw type is defined for.\<close>

definition put_OFPAT :: "ofp_raw_action_type \<Rightarrow> u64 \<Rightarrow> u8 list result" where
  "put_OFPAT raw arg =
     rbind (of_option Assert_Fail (find (\<lambda>inst. ri_raw inst = raw) all_raw_instances)) (\<lambda>inst.
     ofpact_put_raw (oh_ofp_version (ri_hdrs inst)) raw arg)"

definition OFP10_VERSION :: nat where "OFP10_VERSION = 1"
definition OFP11_VERSION :: nat where "OFP11_VERSION = 2"

text \<open>\<^verbatim>\<open>struct ofp_action_dl_addr\<close>: the address is at offset 4.\<close>

definition dl_addr :: "u8 list \<Rightarrow> eth_addr" where
  "dl_addr a = ucast (get_at 4 6 a)"

definition set_dl_addr :: "eth_addr \<Rightarrow> u8 list \<Rightarrow> u8 list" where
  "set_dl_addr mac a = put_at 4 (be_bytes 6 (ucast mac)) a"

section \<open>HANDLE_GTP\<close>

definition decode_HANDLE_GTP :: "ofp_raw_action_type \<Rightarrow> gtp_ofpact" where
  "decode_HANDLE_GTP raw = OFPACT_HANDLE_GTP raw"

definition encode_HANDLE_GTP :: "nat \<Rightarrow> u8 list result" where
  "encode_HANDLE_GTP ofp_version =
     (if ofp_version = OFP10_VERSION then put_OFPAT OFPAT_RAW10_HANDLE_GTP 0
      else if ofp_version = OFP11_VERSION then put_OFPAT OFPAT_RAW11_HANDLE_GTP 0
      else put_OFPAT OFPAT_RAW12_HANDLE_GTP 0)"

definition parse_HANDLE_GTP :: "string \<Rightarrow> (string + gtp_ofpact) result" where
  "parse_HANDLE_GTP arg = Inr (Inr (OFPACT_HANDLE_GTP OFPAT_RAW10_HANDLE_GTP))"

definition format_HANDLE_GTP :: string where
  "format_HANDLE_GTP = ''handle_gtp''"

section \<open>HANDLE_PGW_SGI\<close>

definition decode_HANDLE_PGW_SGI :: "ofp_raw_action_type \<Rightarrow> gtp_ofpact" where
  "decode_HANDLE_PGW_SGI raw = OFPACT_HANDLE_PGW_SGI raw"

definition encode_HANDLE_PGW_SGI :: "nat \<Rightarrow> u8 list result" where
  "encode_HANDLE_PGW_SGI ofp_version =
     (if ofp_version = OFP10_VERSION then put_OFPAT OFPAT_RAW10_HANDLE_PGW_SGI 0
      else if ofp_version = OFP11_VERSION then put_OFPAT OFPAT_RAW11_HANDLE_PGW_SGI 0
      else put_OFPAT OFPAT_RAW12_HANDLE_PGW_SGI 0)"

definition parse_HANDLE_PGW_SGI :: "string \<Rightarrow> (string + gtp_ofpact) result" where
  "parse_HANDLE_PGW_SGI arg = Inr (Inr (OFPACT_HANDLE_PGW_SGI OFPAT_RAW10_HANDLE_PGW_SGI))"

definition format_HANDLE_PGW_SGI :: string where
  "format_HANDLE_PGW_SGI = ''handle_pgw_sgi''"

section \<open>OPERATE_GTP\<close>

definition decode_OPERATE_GTP :: "u8 \<Rightarrow> gtp_ofpact" where
  "decode_OPERATE_GTP operation = OFPACT_OPERATE_GTP operation"

definition encode_OPERATE_GTP :: "u8 \<Rightarrow> nat \<Rightarrow> u8 list result" where
  "encode_OPERATE_GTP operation ofp_version =
     (if ofp_version = OFP10_VERSION then put_OFPAT OFPAT_RAW10_OPERATE_GTP (ucast operation)
      else if ofp_version = OFP11_VERSION then put_OFPAT OFPAT_RAW11_OPERATE_GTP (ucast operation)
      else put_OFPAT OFPAT_RAW12_OPERATE_GTP (ucast operation))"

definition parse_OPERATE_GTP :: "string \<Rightarrow> (string + gtp_ofpact) result" where
  "parse_OPERATE_GTP arg = Inr (map_sum id OFPACT_OPERATE_GTP (str_to_u8 arg ''operate_gtp''))"

definition format_OPERATE_GTP :: "u8 \<Rightarrow> string" where
  "format_OPERATE_GTP operation = ''operate_gtp:'' @ fmt_d (unat operation)"

section \<open>PGW_FASTPATH\<close>

definition decode_PGW_FASTPATH :: "u8 \<Rightarrow> gtp_ofpact" where
  "decode_PGW_FASTPATH pgw_fastpath = OFPACT_PGW_FASTPATH pgw_fastpath"

definition encode_PGW_FASTPATH :: "u8 \<Rightarrow> nat \<Rightarrow> u8 list result" where
  "encode_PGW_FASTPATH pgw_fastpath ofp_version =
     (if ofp_version = OFP10_VERSION then put_OFPAT OFPAT_RAW10_PGW_FASTPATH (ucast pgw_fastpath)
      else if ofp_version = OFP11_VERSION then put_OFPAT OFPAT_RAW11_PGW_FASTPATH (ucast pgw_fastpath)
      else put_OFPAT OFPAT_RAW12_PGW_FASTPATH (ucast pgw_fastpath))"

definition parse_PGW_FASTPATH :: "string \<Rightarrow> (string + gtp_ofpact) result" where
  "parse_PGW_FASTPATH arg = Inr (map_sum id OFPACT_PGW_FASTPATH (str_to_u8 arg ''pgw_fastpath''))"

definition format_PGW_FASTPATH :: "u8 \<Rightarrow> string" where
  "format_PGW_FASTPATH pgw_fastpath = ''pgw_fastpath:'' @ fmt_d (unat pgw_fastpath)"

section \<open>OVS_ID\<close>

definition decode_OVS_ID :: "u16 \<Rightarrow> gtp_ofpact" where
  "decode_OVS_ID ovs_id = OFPACT_OVS_ID ovs_id"

definition encode_OVS_ID :: "u16 \<Rightarrow> nat \<Rightarrow> u8 list result" where
  "encode_OVS_ID ovs_id ofp_version =
     (if ofp_version = OFP10_VERSION then put_OFPAT OFPAT_RAW10_OVS_ID (ucast ovs_id)
      else if ofp_version = OFP11_VERSION then put_OFPAT OFPAT_RAW11_OVS_ID (ucast ovs_id)
      else put_OFPAT OFPAT_RAW12_OVS_ID (ucast ovs_id))"

definition parse_OVS_ID :: "string \<Rightarrow> (string + gtp_ofpact) result" where
  "parse_OVS_ID arg = Inr (map_sum id OFPACT_OVS_ID (str_to_u16 arg ''ovs_id''))"

definition format_OVS_ID :: "u16 \<Rightarrow> string" where
  "format_OVS_ID ovs_id = ''ovs_id:'' @ fmt_d (unat ovs_id)"

section \<open>OVS_TOTAL\<close>

definition decode_OVS_TOTAL :: "u16 \<Rightarrow> gtp_ofpact" where
  "decode_OVS_TOTAL ovs_total = OFPACT_OVS_TOTAL ovs_total"

definition encode_OVS_TOTAL :: "u16 \<Rightarrow> nat \<Rightarrow> u8 list result" where
  "encode_OVS_TOTAL ovs_total ofp_version =
     (if ofp_version = OFP10_VERSION then put_OFPAT OFPAT_RAW10_OVS_TOTAL (ucast ovs_total)
      else if ofp_version = OFP11_VERSION then put_OFPAT OFPAT_RAW11_OVS_TOTAL (ucast ovs_total)
      else put_OFPAT OFPAT_RAW12_OVS_TOTAL (ucast ovs_total))"

definition parse_OVS_TOTAL :: "string \<Rightarrow> (string + gtp_ofpact) result" where
  "parse_OVS_TOTAL arg = Inr (map_sum id OFPACT_OVS_TOTAL (str_to_u16 arg ''ovs_total''))"

definition format_OVS_TOTAL :: "u16 \<Rightarrow> string" where
  "format_OVS_TOTAL ovs_total = ''ovs_total:'' @ fmt_d (unat ovs_total)"

section \<open>GTP_PGW_PORT\<close>

definition decode_GTP_PGW_PORT :: "u16 \<Rightarrow> gtp_ofpact" where
  "decode_GTP_PGW_PORT gtp_pgw_port = OFPACT_GTP_PGW_PORT gtp_pgw_port"

definition encode_GTP_PGW_PORT :: "u16 \<Rightarrow> nat \<Rightarrow> u8 list result" where
  "encode_GTP_PGW_PORT gtp_pgw_port ofp_version =
     (if ofp_version = OFP10_VERSION then put_OFPAT OFPAT_RAW10_GTP_PGW_PORT (ucast gtp_pgw_port)
      else if ofp_version = OFP11_VERSION then put_OFPAT OFPAT_RAW11_GTP_PGW_PORT (ucast gtp_pgw_port)
      else put_OFPAT OFPAT_RAW12_GTP_PGW_PORT (ucast gtp_pgw_port))"

definition parse_GTP_PGW_PORT :: "string \<Rightarrow> (string + gtp_ofpact) result" where
  "parse_GTP_PGW_PORT arg = Inr (map_sum id OFPACT_GTP_PGW_PORT (str_to_u16 arg ''gtp_pgw_port''))"

definition format_GTP_PGW_PORT :: "u16 \<Rightarrow> string" where
  "format_GTP_PGW_PORT gtp_pgw_port = ''gtp_pgw_port:'' @ fmt_d (unat gtp_pgw_port)"

section \<open>PGW_SGI_PORT\<close>

definition decode_PGW_SGI_PORT :: "u16 \<Rightarrow> gtp_ofpact" where
  "decode_PGW_SGI_PORT pgw_sgi_port = OFPACT_PGW_SGI_PORT pgw_sgi_port"

definition encode_PGW_SGI_PORT :: "u16 \<Rightarrow> nat \<Rightarrow> u8 list result" where
  "encode_PGW_SGI_PORT pgw_sgi_port ofp_version =
     (if ofp_version = OFP10_VERSION then put_OFPAT OFPAT_RAW10_PGW_SGI_PORT (ucast pgw_sgi_port)
      else if ofp_version = OFP11_VERSION then put_OFPAT OFPAT_RAW11_PGW_SGI_PORT (ucast pgw_sgi_port)
      else put_OFPAT OFPAT_RAW12_PGW_SGI_PORT (ucast pgw_sgi_port))"

definition parse_PGW_SGI_PORT :: "string \<Rightarrow> (string + gtp_ofpact) result" where
  "parse_PGW_SGI_PORT arg = Inr (map_sum id OFPACT_PGW_SGI_PORT (str_to_u16 arg ''pgw_sgi_port''))"

definition format_PGW_SGI_PORT :: "u16 \<Rightarrow> string" where
  "format_PGW_SGI_PORT pgw_sgi_port = ''pgw_sgi_port:'' @ fmt_d (unat pgw_sgi_port)"

section \<open>OVS_PHY_PORT\<close>

definition decode_OVS_PHY_PORT :: "u16 \<Rightarrow> gtp_ofpact" where
  "decode_OVS_PHY_PORT ovs_phy_port = OFPACT_OVS_PHY_PORT ovs_phy_port"

definition encode_OVS_PHY_PORT :: "u16 \<Rightarrow> nat \<Rightarrow> u8 list result" where
  "encode_OVS_PHY_PORT ovs_phy_port ofp_version =
     (if ofp_version = OFP10_VERSION then put_OFPAT OFPAT_RAW10_OVS_PHY_PORT (ucast ovs_phy_port)
      else if ofp_version = OFP11_VERSION then put_OFPAT OFPAT_RAW11_OVS_PHY_PORT (ucast ovs_phy_port)
      else put_OFPAT OFPAT_RAW12_OVS_PHY_PORT (ucast ovs_phy_port))"

definition parse_OVS_PHY_PORT :: "string \<Rightarrow> (string + gtp_ofpact) result" where
  "parse_OVS_PHY_PORT arg = Inr (map_sum id OFPACT_OVS_PHY_PORT (str_to_u16 arg ''ovs_phy_port''))"

definition format_OVS_PHY_PORT :: "u16 \<Rightarrow> string" where
  "format_OVS_PHY_PORT ovs_phy_port = ''ovs_phy_port:'' @ fmt_d (unat ovs_phy_port)"

section \<open>GTP_PGW_ETH\<close>

definition decode_GTP_PGW_ETH :: "u8 list \<Rightarrow> gtp_ofpact" where
  "decode_GTP_PGW_ETH a = OFPACT_GTP_PGW_ETH (dl_addr a)"

definition encode_GTP_PGW_ETH :: "eth_addr \<Rightarrow> nat \<Rightarrow> u8 list result" where
  "encode_GTP_PGW_ETH mac ofp_version =
     (if ofp_version = OFP10_VERSION then rbind (put_OFPAT OFPAT_RAW10_GTP_PGW_ETH 0) (\<lambda>oa. Inr (set_dl_addr mac oa))
      else if ofp_version = OFP11_VERSION then rbind (put_OFPAT OFPAT_RAW11_GTP_PGW_ETH 0) (\<lambda>oa. Inr (set_dl_addr mac oa))
      else rbind (put_OFPAT OFPAT_RAW12_GTP_PGW_ETH 0) (\<lambda>oa. Inr (set_dl_addr mac oa)))"

definition parse_GTP_PGW_ETH :: "string \<Rightarrow> (string + gtp_ofpact) result" where
  "parse_GTP_PGW_ETH arg = rbind (str_to_mac arg) (\<lambda>r. Inr (map_sum id OFPACT_GTP_PGW_ETH r))"

definition format_GTP_PGW_ETH :: "eth_addr \<Rightarrow> string" where
  "format_GTP_PGW_ETH mac = ''gtp_pgw_eth:'' @ fmt_mac mac"

section \<open>PGW_SGI_ETH\<close>

definition decode_PGW_SGI_ETH :: "u8 list \<Rightarrow> gtp_ofpact" where
  "decode_PGW_SGI_ETH a = OFPACT_PGW_SGI_ETH (dl_addr a)"

definition encode_PGW_SGI_ETH :: "eth_addr \<Rightarrow> nat \<Rightarrow> u8 list result" where
  "encode_PGW_SGI_ETH mac ofp_version =
     (if ofp_version = OFP10_VERSION then rbind (put_OFPAT OFPAT_RAW10_PGW_SGI_ETH 0) (\<lambda>oa. Inr (set_dl_addr mac oa))
      else if ofp_version = OFP11_VERSION then rbind (put_OFPAT OFPAT_RAW11_PGW_SGI_ETH 0) (\<lambda>oa. Inr (set_dl_addr mac oa))
      else rbind (put_OFPAT OFPAT_RAW12_PGW_SGI_ETH 0) (\<lambda>oa. Inr (set_dl_addr mac oa)))"

definition parse_PGW_SGI_ETH :: "string \<Rightarrow> (string + gtp_ofpact) result" where
  "parse_PGW_SGI_ETH arg = rbind (str_to_mac arg) (\<lambda>r. Inr (map_sum id OFPACT_PGW_SGI_ETH r))"

definition format_PGW_SGI_ETH :: "eth_addr \<Rightarrow> string" where
  "format_PGW_SGI_ETH mac = ''pgw_sgi_eth:'' @ fmt_mac mac"

section \<open>GTP_PGW_IP\<close>

definition decode_GTP_PGW_IP :: "ovs_be32 \<Rightarrow> gtp_ofpact" where
  "decode_GTP_PGW_IP gtp_pgw_ip = OFPACT_GTP_PGW_IP gtp_pgw_ip"

definition encode_GTP_PGW_IP :: "ovs_be32 \<Rightarrow> nat \<Rightarrow> u8 list result" where
  "encode_GTP_PGW_IP gtp_pgw_ip ofp_version =
     (let addr = gtp_pgw_ip in
      if ofp_version = OFP10_VERSION then put_OFPAT OFPAT_RAW10_GTP_PGW_IP (ucast (ntohl addr))
      else if ofp_version = OFP11_VERSION then put_OFPAT OFPAT_RAW11_GTP_PGW_IP (ucast (ntohl addr))
      else put_OFPAT OFPAT_RAW12_GTP_PGW_IP (ucast (ntohl addr)))"

definition parse_GTP_PGW_IP :: "string \<Rightarrow> (string + gtp_ofpact) result" where
  "parse_GTP_PGW_IP arg = Inr (map_sum id OFPACT_GTP_PGW_IP (str_to_ip arg))"

definition format_GTP_PGW_IP :: "ovs_be32 \<Rightarrow> string" where
  "format_GTP_PGW_IP gtp_pgw_ip = ''gtp_pgw_ip:'' @ fmt_ip gtp_pgw_ip"

section \<open>GTP_TEID\<close>

definition decode_GTP_TEID :: "u32 \<Rightarrow> gtp_ofpact" where
  "decode_GTP_TEID gtp_teid = OFPACT_GTP_TEID gtp_teid"

definition encode_GTP_TEID :: "u32 \<Rightarrow> nat \<Rightarrow> u8 list result" where
  "encode_GTP_TEID gtp_teid ofp_version =
     (if ofp_version = OFP10_VERSION then put_OFPAT OFPAT_RAW10_GTP_TEID (ucast gtp_teid)
      else if ofp_version = OFP11_VERSION then put_OFPAT OFPAT_RAW11_GTP_TEID (ucast gtp_teid)
      else put_OFPAT OFPAT_RAW12_GTP_TEID (ucast gtp_teid))"

definition parse_GTP_TEID :: "string \<Rightarrow> (string + gtp_ofpact) result" where
  "parse_GTP_TEID arg = Inr (map_sum id OFPACT_GTP_TEID (str_to_u32 arg))"

definition format_GTP_TEID :: "u32 \<Rightarrow> string" where
  "format_GTP_TEID gtp_teid = ''gtp_teid:'' @ fmt_alt_x (unat gtp_teid)"

section \<open>Dispatch on the type\<close>

text \<open>The generated \<open>ofpact_decode()\<close> on the raw types of the GTP actions; \<open>None\<close> for any other.\<close>

definition ofpact_decode_gtp :: "u8 list \<Rightarrow> ofp_raw_action_type \<Rightarrow> u64 \<Rightarrow> gtp_ofpact option" where
  "ofpact_decode_gtp a raw arg =
     (if raw \<in> {OFPAT_RAW10_HANDLE_GTP, OFPAT_RAW11_HANDLE_GTP, OFPAT_RAW12_HANDLE_GTP}
      then Some (decode_HANDLE_GTP raw)
      else if raw \<in> {OFPAT_RAW10_HANDLE_PGW_SGI, OFPAT_RAW11_HANDLE_PGW_SGI, OFPAT_RAW12_HANDLE_PGW_SGI}
      then Some (decode_HANDLE_PGW_SGI raw)
      else if raw \<in> {OFPAT_RAW10_OPERATE_GTP, OFPAT_RAW11_OPERATE_GTP, OFPAT_RAW12_OPERATE_GTP}
      then Some (decode_OPERATE_GTP (ucast arg))
      else if raw \<in> {OFPAT_RAW10_GTP_TEID, OFPAT_RAW11_GTP_TEID, OFPAT_RAW12_GTP_TEID}
      then Some (decode_GTP_TEID (ucast arg))
      else if raw \<in> {OFPAT_RAW10_GTP_PGW_IP, OFPAT_RAW11_GTP_PGW_IP, OFPAT_RAW12_GTP_PGW_IP}
      then Some (decode_GTP_PGW_IP (htonl (ucast arg)))
      else if raw \<in> {OFPAT_RAW10_OVS_ID, OFPAT_RAW11_OVS_ID, OFPAT_RAW12_OVS_ID}
      then Some (decode_OVS_ID (ucast arg))
      else if raw \<in> {OFPAT_RAW10_OVS_TOTAL, OFPAT_RAW11_OVS_TOTAL, OFPAT_RAW12_OVS_TOTAL}
      then Some (decode_OVS_TOTAL (ucast arg))
      else if raw \<in> {OFPAT_RAW10_GTP_PGW_PORT, OFPAT_RAW11_GTP_PGW_PORT, OFPAT_RAW12_GTP_PGW_PORT}
      then Some (decode_GTP_PGW_PORT (ucast arg))
      else if raw \<in> {OFPAT_RAW10_OVS_PHY_PORT, OFPAT_RAW11_OVS_PHY_PORT, OFPAT_RAW12_OVS_PHY_PORT}
      then Some (decode_OVS_PHY_PORT (ucast arg))
      else if raw \<in> {OFPAT_RAW10_PGW_SGI_PORT, OFPAT_RAW11_PGW_SGI_PORT, OFPAT_RAW12_PGW_SGI_PORT}
      then Some (decode_PGW_SGI_PORT (ucast arg))
      else if raw \<in> {OFPAT_RAW10_PGW_FASTPATH, OFPAT_RAW11_PGW_FASTPATH, OFPAT_RAW12_PGW_FASTPATH}
      then Some (decode_PGW_FASTPATH (ucast arg))
      else if raw \<in> {OFPAT_RAW10_GTP_PGW_ETH, OFPAT_RAW11_GTP_PGW_ETH, OFPAT_RAW12_GTP_PGW_ETH}
      then Some (decode_GTP_PGW_ETH a)
      else if raw \<in> {OFPAT_RAW10_PGW_SGI_ETH, OFPAT_RAW11_PGW_SGI_ETH, OFPAT_RAW12_PGW_SGI_ETH}
      then Some (decode_PGW_SGI_ETH a)
      else None)"

fun encode_ofpact :: "gtp_ofpact \<Rightarrow> nat \<Rightarrow> u8 list result" where
  "encode_ofpact (OFPACT_HANDLE_GTP raw) ofp_version = encode_HANDLE_GTP ofp_version"
| "encode_ofpact (OFPACT_HANDLE_PGW_SGI raw) ofp_version = encode_HANDLE_PGW_SGI ofp_version"
| "encode_ofpact (OFPACT_OPERATE_GTP x) ofp_version = encode_OPERATE_GTP x ofp_version"
| "encode_ofpact (OFPACT_GTP_TEID x) ofp_version = encode_GTP_TEID x ofp_version"
| "encode_ofpact (OFPACT_GTP_PGW_IP x) ofp_version = encode_GTP_PGW_IP x ofp_version"
| "encode_ofpact (OFPACT_OVS_ID x) ofp_version = encode_OVS_ID x ofp_version"
| "encode_ofpact (OFPACT_OVS_TOTAL x) ofp_version = encode_OVS_TOTAL x ofp_version"
| "encode_ofpact (OFPACT_GTP_PGW_PORT x) ofp_version = encode_GTP_PGW_PORT x ofp_version"
| "encode_ofpact (OFPACT_OVS_PHY_PORT x) ofp_version = encode_OVS_PHY_PORT x ofp_version"
| "encode_ofpact (OFPACT_PGW_SGI_PORT x) ofp_version = encode_PGW_SGI_PORT x ofp_version"
| "encode_ofpact (OFPACT_PGW_FASTPATH x) ofp_version = encode_PGW_FASTPATH x ofp_version"
| "encode_ofpact (OFPACT_GTP_PGW_ETH x) ofp_version = encode_GTP_PGW_ETH x ofp_version"
| "encode_ofpact (OFPACT_PGW_SGI_ETH x) ofp_version = encode_PGW_SGI_ETH x ofp_version"

fun ofpact_format :: "gtp_ofpact \<Rightarrow> string" where
  "ofpact_format (OFPACT_HANDLE_GTP raw) = format_HANDLE_GTP"
| "ofpact_format (OFPACT_HANDLE_PGW_SGI raw) = format_HANDLE_PGW_SGI"
| "ofpact_format (OFPACT_OPERATE_GTP x) = format_OPERATE_GTP x"
| "ofpact_format (OFPACT_GTP_TEID x) = format_GTP_TEID x"
| "ofpact_format (OFPACT_GTP_PGW_IP x) = format_GTP_PGW_IP x"
| "ofpact_format (OFPACT_OVS_ID x) = format_OVS_ID x"
| "ofpact_format (OFPACT_OVS_TOTAL x) = format_OVS_TOTAL x"
| "ofpact_format (OFPACT_GTP_PGW_PORT x) = format_GTP_PGW_PORT x"
| "ofpact_format (OFPACT_OVS_PHY_PORT x) = format_OVS_PHY_PORT x"
| "ofpact_format (OFPACT_PGW_SGI_PORT x) = format_PGW_SGI_PORT x"
| "ofpact_format (OFPACT_PGW_FASTPATH x) = format_PGW_FASTPATH x"
| "ofpact_format (OFPACT_GTP_PGW_ETH x) = format_GTP_PGW_ETH x"
| "ofpact_format (OFPACT_PGW_SGI_ETH x) = format_PGW_SGI_ETH x"

definition tolower :: "char \<Rightarrow> char" where
  "tolower c = (if CHR ''A'' \<le> c \<and> c \<le> CHR ''Z'' then char_of (of_char c + 32 :: nat) else c)"

definition strcaseeq :: "string \<Rightarrow> string \<Rightarrow> bool" where
  "strcaseeq a b = (map tolower a = map tolower b)"

text \<open>\<open>ofpact_type_from_name()\<close> and \<open>ofpact_parse()\<close> for the names of the GTP actions; \<open>None\<close> for any
  other name.\<close>

definition ofpact_parse_gtp :: "string \<Rightarrow> (string \<Rightarrow> (string + gtp_ofpact) result) option" where
  "ofpact_parse_gtp key =
     (if strcaseeq key ''handle_gtp'' then Some parse_HANDLE_GTP
      else if strcaseeq key ''handle_pgw_sgi'' then Some parse_HANDLE_PGW_SGI
      else if strcaseeq key ''operate_gtp'' then Some parse_OPERATE_GTP
      else if strcaseeq key ''gtp_teid'' then Some parse_GTP_TEID
      else if strcaseeq key ''gtp_pgw_ip'' then Some parse_GTP_PGW_IP
      else if strcaseeq key ''ovs_id'' then Some parse_OVS_ID
      else if strcaseeq key ''ovs_total'' then Some parse_OVS_TOTAL
      else if strcaseeq key ''gtp_pgw_port'' then Some parse_GTP_PGW_PORT
      else if strcaseeq key ''ovs_phy_port'' then Some parse_OVS_PHY_PORT
      else if strcaseeq key ''pgw_sgi_port'' then Some parse_PGW_SGI_PORT
      else if strcaseeq key ''pgw_fastpath'' then Some parse_PGW_FASTPATH
      else if strcaseeq key ''gtp_pgw_eth'' then Some parse_GTP_PGW_ETH
      else if strcaseeq key ''pgw_sgi_eth'' then Some parse_PGW_SGI_ETH
      else None)"
section \<open>Lists of actions\<close>

text \<open>\<open>decode_other\<close> stands for the decoders of the other actions.\<close>

function ofpacts_decode :: "(u8 list \<Rightarrow> ofp_raw_action_type \<Rightarrow> nat \<Rightarrow> u64 \<Rightarrow> ofperr + 'o) \<Rightarrow> nat \<Rightarrow> u8 list
    \<Rightarrow> (ofperr + (gtp_ofpact + 'o) list) result" where
  "ofpacts_decode decode_other ofp_version openflow =
     (if openflow = [] then Inr (Inr [])
      else case ofpact_pull_raw openflow ofp_version of
        Inl f \<Rightarrow> Inl f
      | Inr (Inl e) \<Rightarrow> Inr (Inl e)
      | Inr (Inr (raw, arg, action, rest)) \<Rightarrow>
          (case (case ofpact_decode_gtp action raw arg of
                   Some a \<Rightarrow> Inr (Inl a)
                 | None \<Rightarrow> map_sum id Inr (decode_other action raw ofp_version arg)) of
             Inl e \<Rightarrow> Inr (Inl e)
           | Inr a \<Rightarrow> rbind (ofpacts_decode decode_other ofp_version rest) (\<lambda>r. Inr (map_sum id (Cons a) r))))"
  by pat_completeness auto
termination
proof (relation "measure (\<lambda>(d, v, buf). length buf)")
  fix buf :: "u8 list" and v raw arg act rest and d :: "u8 list \<Rightarrow> ofp_raw_action_type \<Rightarrow> nat \<Rightarrow> u64 \<Rightarrow> ofperr + 'o"
    and x y z1 z2 z3 z4 z5
  assume "ofpact_pull_raw buf v = Inr x" "x = Inr y" "(z1, z2) = y" "(z3, z4) = z2" "(z5, rest) = z4"
  with ofpact_pull_raw_safe[of buf v] show "((d, v, rest), d, v, buf) \<in> measure (\<lambda>(d, v, buf). length buf)"
    by auto
qed simp

declare ofpacts_decode.simps [simp del]

fun ofpacts_put_openflow_actions :: "gtp_ofpact list \<Rightarrow> nat \<Rightarrow> u8 list result" where
  "ofpacts_put_openflow_actions [] ofp_version = Inr []"
| "ofpacts_put_openflow_actions (a # ofpacts) ofp_version =
     rbind (encode_ofpact a ofp_version) (\<lambda>bs.
     rbind (ofpacts_put_openflow_actions ofpacts ofp_version) (\<lambda>rest. Inr (bs @ rest)))"

section \<open>The raw types of the table\<close>

lemma raw_action_specs_raws: "map fst raw_action_specs = [0..<97]"
proof -
  have "[0..<97] = 0 # Suc 0 # [2..<97 :: nat]"
    by (simp add: upt_conv_Cons numeral_2_eq_2)
  then show ?thesis unfolding action_lists list_eval fst_conv by (simp add: upt_rec_numeral)
qed

lemma find_append: "find P (xs @ ys) = (case find P xs of None \<Rightarrow> find P ys | Some x \<Rightarrow> Some x)"
  by (induction xs) simp_all

lemma find_upt: "a \<le> v \<Longrightarrow> v < b \<Longrightarrow> find (\<lambda>w. w = v) [a..<b] = Some v"
proof (induction b)
  case (Suc b)
  then show ?case by (cases "v < b") (auto simp: find_append find_None_iff find_Some_iff split: option.split)
qed simp

lemma find_map: "find P (map f xs) = map_option f (find (P \<circ> f) xs)"
  by (induction xs) simp_all

lemma ri_raw_extract_dst: "i \<in> set (extract_dst raw a d) \<Longrightarrow> ri_raw i = raw"
  by (auto simp: extract_dst_def extract_instance_def Let_def split: prod.splits)

lemma find_extract:
  assumes "distinct (map fst specs)" and "(raw, dsts, a) \<in> set specs"
  shows "find (\<lambda>i. ri_raw i = raw \<and> P i) (extract_ofp_actions specs) = find P (concat (map (extract_dst raw a) dsts))"
  using assms
proof (induction specs)
  case (Cons s specs)
  obtain raw' dsts' a' where s: "s = (raw', dsts', a')" by (cases s) auto
  let ?head = "concat (map (extract_dst raw' a') dsts')"
  have r: "\<forall>i \<in> set ?head. ri_raw i = raw'" by (auto dest: ri_raw_extract_dst)
  have unfold: "find Q (extract_ofp_actions (s # specs)) =
      (case find Q ?head of None \<Rightarrow> find Q (extract_ofp_actions specs) | Some x \<Rightarrow> Some x)" for Q
    unfolding extract_ofp_actions_def by (simp add: s find_append)
  show ?case
  proof (cases "raw' = raw")
    case True
    then have "raw \<notin> fst ` set specs" and eq: "(raw, dsts, a) = s"
      using Cons.prems by (auto simp: s rev_image_eqI)
    then have "find (\<lambda>i. ri_raw i = raw \<and> P i) (extract_ofp_actions specs) = None"
      by (force simp: find_None_iff extract_ofp_actions_def dest: ri_raw_extract_dst)
    moreover have "find (\<lambda>i. ri_raw i = raw \<and> P i) ?head = find P ?head"
      using r True by (intro find_cong) auto
    ultimately show ?thesis unfolding unfold using eq s by (simp split: option.split)
  next
    case False
    then have "find (\<lambda>i. ri_raw i = raw \<and> P i) ?head = None"
      using r by (auto simp: find_None_iff)
    with Cons False show ?thesis unfolding unfold by (auto simp: s)
  qed
qed simp

lemma raw_lookup_std:
  assumes spec: "(raw, [(n, v1, v2, ty)], a) \<in> set raw_action_specs" and v: "v1 \<le> v" "v \<le> last_version v1 v2"
  shows "ofpact_raw_lookup v raw = Inr (extract_instance raw n ty a v)"
    and "find (\<lambda>i. ri_raw i = raw) all_raw_instances = Some (extract_instance raw n ty a v1)"
    and "extract_instance raw n ty a v \<in> set all_raw_instances"
proof -
  have d: "distinct (map fst raw_action_specs)" by (simp add: raw_action_specs_raws)
  have ver: "oh_ofp_version (ri_hdrs (extract_instance raw n ty a w)) = w" for w
    by (simp add: extract_instance_def split: prod.splits)
  have "find (\<lambda>w. w = v) [v1..<last_version v1 v2 + 1] = Some v"
    using v by (intro find_upt) simp_all
  then have "find (\<lambda>i. oh_ofp_version (ri_hdrs i) = v) (map (extract_instance raw n ty a) [v1..<last_version v1 v2 + 1])
      = Some (extract_instance raw n ty a v)"
    by (simp add: find_map comp_def ver del: upt_Suc)
  then show "ofpact_raw_lookup v raw = Inr (extract_instance raw n ty a v)"
    unfolding ofpact_raw_lookup_def all_raw_instances_def find_extract[OF d spec]
    by (simp add: extract_dst_def del: upt_Suc)
  show "find (\<lambda>i. ri_raw i = raw) all_raw_instances = Some (extract_instance raw n ty a v1)"
    using find_extract[OF d spec, of "\<lambda>_. True"] v
    by (simp add: all_raw_instances_def extract_dst_def upt_conv_Cons del: upt_Suc)
  have "extract_instance raw n ty a v \<in> set (extract_dst raw a (n, v1, v2, ty))"
    using v by (simp add: extract_dst_def del: upt_Suc)
  then show "extract_instance raw n ty a v \<in> set all_raw_instances"
    by (simp add: all_raw_instances_def extract_ofp_actions_def bexI[OF _ spec])
qed

section \<open>From an action to its bytes and back\<close>

lemma ofpact_put_inst_cong:
  assumes "oh_vendor (ri_hdrs i) = oh_vendor (ri_hdrs j)" and "oh_type (ri_hdrs i) = oh_type (ri_hdrs j)"
    and "ri_min_length i = ri_min_length j" and "ri_arg_ofs i = ri_arg_ofs j" and "ri_arg_len i = ri_arg_len j"
  shows "ofpact_put_inst i arg = ofpact_put_inst j arg"
  by (simp only: ofpact_put_inst_def Let_def assms)

lemma extract_instance_version:
  "ofpact_put_inst (extract_instance raw n ty a v) arg = ofpact_put_inst (extract_instance raw n ty a w) arg"
  by (rule ofpact_put_inst_cong) (simp_all add: extract_instance_def split: prod.splits)

text \<open>An action of the standard encoding, read from bytes with its type and its length in place.\<close>

lemma ofpact_pull_std:
  assumes inst: "inst \<in> set all_raw_instances" and vendor: "oh_vendor (ri_hdrs inst) = 0"
    and len: "length bs = ri_min_length inst"
    and type: "get_at 0 2 bs = ucast (oh_type (ri_hdrs inst))"
    and l: "get_at 2 2 bs = of_nat (ri_min_length inst)"
  shows "ofpact_pull_raw (bs @ rest) (oh_ofp_version (ri_hdrs inst)) =
    Inr (Inr (ri_raw inst, if ri_arg_len inst \<noteq> 0 then get_at (ri_arg_ofs inst) (ri_arg_len inst) bs else 0, bs, rest))"
proof -
  have ok: "inst_ok inst" by (rule all_raw_instances_ok[OF inst])
  then have n: "8 \<le> length bs" "oh_type (ri_hdrs inst) \<noteq> OFPAT_VENDOR"
    "unat (of_nat (ri_min_length inst) :: u64) = ri_min_length inst"
    using vendor len by (auto simp: inst_ok_def unat_of_nat take_bit_nat_eq_self)
  have u: "ucast (ucast t :: u64) = t" for t :: u16
    by (rule bit_word_eqI; simp add: bit_simps)
  have "ofpact_decode_hdrs (oh_ofp_version (ri_hdrs inst)) (bs @ rest) = Inr (ri_hdrs inst)"
    using n vendor type by (simp add: ofpact_decode_hdrs_def get_at_append u)
  then have "ofpact_decode_raw (oh_ofp_version (ri_hdrs inst)) (bs @ rest) = Inr inst"
    by (simp add: ofpact_decode_raw_def ofpact_decode_lookup_inst[OF inst])
  moreover have "unat (get_at 2 2 (bs @ rest)) = length bs"
    using n l len by (simp add: get_at_append)
  ultimately show ?thesis
    using ok len by (simp add: ofpact_pull_raw_def Let_def get_at_append inst_ok_def)
qed

lemma put_OFPAT_std:
  assumes spec: "(raw, [(OF, v1, v2, ty)], a) \<in> set raw_action_specs" and v: "v1 \<le> v" "v \<le> last_version v1 v2"
    and lay: "arg_layout 4 a = (m, ofs, l)" and arg: "take_bit (8 * l) arg = arg"
  obtains bs where "put_OFPAT raw arg = Inr bs" and "length bs = m" and "8 \<le> m"
    and "\<And>rest. ofpact_pull_raw (bs @ rest) v = Inr (Inr (raw, arg, bs, rest))"
    and "\<And>mac rest. l = 0 \<Longrightarrow> 16 \<le> m \<Longrightarrow>
      ofpact_pull_raw (set_dl_addr mac bs @ rest) v = Inr (Inr (raw, 0, set_dl_addr mac bs, rest))"
    and "get_at 0 2 bs = ucast (of_nat ty :: u16)" and "get_at 2 2 bs = of_nat m" and "(of_nat ty :: u16) \<noteq> OFPAT_VENDOR"
proof -
  let ?I = "extract_instance raw OF ty a"
  note L = raw_lookup_std[OF spec v]
  have i: "ri_raw (?I w) = raw" "oh_ofp_version (ri_hdrs (?I w)) = w" "oh_vendor (ri_hdrs (?I w)) = 0"
    "ri_min_length (?I w) = m" "ri_arg_ofs (?I w) = ofs" "ri_arg_len (?I w) = l" for w
    using lay by (simp_all add: extract_instance_def)
  have ok: "inst_ok (?I v)" by (rule all_raw_instances_ok[OF L(3)])
  have a0: "l = 0 \<longrightarrow> arg = 0" using arg by auto
  then have "\<exists>bs. ofpact_put_inst (?I v) arg = Inr bs"
    by (simp add: ofpact_put_inst_def Let_def i)
  then obtain bs where p: "ofpact_put_inst (?I v) arg = Inr bs" ..
  have v1: "v1 \<le> last_version v1 v2" using v by simp
  have put: "put_OFPAT raw arg = Inr bs"
    using p raw_lookup_std[OF spec order.refl v1]
    by (simp add: put_OFPAT_def ofpact_put_raw_def i(2) extract_instance_version[of raw OF ty a v1 arg v])
  note B = ofpact_put_inst_bytes[OF ok p, unfolded i]
  have pull: "ofpact_pull_raw (bs @ rest) v = Inr (Inr (raw, arg, bs, rest))" for rest
    using ofpact_pull_std[OF L(3) i(3), of bs rest] B arg by (auto simp: i)
  have m: "8 \<le> m" using ok i by (simp add: inst_ok_def)
  have dl: "ofpact_pull_raw (set_dl_addr mac bs @ rest) v = Inr (Inr (raw, 0, set_dl_addr mac bs, rest))"
    if "l = 0" "16 \<le> m" for mac rest
    using ofpact_pull_std[OF L(3) i(3), of "set_dl_addr mac bs" rest] B(1-3) that
    by (simp add: i set_dl_addr_def get_at_put_before)
  have ty: "oh_type (ri_hdrs (?I w)) = of_nat ty" for w by (simp add: extract_instance_def split: prod.splits)
  then have hdr: "get_at 0 2 bs = ucast (of_nat ty :: u16)" "(of_nat ty :: u16) \<noteq> OFPAT_VENDOR"
    using B(2) ok i(3)[of v] by (simp_all add: inst_ok_def)
  show thesis by (rule that[OF put B(1) m pull dl hdr(1) B(3) hdr(2)])
qed

fun with_raw :: "nat \<Rightarrow> gtp_ofpact \<Rightarrow> gtp_ofpact" where
  "with_raw v (OFPACT_HANDLE_GTP raw) = OFPACT_HANDLE_GTP
     (if v = OFP10_VERSION then OFPAT_RAW10_HANDLE_GTP
      else if v = OFP11_VERSION then OFPAT_RAW11_HANDLE_GTP else OFPAT_RAW12_HANDLE_GTP)"
| "with_raw v (OFPACT_HANDLE_PGW_SGI raw) = OFPACT_HANDLE_PGW_SGI
     (if v = OFP10_VERSION then OFPAT_RAW10_HANDLE_PGW_SGI
      else if v = OFP11_VERSION then OFPAT_RAW11_HANDLE_PGW_SGI else OFPAT_RAW12_HANDLE_PGW_SGI)"
| "with_raw v a = a"

definition by_version :: "nat \<Rightarrow> 'a \<Rightarrow> 'a \<Rightarrow> 'a \<Rightarrow> 'a" where
  "by_version v x y z = (if v = OFP10_VERSION then x else if v = OFP11_VERSION then y else z)"

fun gtp_type :: "gtp_ofpact \<Rightarrow> nat" where
  "gtp_type (OFPACT_HANDLE_GTP raw) = 28"
| "gtp_type (OFPACT_OPERATE_GTP x) = 29"
| "gtp_type (OFPACT_GTP_TEID x) = 30"
| "gtp_type (OFPACT_GTP_PGW_IP x) = 31"
| "gtp_type (OFPACT_OVS_ID x) = 32"
| "gtp_type (OFPACT_OVS_TOTAL x) = 33"
| "gtp_type (OFPACT_GTP_PGW_PORT x) = 34"
| "gtp_type (OFPACT_OVS_PHY_PORT x) = 35"
| "gtp_type (OFPACT_HANDLE_PGW_SGI raw) = 36"
| "gtp_type (OFPACT_PGW_SGI_PORT x) = 37"
| "gtp_type (OFPACT_PGW_FASTPATH x) = 38"
| "gtp_type (OFPACT_GTP_PGW_ETH x) = 39"
| "gtp_type (OFPACT_PGW_SGI_ETH x) = 40"

definition wire_ok :: "nat \<Rightarrow> gtp_ofpact \<Rightarrow> bool" where
  "wire_ok v a \<longleftrightarrow> (of_nat (gtp_type a) :: u16) \<noteq> OFPAT_VENDOR \<and> (\<exists>bs raw arg. encode_ofpact a v = Inr bs \<and> 8 \<le> length bs \<and>
     (\<forall>rest. ofpact_pull_raw (bs @ rest) v = Inr (Inr (raw, arg, bs, rest))) \<and>
     ofpact_decode_gtp bs raw arg = Some (with_raw v a) \<and>
     get_at 0 2 bs = ucast (of_nat (gtp_type a) :: u16) \<and> get_at 2 2 bs = of_nat (length bs) \<and>
     length bs \<le> 16 \<and> (gtp_type a = 28 \<longrightarrow> length bs = 8))"

lemma put_OFPAT_by_version:
  assumes v: "1 \<le> v" "v \<le> 5"
    and specs: "(ra, [(OF, 1, Exactly, ty)], a) \<in> set gtp_actions_10"
      "(rb, [(OF, 2, Exactly, ty)], a) \<in> set gtp_actions_11"
      "(rc, [(OF, 3, Upto 5, ty)], a) \<in> set gtp_actions_12"
    and lay: "arg_layout 4 a = (m, ofs, l)" and arg: "take_bit (8 * l) arg = arg"
  obtains bs where "put_OFPAT (by_version v ra rb rc) arg = Inr bs" and "length bs = m" and "8 \<le> m"
    and "\<And>rest. ofpact_pull_raw (bs @ rest) v = Inr (Inr (by_version v ra rb rc, arg, bs, rest))"
    and "\<And>mac rest. l = 0 \<Longrightarrow> 16 \<le> m \<Longrightarrow> ofpact_pull_raw (set_dl_addr mac bs @ rest) v =
      Inr (Inr (by_version v ra rb rc, 0, set_dl_addr mac bs, rest))"
    and "get_at 0 2 bs = ucast (of_nat ty :: u16)" and "get_at 2 2 bs = of_nat m" and "(of_nat ty :: u16) \<noteq> OFPAT_VENDOR"
proof -
  have S: "(ra, [(OF, 1, Exactly, ty)], a) \<in> set raw_action_specs"
    "(rb, [(OF, 2, Exactly, ty)], a) \<in> set raw_action_specs"
    "(rc, [(OF, 3, Upto 5, ty)], a) \<in> set raw_action_specs"
    using specs by (simp_all add: raw_action_specs_def)
  consider "v = 1" | "v = 2" | "3 \<le> v" using v(1) by linarith
  then have "\<exists>v1 v2. (by_version v ra rb rc, [(OF, v1, v2, ty)], a) \<in> set raw_action_specs \<and>
      v1 \<le> v \<and> v \<le> last_version v1 v2"
  proof cases
    case 1
    with S(1) show ?thesis
      by (intro exI[of _ 1] exI[of _ Exactly]) (simp add: by_version_def OFP10_VERSION_def)
  next
    case 2
    with S(2) show ?thesis
      by (intro exI[of _ 2] exI[of _ Exactly]) (simp add: by_version_def OFP10_VERSION_def OFP11_VERSION_def)
  next
    case 3
    with S(3) v(2) show ?thesis
      by (intro exI[of _ 3] exI[of _ "Upto 5"]) (simp add: by_version_def OFP10_VERSION_def OFP11_VERSION_def)
  qed
  then obtain v1 v2 where "(by_version v ra rb rc, [(OF, v1, v2, ty)], a) \<in> set raw_action_specs"
    "v1 \<le> v" "v \<le> last_version v1 v2" by blast
  from put_OFPAT_std[OF this lay arg] that show thesis by metis
qed

lemma wire_ok_argument:
  assumes v: "1 \<le> v" "v \<le> 5"
    and "(ra, [(OF, 1, Exactly, ty)], b) \<in> set gtp_actions_10"
      "(rb, [(OF, 2, Exactly, ty)], b) \<in> set gtp_actions_11"
      "(rc, [(OF, 3, Upto 5, ty)], b) \<in> set gtp_actions_12"
    and lay: "arg_layout 4 b = (m, ofs, l)" and arg: "take_bit (8 * l) arg = arg"
    and ty: "gtp_type a = ty" and m: "m = 8"
    and enc: "encode_ofpact a v = put_OFPAT (by_version v ra rb rc) arg"
    and dec: "\<And>bs. ofpact_decode_gtp bs (by_version v ra rb rc) arg = Some (with_raw v a)"
  shows "wire_ok v a"
proof (rule put_OFPAT_by_version[OF assms(1-7)])
  fix bs assume bs: "put_OFPAT (by_version v ra rb rc) arg = Inr bs" "length bs = m" "8 \<le> m"
    "\<And>rest. ofpact_pull_raw (bs @ rest) v = Inr (Inr (by_version v ra rb rc, arg, bs, rest))"
    "get_at 0 2 bs = ucast (of_nat ty :: u16)" "get_at 2 2 bs = of_nat m" "(of_nat ty :: u16) \<noteq> OFPAT_VENDOR"
  show ?thesis
    unfolding wire_ok_def
    by (intro conjI exI[of _ bs] exI[of _ "by_version v ra rb rc"] exI[of _ arg]) (simp_all add: bs enc dec ty m)
qed

lemma wire_ok_address:
  assumes v: "1 \<le> v" "v \<le> 5"
    and specs: "(ra, [(OF, 1, Exactly, ty)], Struct 16) \<in> set gtp_actions_10"
      "(rb, [(OF, 2, Exactly, ty)], Struct 16) \<in> set gtp_actions_11"
      "(rc, [(OF, 3, Upto 5, ty)], Struct 16) \<in> set gtp_actions_12"
    and ty: "gtp_type a = ty" "ty \<noteq> 28"
    and enc: "encode_ofpact a v = rbind (put_OFPAT (by_version v ra rb rc) 0) (\<lambda>oa. Inr (set_dl_addr mac oa))"
    and dec: "\<And>bs. dl_addr bs = mac \<Longrightarrow> ofpact_decode_gtp bs (by_version v ra rb rc) 0 = Some (with_raw v a)"
  shows "wire_ok v a"
proof -
  obtain bs where bs: "put_OFPAT (by_version v ra rb rc) 0 = Inr bs" "length bs = 16"
    "\<And>rest. ofpact_pull_raw (set_dl_addr mac bs @ rest) v =
      Inr (Inr (by_version v ra rb rc, 0, set_dl_addr mac bs, rest))"
    "get_at 0 2 bs = ucast (of_nat ty :: u16)" "get_at 2 2 bs = 16" "(of_nat ty :: u16) \<noteq> OFPAT_VENDOR"
    by (rule put_OFPAT_by_version[OF v specs, of 16 0 0 0]) simp_all
  have "ucast (take_bit 48 (ucast mac :: u64)) = mac" by (rule bit_word_eqI) (auto simp: bit_simps)
  then have "dl_addr (set_dl_addr mac bs) = mac" "length (set_dl_addr mac bs) = 16"
    "get_at 0 2 (set_dl_addr mac bs) = get_at 0 2 bs" "get_at 2 2 (set_dl_addr mac bs) = get_at 2 2 bs"
    using bs(2) by (simp_all add: dl_addr_def set_dl_addr_def get_at_put_be get_at_put_before)
  then show ?thesis
    unfolding wire_ok_def
    by (intro conjI exI[of _ "set_dl_addr mac bs"] exI[of _ "by_version v ra rb rc"] exI[of _ 0])
      (simp_all add: bs enc dec ty)
qed

lemmas gtp_encoders = encode_HANDLE_GTP_def encode_HANDLE_PGW_SGI_def encode_OPERATE_GTP_def encode_GTP_TEID_def
  encode_GTP_PGW_IP_def encode_OVS_ID_def encode_OVS_TOTAL_def encode_GTP_PGW_PORT_def
  encode_OVS_PHY_PORT_def encode_PGW_SGI_PORT_def encode_PGW_FASTPATH_def encode_GTP_PGW_ETH_def encode_PGW_SGI_ETH_def

lemmas gtp_decoders = ofpact_decode_gtp_def decode_HANDLE_GTP_def decode_HANDLE_PGW_SGI_def decode_OPERATE_GTP_def decode_GTP_TEID_def
  decode_GTP_PGW_IP_def decode_OVS_ID_def decode_OVS_TOTAL_def decode_GTP_PGW_PORT_def
  decode_OVS_PHY_PORT_def decode_PGW_SGI_PORT_def decode_PGW_FASTPATH_def decode_GTP_PGW_ETH_def decode_PGW_SGI_ETH_def

lemma ucast_ucast_id:
  "ucast (ucast x :: u64) = x" "ucast (ucast y :: u64) = y" "ucast (ucast z :: u64) = z"
  for x :: u8 and y :: u16 and z :: u32
  by (rule bit_word_eqI; auto simp: bit_simps)+

lemma argument_fits:
  "take_bit 8 (ucast x :: u64) = ucast x" for x :: u8
  by (rule bit_word_eqI) (auto simp: bit_simps dest: bit_imp_le_length)

lemmas wire_simps = gtp_actions_10_def gtp_actions_11_def gtp_actions_12_def round_up_def
  OFP_ACTION_ALIGN_def argument_fits ucast_ucast_id by_version_def gtp_encoders gtp_decoders

text \<open>Every GTP action has an encoding that decodes to it, in every version up to OpenFlow 1.4.\<close>

lemma wire_ok_all: "1 \<le> v \<Longrightarrow> v \<le> 5 \<Longrightarrow> wire_ok v a"
proof (cases a)
  case (OFPACT_HANDLE_GTP raw)
  assume "1 \<le> v" "v \<le> 5"
  then show ?thesis
    unfolding OFPACT_HANDLE_GTP
    by (rule wire_ok_argument[where ra = OFPAT_RAW10_HANDLE_GTP and rb = OFPAT_RAW11_HANDLE_GTP and rc = OFPAT_RAW12_HANDLE_GTP
          and ty = 28 and b = "Void" and m = 8 and ofs = 0 and l = 0 and arg = "0"])
      (simp_all add: wire_simps)
next
  case (OFPACT_HANDLE_PGW_SGI raw)
  assume "1 \<le> v" "v \<le> 5"
  then show ?thesis
    unfolding OFPACT_HANDLE_PGW_SGI
    by (rule wire_ok_argument[where ra = OFPAT_RAW10_HANDLE_PGW_SGI and rb = OFPAT_RAW11_HANDLE_PGW_SGI and rc = OFPAT_RAW12_HANDLE_PGW_SGI
          and ty = 36 and b = "Void" and m = 8 and ofs = 0 and l = 0 and arg = "0"])
      (simp_all add: wire_simps)
next
  case (OFPACT_OPERATE_GTP x)
  assume "1 \<le> v" "v \<le> 5"
  then show ?thesis
    unfolding OFPACT_OPERATE_GTP
    by (rule wire_ok_argument[where ra = OFPAT_RAW10_OPERATE_GTP and rb = OFPAT_RAW11_OPERATE_GTP and rc = OFPAT_RAW12_OPERATE_GTP
          and ty = 29 and b = "Basic Uint8" and m = 8 and ofs = 4 and l = 1 and arg = "ucast x"])
      (simp_all add: wire_simps)
next
  case (OFPACT_GTP_TEID x)
  assume "1 \<le> v" "v \<le> 5"
  then show ?thesis
    unfolding OFPACT_GTP_TEID
    by (rule wire_ok_argument[where ra = OFPAT_RAW10_GTP_TEID and rb = OFPAT_RAW11_GTP_TEID and rc = OFPAT_RAW12_GTP_TEID
          and ty = 30 and b = "Basic Uint32" and m = 8 and ofs = 4 and l = 4 and arg = "ucast x"])
      (simp_all add: wire_simps)
next
  case (OFPACT_GTP_PGW_IP x)
  assume "1 \<le> v" "v \<le> 5"
  then show ?thesis
    unfolding OFPACT_GTP_PGW_IP
    by (rule wire_ok_argument[where ra = OFPAT_RAW10_GTP_PGW_IP and rb = OFPAT_RAW11_GTP_PGW_IP and rc = OFPAT_RAW12_GTP_PGW_IP
          and ty = 31 and b = "Basic Ovs_be32" and m = 8 and ofs = 4 and l = 4 and arg = "ucast (ntohl x)"])
      (simp_all add: wire_simps)
next
  case (OFPACT_OVS_ID x)
  assume "1 \<le> v" "v \<le> 5"
  then show ?thesis
    unfolding OFPACT_OVS_ID
    by (rule wire_ok_argument[where ra = OFPAT_RAW10_OVS_ID and rb = OFPAT_RAW11_OVS_ID and rc = OFPAT_RAW12_OVS_ID
          and ty = 32 and b = "Basic Uint16" and m = 8 and ofs = 4 and l = 2 and arg = "ucast x"])
      (simp_all add: wire_simps)
next
  case (OFPACT_OVS_TOTAL x)
  assume "1 \<le> v" "v \<le> 5"
  then show ?thesis
    unfolding OFPACT_OVS_TOTAL
    by (rule wire_ok_argument[where ra = OFPAT_RAW10_OVS_TOTAL and rb = OFPAT_RAW11_OVS_TOTAL and rc = OFPAT_RAW12_OVS_TOTAL
          and ty = 33 and b = "Basic Uint16" and m = 8 and ofs = 4 and l = 2 and arg = "ucast x"])
      (simp_all add: wire_simps)
next
  case (OFPACT_GTP_PGW_PORT x)
  assume "1 \<le> v" "v \<le> 5"
  then show ?thesis
    unfolding OFPACT_GTP_PGW_PORT
    by (rule wire_ok_argument[where ra = OFPAT_RAW10_GTP_PGW_PORT and rb = OFPAT_RAW11_GTP_PGW_PORT and rc = OFPAT_RAW12_GTP_PGW_PORT
          and ty = 34 and b = "Basic Uint16" and m = 8 and ofs = 4 and l = 2 and arg = "ucast x"])
      (simp_all add: wire_simps)
next
  case (OFPACT_OVS_PHY_PORT x)
  assume "1 \<le> v" "v \<le> 5"
  then show ?thesis
    unfolding OFPACT_OVS_PHY_PORT
    by (rule wire_ok_argument[where ra = OFPAT_RAW10_OVS_PHY_PORT and rb = OFPAT_RAW11_OVS_PHY_PORT and rc = OFPAT_RAW12_OVS_PHY_PORT
          and ty = 35 and b = "Basic Uint16" and m = 8 and ofs = 4 and l = 2 and arg = "ucast x"])
      (simp_all add: wire_simps)
next
  case (OFPACT_PGW_SGI_PORT x)
  assume "1 \<le> v" "v \<le> 5"
  then show ?thesis
    unfolding OFPACT_PGW_SGI_PORT
    by (rule wire_ok_argument[where ra = OFPAT_RAW10_PGW_SGI_PORT and rb = OFPAT_RAW11_PGW_SGI_PORT and rc = OFPAT_RAW12_PGW_SGI_PORT
          and ty = 37 and b = "Basic Uint16" and m = 8 and ofs = 4 and l = 2 and arg = "ucast x"])
      (simp_all add: wire_simps)
next
  case (OFPACT_PGW_FASTPATH x)
  assume "1 \<le> v" "v \<le> 5"
  then show ?thesis
    unfolding OFPACT_PGW_FASTPATH
    by (rule wire_ok_argument[where ra = OFPAT_RAW10_PGW_FASTPATH and rb = OFPAT_RAW11_PGW_FASTPATH and rc = OFPAT_RAW12_PGW_FASTPATH
          and ty = 38 and b = "Basic Uint8" and m = 8 and ofs = 4 and l = 1 and arg = "ucast x"])
      (simp_all add: wire_simps)
next
  case (OFPACT_GTP_PGW_ETH x)
  assume "1 \<le> v" "v \<le> 5"
  then show ?thesis
    unfolding OFPACT_GTP_PGW_ETH
    by (rule wire_ok_address[where ra = OFPAT_RAW10_GTP_PGW_ETH and rb = OFPAT_RAW11_GTP_PGW_ETH and rc = OFPAT_RAW12_GTP_PGW_ETH
          and ty = 39 and mac = x]) (simp_all add: wire_simps)
next
  case (OFPACT_PGW_SGI_ETH x)
  assume "1 \<le> v" "v \<le> 5"
  then show ?thesis
    unfolding OFPACT_PGW_SGI_ETH
    by (rule wire_ok_address[where ra = OFPAT_RAW10_PGW_SGI_ETH and rb = OFPAT_RAW11_PGW_SGI_ETH and rc = OFPAT_RAW12_PGW_SGI_ETH
          and ty = 40 and mac = x]) (simp_all add: wire_simps)
qed

theorem ofpacts_round_trip:
  assumes "1 \<le> v" and "v \<le> 5"
  shows "\<exists>bs. ofpacts_put_openflow_actions ofpacts v = Inr bs \<and>
    ofpacts_decode decode_other v bs = Inr (Inr (map (\<lambda>a. Inl (with_raw v a)) ofpacts))"
proof (induction ofpacts)
  case (Cons a ofpacts)
  obtain bs raw arg where a: "encode_ofpact a v = Inr bs" "8 \<le> length bs"
    "\<And>rest. ofpact_pull_raw (bs @ rest) v = Inr (Inr (raw, arg, bs, rest))"
    "ofpact_decode_gtp bs raw arg = Some (with_raw v a)"
    using wire_ok_all[OF assms, of a] unfolding wire_ok_def by blast
  from Cons obtain rest where r: "ofpacts_put_openflow_actions ofpacts v = Inr rest"
    "ofpacts_decode decode_other v rest = Inr (Inr (map (\<lambda>a. Inl (with_raw v a)) ofpacts))" by blast
  have "bs \<noteq> []" using a(2) by auto
  then have "ofpacts_decode decode_other v (bs @ rest) =
      Inr (Inr (Inl (with_raw v a) # map (\<lambda>a. Inl (with_raw v a)) ofpacts))"
    using a r by (simp add: ofpacts_decode.simps[of _ _ "bs @ rest"])
  with a r show ?case by simp
qed (simp add: ofpacts_decode.simps)

text \<open>No GTP action is defined for OpenFlow 1.5.\<close>

lemma gtp_types_of15:
  "list_all (\<lambda>(n, v1, v2, t). n = OF \<and> 29 \<le> t \<and> t \<le> 40 \<longrightarrow> last_version v1 v2 < 6) (dst_list raw_action_specs)"
  unfolding dst_list_def action_lists list_eval by simp

lemma ofpact_decode_lookup_of15:
  assumes "29 \<le> t" and "t \<le> 40"
  shows "ofpact_decode_lookup \<lparr>oh_vendor = 0, oh_type = of_nat t, oh_ofp_version = 6\<rparr> = None"
proof -
  have "\<lparr>oh_vendor = 0, oh_type = of_nat t, oh_ofp_version = 6\<rparr> \<notin> set (map ri_hdrs all_raw_instances)"
  proof
    assume "\<lparr>oh_vendor = 0, oh_type = of_nat t, oh_ofp_version = 6\<rparr> \<in> set (map ri_hdrs all_raw_instances)"
    then obtain n v1 v2 t' where d: "(n, v1, v2, t') \<in> set (dst_list raw_action_specs)"
      "fst (vendor_map n) = 0" "(of_nat t :: u16) = of_nat t'" "6 \<le> last_version v1 v2"
      unfolding all_raw_instances_def extract_hdrs by (auto simp: dst_hdrs_def simp del: upt_Suc)
    have "t' < 65536"
      using d(1) raw_action_specs_ok by (fastforce simp: dst_list_def list_all_iff spec_ok_def)
    then have "t = t'"
      using d(3) assms by (simp add: word_unat_eq_iff unat_of_nat take_bit_nat_eq_self)
    moreover have "n = OF" using d(2) by (cases n) simp_all
    ultimately show False using gtp_types_of15 d assms by (auto simp: list_all_iff)
  qed
  then show ?thesis by (force simp: ofpact_decode_lookup_def find_None_iff)
qed

theorem ofpacts_decode_of15_rejects:
  "\<exists>bs. ofpacts_put_openflow_actions (a # ofpacts) 6 = Inr bs \<and>
     ofpacts_decode decode_other 6 bs =
       Inr (Inl (case a of OFPACT_HANDLE_GTP raw \<Rightarrow> OFPBAC_BAD_LEN | _ \<Rightarrow> OFPBAC_BAD_TYPE))"
proof -
  have enc6: "encode_ofpact b 6 = encode_ofpact b 5" for b
    by (cases b) (simp_all add: gtp_encoders OFP10_VERSION_def OFP11_VERSION_def)
  then have "ofpacts_put_openflow_actions as 6 = ofpacts_put_openflow_actions as 5" for as
    by (induction as) simp_all
  then obtain rest where rest: "ofpacts_put_openflow_actions ofpacts 6 = Inr rest"
    using ofpacts_round_trip[of 5 ofpacts] by auto
  have "wire_ok 5 a" by (rule wire_ok_all) simp_all
  then obtain bs where bs: "encode_ofpact a 6 = Inr bs" "8 \<le> length bs" "length bs \<le> 16"
    "get_at 0 2 bs = ucast (of_nat (gtp_type a) :: u16)" "get_at 2 2 bs = of_nat (length bs)"
    "(of_nat (gtp_type a) :: u16) \<noteq> OFPAT_VENDOR" "gtp_type a = 28 \<Longrightarrow> length bs = 8"
    unfolding wire_ok_def enc6 by auto
  have hdrs: "ofpact_decode_hdrs 6 (bs @ rest) = Inr \<lparr>oh_vendor = 0, oh_type = of_nat (gtp_type a), oh_ofp_version = 6\<rparr>"
    using bs by (simp add: ofpact_decode_hdrs_def get_at_append ucast_ucast_id)
  have "ofpact_pull_raw (bs @ rest) 6 =
      Inr (Inl (case a of OFPACT_HANDLE_GTP raw \<Rightarrow> OFPBAC_BAD_LEN | _ \<Rightarrow> OFPBAC_BAD_TYPE))"
  proof (cases "gtp_type a = 28")
    case True
    let ?i = "extract_instance OFPAT_RAW15_COPY_FIELD OF 28 (Struct_Ellipsis 16) 6"
    have "(OFPAT_RAW15_COPY_FIELD, [(OF, 6, Onward, 28)], Struct_Ellipsis 16) \<in> set raw_action_specs"
      by (simp add: raw_action_specs_def copy_actions_def)
    from raw_lookup_std(3)[OF this, of 6] have "?i \<in> set all_raw_instances" by simp
    from ofpact_decode_lookup_inst[OF this]
    have "ofpact_decode_raw 6 (bs @ rest) = Inr ?i"
      by (simp add: ofpact_decode_raw_def hdrs True extract_instance_def)
    moreover have "ri_min_length ?i = 16" by (simp add: extract_instance_def)
    ultimately show ?thesis
      using True bs by (cases a) (simp_all add: ofpact_pull_raw_def get_at_append)
  next
    case False
    have "29 \<le> gtp_type a" "gtp_type a \<le> 40" using False by (cases a; simp)+
    then have "ofpact_decode_raw 6 (bs @ rest) = Inl OFPBAC_BAD_TYPE"
      by (simp add: ofpact_decode_raw_def hdrs ofpact_decode_lookup_of15)
    with False show ?thesis by (cases a) (simp_all add: ofpact_pull_raw_def)
  qed
  moreover have "bs \<noteq> []" using bs(2) by auto
  ultimately show ?thesis using rest bs(1) by (simp add: ofpacts_decode.simps)
qed

text \<open>Decoding returns on every message.\<close>

lemma ofpacts_decode_returns: "\<exists>r. ofpacts_decode decode_other v openflow = Inr r"
proof (induction openflow rule: length_induct)
  case (1 openflow)
  show ?case
  proof (cases "openflow = []")
    case False
    obtain r where r: "ofpact_pull_raw openflow v = Inr r"
      "\<forall>raw arg act rest. r = Inr (raw, arg, act, rest) \<longrightarrow> openflow = act @ rest \<and> 8 \<le> length act"
      using ofpact_pull_raw_safe[of openflow v] by blast
    show ?thesis
    proof (cases r)
      case (Inr x)
      obtain raw arg act rest where x: "x = (raw, arg, act, rest)" by (cases x) auto
      with r(2) Inr have "length rest < length openflow" by auto
      with 1 obtain s where "ofpacts_decode decode_other v rest = Inr s" by blast
      with False r(1) Inr x show ?thesis
        by (auto simp: ofpacts_decode.simps[of decode_other v openflow] split: sum.splits)
    qed (use False r(1) in \<open>simp add: ofpacts_decode.simps[of decode_other v openflow]\<close>)
  qed (simp add: ofpacts_decode.simps)
qed

end
