(* ===== verification/Gtp_Text.thy ===== *)
theory Gtp_Text
  imports Gtp_Actions
begin

text \<open>
  The text form of lists of actions: \<open>ofputil_parse_key_value()\<close> of \<^verbatim>\<open>lib/ofp-util.c\<close>, which splits
  a text into keys and values, and \<open>ofpacts_parse()\<close> and \<open>ofpacts_format()\<close> of
  \<^verbatim>\<open>lib/ofp-actions.c\<close> for texts and lists of GTP actions. A C string is the list of its characters
  without the terminator.
\<close>

section \<open>Keys and values\<close>

definition is_delim :: "char \<Rightarrow> bool" where
  "is_delim c \<longleftrightarrow> c \<in> {CHR '','', CHR '' '', CHR 0x09, CHR 0x0D, CHR 0x0A}"

definition ends_key :: "char \<Rightarrow> bool" where
  "ends_key c \<longleftrightarrow> c \<in> {CHR '':'', CHR ''='', CHR ''(''} \<or> is_delim c"

text \<open>The loop over balanced parentheses. It steps over the terminator when the parentheses do not
  balance, so the rest of the string is then \<open>None\<close>: a pointer past the end of the string.\<close>

fun paren_value :: "nat \<Rightarrow> string \<Rightarrow> string \<times> string option" where
  "paren_value level [] = ([], None)"
| "paren_value level (c # s) =
     (let level' = (if c = CHR ''('' then level + 1 else if c = CHR '')'' then level - 1 else level)
      in if level' = 0 then ([], Some s)
         else let (v, p) = paren_value level' s in (c # v, p))"

definition split_key_value :: "string \<Rightarrow> string \<times> string \<times> string option" where
  "split_key_value pos =
     (let key = takeWhile (\<lambda>c. \<not> ends_key c) pos in
      case dropWhile (\<lambda>c. \<not> ends_key c) pos of
        [] \<Rightarrow> (key, [], Some [])
      | c # val \<Rightarrow>
          if c = CHR '':'' \<or> c = CHR ''=''
          then (key, takeWhile (\<lambda>c. \<not> is_delim c) val, Some (drop 1 (dropWhile (\<lambda>c. \<not> is_delim c) val)))
          else if c = CHR ''('' then (key, paren_value 1 val)
          else (key, [], Some val))"

definition ofputil_parse_key_value :: "string option \<Rightarrow> (string \<times> string \<times> string option) option result" where
  "ofputil_parse_key_value stringp =
     (case stringp of
        None \<Rightarrow> Inl Wild_Pointer
      | Some str \<Rightarrow>
          let pos = dropWhile is_delim str in
          if pos = [] then Inr None else Inr (Some (split_key_value pos)))"

lemma paren_value_length: "snd (paren_value level s) = Some p \<Longrightarrow> length p < length s"
  by (induction level s arbitrary: p rule: paren_value.induct)
    (fastforce simp: Let_def split: if_splits prod.splits)+

lemma split_key_value_length:
  assumes "split_key_value pos = (key, val, Some p)" and "pos \<noteq> []"
  shows "length p < length pos"
proof (cases "dropWhile (\<lambda>c. \<not> ends_key c) pos")
  case Nil
  with assms show ?thesis by (simp add: split_key_value_def Let_def del: dropWhile_eq_Nil_conv)
next
  case (Cons c rest)
  then have "length rest < length pos"
    using length_dropWhile_le[of "\<lambda>c. \<not> ends_key c" pos] by simp
  moreover have "length (drop 1 (dropWhile (\<lambda>c. \<not> is_delim c) rest)) \<le> length rest"
    using length_dropWhile_le[of "\<lambda>c. \<not> is_delim c" rest] by simp
  ultimately show ?thesis
    using assms Cons paren_value_length[of 1 rest p] by (auto simp: split_key_value_def Let_def split: if_splits)
qed

lemma parse_key_value_length:
  assumes "ofputil_parse_key_value (Some s) = Inr (Some (key, val, Some p))"
  shows "length p < length s"
proof -
  have "split_key_value (dropWhile is_delim s) = (key, val, Some p)" "dropWhile is_delim s \<noteq> []"
    using assms by (auto simp: ofputil_parse_key_value_def Let_def simp del: dropWhile_eq_Nil_conv split: if_splits)
  then show ?thesis
    using split_key_value_length length_dropWhile_le[of is_delim s] by fastforce
qed

section \<open>Parsing a list of actions\<close>

text \<open>The loop of \<open>ofpacts_parse__()\<close>. \<open>None\<close> when the text names an action other than the GTP ones;
  the flag tells whether the keyword \<^verbatim>\<open>drop\<close> was seen.\<close>

function parse_loop :: "string option \<Rightarrow> (string + gtp_ofpact list \<times> bool) result option" where
  "parse_loop pos =
     (case ofputil_parse_key_value pos of
        Inl f \<Rightarrow> Some (Inl f)
      | Inr None \<Rightarrow> Some (Inr (Inr ([], False)))
      | Inr (Some (key, val, pos')) \<Rightarrow>
          (case ofpact_parse_gtp key of
             Some parse \<Rightarrow>
               (case parse val of
                  Inl f \<Rightarrow> Some (Inl f)
                | Inr (Inl error) \<Rightarrow> Some (Inr (Inl error))
                | Inr (Inr a) \<Rightarrow>
                    map_option (\<lambda>r. rbind r (\<lambda>e. Inr (map_sum id (\<lambda>(as, dropped). (a # as, dropped)) e))) (parse_loop pos'))
           | None \<Rightarrow>
               if strcaseeq key ''drop''
               then map_option (\<lambda>r. rbind r (\<lambda>e. Inr (map_sum id (\<lambda>(as, dropped). (as, True)) e))) (parse_loop pos')
               else if strcaseeq key ''apply_actions''
               then Some (Inr (Inl ''apply_actions is the default instruction''))
               else None))"
  by pat_completeness auto
termination
proof (relation "measure (\<lambda>p. case p of None \<Rightarrow> 0 | Some s \<Rightarrow> Suc (length s))", simp)
  have step: "(pos', pos) \<in> measure (\<lambda>p. case p of None \<Rightarrow> 0 | Some s \<Rightarrow> Suc (length s))"
    if "ofputil_parse_key_value pos = Inr (Some (key, val, pos'))" for pos pos' key val
  proof (cases pos)
    case (Some s)
    with that parse_key_value_length[of s key val] show ?thesis by (cases pos') auto
  qed (use that in \<open>simp add: ofputil_parse_key_value_def\<close>)
  show "(pos', pos) \<in> measure (\<lambda>p. case p of None \<Rightarrow> 0 | Some s \<Rightarrow> Suc (length s))"
    if "ofputil_parse_key_value pos = Inr x" "x = Some y" "(key, z) = y" "(val, pos') = z"
      "ofpact_parse_gtp key = Some parse" "parse val = Inr r" "r = Inr a" for pos x y key z val pos' parse r a
    using that step by blast
  show "(pos', pos) \<in> measure (\<lambda>p. case p of None \<Rightarrow> 0 | Some s \<Rightarrow> Suc (length s))"
    if "ofputil_parse_key_value pos = Inr x" "x = Some y" "(key, z) = y" "(val, pos') = z"
      "ofpact_parse_gtp key = None" "strcaseeq key ''drop''" for pos x y key z val pos'
    using that step by blast
qed

declare parse_loop.simps [simp del]

definition ofpacts_parse :: "string \<Rightarrow> (string + gtp_ofpact list) result option" where
  "ofpacts_parse str =
     map_option (\<lambda>r. rbind r (\<lambda>e. Inr
       (case e of
          Inl error \<Rightarrow> Inl error
        | Inr (as, dropped) \<Rightarrow>
            if dropped \<and> as \<noteq> []
            then Inl ([CHR 0x22] @ ''drop'' @ [CHR 0x22] @ '' must not be accompanied by any other action or instruction'')
            else Inr as))) (parse_loop (Some str))"

fun format_list :: "gtp_ofpact list \<Rightarrow> string" where
  "format_list [] = []"
| "format_list [a] = ofpact_format a"
| "format_list (a # b # as) = ofpact_format a @ '','' @ format_list (b # as)"

definition ofpacts_format :: "gtp_ofpact list \<Rightarrow> string" where
  "ofpacts_format ofpacts = (if ofpacts = [] then ''drop'' else format_list ofpacts)"

section \<open>Formatting and parsing again\<close>

lemma parse_token:
  assumes "key \<noteq> []" and "\<forall>c \<in> set key. \<not> ends_key c"
  shows "ofputil_parse_key_value (Some (key @ rest)) = Inr (Some (split_key_value (key @ rest)))"
proof -
  have "\<not> is_delim (hd key)" using assms by (auto simp: ends_key_def)
  then have "dropWhile is_delim (key @ rest) = key @ rest"
    using assms(1) by (cases key) simp_all
  with assms(1) show ?thesis by (simp add: ofputil_parse_key_value_def Let_def del: dropWhile_eq_Nil_conv)
qed

lemma parse_token_value:
  assumes "key \<noteq> []" and "\<forall>c \<in> set key. \<not> ends_key c" and "\<forall>c \<in> set v. \<not> is_delim c"
    and "tail = [] \<or> hd tail = CHR '',''"
  shows "ofputil_parse_key_value (Some (key @ CHR '':'' # v @ tail)) = Inr (Some (key, v, Some (tl tail)))"
proof -
  have "takeWhile (\<lambda>c. \<not> is_delim c) (v @ tail) = v" "dropWhile (\<lambda>c. \<not> is_delim c) (v @ tail) = tail"
    using assms(3,4) by (cases tail; auto simp: is_delim_def)+
  then show ?thesis
    unfolding parse_token[OF assms(1,2)] using assms(2) by (simp add: split_key_value_def ends_key_def drop_Suc)
qed

lemma parse_token_bare:
  assumes "key \<noteq> []" and "\<forall>c \<in> set key. \<not> ends_key c" and "tail = [] \<or> hd tail = CHR '',''"
  shows "ofputil_parse_key_value (Some (key @ tail)) = Inr (Some (key, [], Some (tl tail)))"
  unfolding parse_token[OF assms(1,2)] using assms(2,3)
  by (cases tail) (auto simp: split_key_value_def ends_key_def is_delim_def takeWhile_eq_all_conv dropWhile_eq_Nil_conv[THEN iffD2])

lemma digit_char_plain: "d < 16 \<Longrightarrow> \<not> is_delim (digit_char d)"
  by (auto simp: digit_char_def is_delim_def less_Suc_eq numeral_eq_Suc)

lemma digits_of_plain: "b \<le> 16 \<Longrightarrow> 1 < b \<Longrightarrow> \<forall>c \<in> set (digits_of b n). \<not> is_delim c"
proof (induction b n rule: digits_of.induct)
  case (1 b n)
  have "n mod b < b" using 1 by simp
  then have "n mod b < 16" "n < b \<Longrightarrow> n < 16" using 1 by linarith+
  with 1 show ?case by (subst digits_of.simps) (auto simp: digit_char_plain)
qed

lemma formats_plain:
  "\<forall>c \<in> set (fmt_d n). \<not> is_delim c" "\<forall>c \<in> set (fmt_alt_x n). \<not> is_delim c"
  "\<forall>c \<in> set (fmt_ip ip). \<not> is_delim c" "\<forall>c \<in> set (fmt_mac mac). \<not> is_delim c"
proof -
  show d: "\<forall>c \<in> set (fmt_d n). \<not> is_delim c" for n unfolding fmt_d_def by (rule digits_of_plain) simp_all
  have x: "\<forall>c \<in> set (digits_of 16 n). \<not> is_delim c" by (rule digits_of_plain) simp_all
  then show "\<forall>c \<in> set (fmt_alt_x n). \<not> is_delim c" by (auto simp: fmt_alt_x_def is_delim_def)
  show "\<forall>c \<in> set (fmt_ip ip). \<not> is_delim c"
    using d by (simp add: fmt_ip_def ball_Un is_delim_def)
  have "unat b div 16 < 16" for b :: u8 using unsigned_less[of b, where ?'a = nat] by simp
  then have "\<forall>c \<in> set (fmt_02x b). \<not> is_delim c" for b by (simp add: fmt_02x_def digit_char_plain)
  moreover have "\<not> is_delim (CHR '':'')" by (simp add: is_delim_def)
  ultimately show "\<forall>c \<in> set (fmt_mac mac). \<not> is_delim c"
    by (simp add: fmt_mac_def ball_Un)
qed

definition lower_name :: "string \<Rightarrow> bool" where
  "lower_name s \<longleftrightarrow> s \<noteq> [] \<and> list_all (\<lambda>c. tolower c = c \<and> \<not> ends_key c) s"

lemma strcaseeq_lower: "lower_name a \<Longrightarrow> lower_name b \<Longrightarrow> strcaseeq a b \<longleftrightarrow> a = b"
  by (simp add: strcaseeq_def lower_name_def list_all_iff map_idI)

lemma lower_names:
  "lower_name ''handle_gtp''" "lower_name ''handle_pgw_sgi''" "lower_name ''operate_gtp''" "lower_name ''gtp_teid''"
  "lower_name ''gtp_pgw_ip''" "lower_name ''ovs_id''" "lower_name ''ovs_total''" "lower_name ''gtp_pgw_port''"
  "lower_name ''ovs_phy_port''" "lower_name ''pgw_sgi_port''" "lower_name ''pgw_fastpath''"
  "lower_name ''gtp_pgw_eth''" "lower_name ''pgw_sgi_eth''" "lower_name ''drop''" "lower_name ''apply_actions''"
  by code_simp+

lemma parse_lower_value:
  assumes "lower_name key" and "\<forall>c \<in> set v. \<not> is_delim c" and "tail = [] \<or> hd tail = CHR '',''"
  shows "ofputil_parse_key_value (Some (key @ CHR '':'' # v @ tail)) = Inr (Some (key, v, Some (tl tail)))"
  using assms by (intro parse_token_value) (auto simp: lower_name_def list_all_iff)

lemma parse_lower_bare:
  assumes "lower_name key" and "tail = [] \<or> hd tail = CHR '',''"
  shows "ofputil_parse_key_value (Some (key @ tail)) = Inr (Some (key, [], Some (tl tail)))"
  using assms by (intro parse_token_bare) (auto simp: lower_name_def list_all_iff)

lemmas gtp_parsers = parse_HANDLE_GTP_def parse_HANDLE_PGW_SGI_def parse_OPERATE_GTP_def parse_GTP_TEID_def
  parse_GTP_PGW_IP_def parse_OVS_ID_def parse_OVS_TOTAL_def parse_GTP_PGW_PORT_def parse_OVS_PHY_PORT_def
  parse_PGW_SGI_PORT_def parse_PGW_FASTPATH_def parse_GTP_PGW_ETH_def parse_PGW_SGI_ETH_def

lemmas parse_formatted = str_to_u8_fmt str_to_u16_fmt str_to_u32_fmt str_to_mac_fmt str_to_ip_fmt

text \<open>The text of one action is one key with its value, which its parser reads back.\<close>

definition text_ok :: "gtp_ofpact \<Rightarrow> bool" where
  "text_ok a \<longleftrightarrow> (\<forall>tail. tail = [] \<or> hd tail = CHR '','' \<longrightarrow> (\<exists>key val parse.
     ofputil_parse_key_value (Some (ofpact_format a @ tail)) = Inr (Some (key, val, Some (tl tail))) \<and>
     ofpact_parse_gtp key = Some parse \<and> parse val = Inr (Inr (with_raw OFP10_VERSION a))))"

lemma text_ok_value:
  assumes "ofpact_format a = key @ CHR '':'' # v" and "lower_name key" and "\<forall>c \<in> set v. \<not> is_delim c"
    and "ofpact_parse_gtp key = Some parse" and "parse v = Inr (Inr (with_raw OFP10_VERSION a))"
  shows "text_ok a"
  unfolding text_ok_def using assms parse_lower_value[OF assms(2,3)] by auto

lemma text_ok_bare:
  assumes "ofpact_format a = key" and "lower_name key"
    and "ofpact_parse_gtp key = Some parse" and "parse [] = Inr (Inr (with_raw OFP10_VERSION a))"
  shows "text_ok a"
  unfolding text_ok_def using assms parse_lower_bare[OF assms(2)] by auto

lemmas gtp_formatters = format_HANDLE_GTP_def format_HANDLE_PGW_SGI_def format_OPERATE_GTP_def format_GTP_TEID_def
  format_GTP_PGW_IP_def format_OVS_ID_def format_OVS_TOTAL_def format_GTP_PGW_PORT_def format_OVS_PHY_PORT_def
  format_PGW_SGI_PORT_def format_PGW_FASTPATH_def format_GTP_PGW_ETH_def format_PGW_SGI_ETH_def

lemmas text_simps = gtp_formatters gtp_parsers parse_formatted lower_names formats_plain
  ofpact_parse_gtp_def strcaseeq_lower

lemma text_ok_all: "text_ok a"
proof (cases a)
  case (OFPACT_HANDLE_GTP raw)
  then show ?thesis
    by (intro text_ok_bare[where key = "''handle_gtp''" and parse = parse_HANDLE_GTP]) (simp_all add: text_simps)
next
  case (OFPACT_HANDLE_PGW_SGI raw)
  then show ?thesis
    by (intro text_ok_bare[where key = "''handle_pgw_sgi''" and parse = parse_HANDLE_PGW_SGI]) (simp_all add: text_simps)
next
  case (OFPACT_OPERATE_GTP x)
  then show ?thesis
    by (intro text_ok_value[where key = "''operate_gtp''" and v = "fmt_d (unat x)" and parse = parse_OPERATE_GTP])
      (simp_all add: text_simps)
next
  case (OFPACT_GTP_TEID x)
  then show ?thesis
    by (intro text_ok_value[where key = "''gtp_teid''" and v = "fmt_alt_x (unat x)" and parse = parse_GTP_TEID])
      (simp_all add: text_simps)
next
  case (OFPACT_GTP_PGW_IP x)
  then show ?thesis
    by (intro text_ok_value[where key = "''gtp_pgw_ip''" and v = "fmt_ip x" and parse = parse_GTP_PGW_IP])
      (simp_all add: text_simps)
next
  case (OFPACT_OVS_ID x)
  then show ?thesis
    by (intro text_ok_value[where key = "''ovs_id''" and v = "fmt_d (unat x)" and parse = parse_OVS_ID])
      (simp_all add: text_simps)
next
  case (OFPACT_OVS_TOTAL x)
  then show ?thesis
    by (intro text_ok_value[where key = "''ovs_total''" and v = "fmt_d (unat x)" and parse = parse_OVS_TOTAL])
      (simp_all add: text_simps)
next
  case (OFPACT_GTP_PGW_PORT x)
  then show ?thesis
    by (intro text_ok_value[where key = "''gtp_pgw_port''" and v = "fmt_d (unat x)" and parse = parse_GTP_PGW_PORT])
      (simp_all add: text_simps)
next
  case (OFPACT_OVS_PHY_PORT x)
  then show ?thesis
    by (intro text_ok_value[where key = "''ovs_phy_port''" and v = "fmt_d (unat x)" and parse = parse_OVS_PHY_PORT])
      (simp_all add: text_simps)
next
  case (OFPACT_PGW_SGI_PORT x)
  then show ?thesis
    by (intro text_ok_value[where key = "''pgw_sgi_port''" and v = "fmt_d (unat x)" and parse = parse_PGW_SGI_PORT])
      (simp_all add: text_simps)
next
  case (OFPACT_PGW_FASTPATH x)
  then show ?thesis
    by (intro text_ok_value[where key = "''pgw_fastpath''" and v = "fmt_d (unat x)" and parse = parse_PGW_FASTPATH])
      (simp_all add: text_simps)
next
  case (OFPACT_GTP_PGW_ETH x)
  then show ?thesis
    by (intro text_ok_value[where key = "''gtp_pgw_eth''" and v = "fmt_mac x" and parse = parse_GTP_PGW_ETH])
      (simp_all add: text_simps)
next
  case (OFPACT_PGW_SGI_ETH x)
  then show ?thesis
    by (intro text_ok_value[where key = "''pgw_sgi_eth''" and v = "fmt_mac x" and parse = parse_PGW_SGI_ETH])
      (simp_all add: text_simps)
qed

lemma parse_loop_format:
  "as \<noteq> [] \<Longrightarrow> parse_loop (Some (format_list as)) = Some (Inr (Inr (map (with_raw OFP10_VERSION) as, False)))"
proof (induction as rule: format_list.induct)
  case (2 a)
  have "ofputil_parse_key_value (Some []) = Inr None" by (simp add: ofputil_parse_key_value_def)
  then have "parse_loop (Some []) = Some (Inr (Inr ([], False)))" by (simp add: parse_loop.simps)
  moreover obtain key val parse where
    "ofputil_parse_key_value (Some (ofpact_format a)) = Inr (Some (key, val, Some []))"
    "ofpact_parse_gtp key = Some parse" "parse val = Inr (Inr (with_raw OFP10_VERSION a))"
    using text_ok_all[of a, unfolded text_ok_def, rule_format, of "[]"] by auto
  ultimately show ?case by (simp add: parse_loop.simps[of "Some (ofpact_format a)"])
next
  case (3 a b as)
  let ?rest = "format_list (b # as)"
  obtain key val parse where
    "ofputil_parse_key_value (Some (ofpact_format a @ CHR '','' # ?rest)) = Inr (Some (key, val, Some ?rest))"
    "ofpact_parse_gtp key = Some parse" "parse val = Inr (Inr (with_raw OFP10_VERSION a))"
    using text_ok_all[of a, unfolded text_ok_def, rule_format, of "CHR '','' # ?rest"] by auto
  with 3 show ?case by (simp add: parse_loop.simps[of "Some (ofpact_format a @ CHR '','' # ?rest)"])
qed simp

lemma ofpacts_parse_format:
  "ofpacts_parse (ofpacts_format as) = Some (Inr (Inr (map (with_raw OFP10_VERSION) as)))"
proof (cases "as = []")
  case True
  have n: "ofpact_parse_gtp ''drop'' = None" by (simp add: text_simps)
  have "ofputil_parse_key_value (Some []) = Inr None" by (simp add: ofputil_parse_key_value_def)
  moreover have "ofputil_parse_key_value (Some ''drop'') = Inr (Some (''drop'', [], Some []))"
    using parse_lower_bare[OF lower_names(14), of "[]"] by simp
  ultimately show ?thesis
    using True n by (simp add: ofpacts_parse_def ofpacts_format_def parse_loop.simps strcaseeq_def)
next
  case False
  then show ?thesis by (simp add: ofpacts_parse_def ofpacts_format_def parse_loop_format)
qed

text \<open>An opening parenthesis that is never closed makes the parser read past the end of the text.\<close>

lemma parse_unbalanced_text:
  assumes "lower_name key" and "CHR ''('' \<notin> set v" and "CHR '')'' \<notin> set v"
    and "ofpact_parse_gtp key = Some parse" and "parse v = Inr (Inr a)"
  shows "ofpacts_parse (key @ CHR ''('' # v) = Some (Inl Wild_Pointer)"
proof -
  have "paren_value 1 v = (v, None)"
    using assms(2,3) by (induction v) auto
  then have "ofputil_parse_key_value (Some (key @ CHR ''('' # v)) = Inr (Some (key, v, None))"
    using assms(1) parse_token[of key "CHR ''('' # v"]
    by (simp add: lower_name_def list_all_iff split_key_value_def ends_key_def)
  moreover have "parse_loop None = Some (Inl Wild_Pointer)"
    by (simp add: parse_loop.simps ofputil_parse_key_value_def)
  ultimately show ?thesis
    using assms(4,5) by (simp add: ofpacts_parse_def parse_loop.simps[of "Some (key @ CHR ''('' # v)"])
qed

end
