(* ===== verification/Gtp_Switch.thy ===== *)
theory Gtp_Switch
  imports Gtp_Text Gtp_Scenario
begin

text \<open>
  The places where the switch calls the GTP code: \<open>handle_flow_mod()\<close> of \<^verbatim>\<open>ofproto/ofproto.c\<close>,
  which takes the GTP actions out of a flow modification and configures the manager with them,
  and the GTP cases of \<open>do_xlate_actions()\<close> in \<^verbatim>\<open>ofproto/ofproto-dpif-xlate.c\<close>, which hand packets
  to the handlers. The steps of a switch are these two, in any order.
\<close>

section \<open>Flow modifications\<close>

text \<open>The local variables of \<open>handle_flow_mod()\<close> that the actions fill in.\<close>

record gtp_params =
  gp_operation :: u8
  gp_gtp_teid :: u32
  gp_gtp_pgw_ip :: ovs_be32
  gp_ovs_id :: u16
  gp_ovs_total :: u16
  gp_gtp_pgw_port :: u16
  gp_ovs_phy_port :: u16
  gp_pgw_sgi_port :: u16
  gp_pgw_fastpath :: u8
  gp_gtp_pgw_eth :: eth_addr
  gp_pgw_sgi_eth :: eth_addr

text \<open>The two addresses have no initialiser: they start as whatever is on the stack.\<close>

definition gtp_params_init :: "eth_addr \<Rightarrow> eth_addr \<Rightarrow> gtp_params" where
  "gtp_params_init stack1 stack2 =
     \<lparr>gp_operation = 0, gp_gtp_teid = 0, gp_gtp_pgw_ip = 0, gp_ovs_id = 0, gp_ovs_total = 0,
      gp_gtp_pgw_port = 0, gp_ovs_phy_port = 0, gp_pgw_sgi_port = 0, gp_pgw_fastpath = 0,
      gp_gtp_pgw_eth = stack1, gp_pgw_sgi_eth = stack2\<rparr>"

fun set_param :: "gtp_ofpact \<Rightarrow> gtp_params \<Rightarrow> gtp_params" where
  "set_param (OFPACT_OPERATE_GTP x) p = p\<lparr>gp_operation := x\<rparr>"
| "set_param (OFPACT_GTP_TEID x) p = p\<lparr>gp_gtp_teid := x\<rparr>"
| "set_param (OFPACT_GTP_PGW_IP x) p = p\<lparr>gp_gtp_pgw_ip := x\<rparr>"
| "set_param (OFPACT_OVS_ID x) p = p\<lparr>gp_ovs_id := x\<rparr>"
| "set_param (OFPACT_OVS_TOTAL x) p = p\<lparr>gp_ovs_total := x\<rparr>"
| "set_param (OFPACT_GTP_PGW_PORT x) p = p\<lparr>gp_gtp_pgw_port := x\<rparr>"
| "set_param (OFPACT_OVS_PHY_PORT x) p = p\<lparr>gp_ovs_phy_port := x\<rparr>"
| "set_param (OFPACT_PGW_FASTPATH x) p = p\<lparr>gp_pgw_fastpath := x\<rparr>"
| "set_param (OFPACT_PGW_SGI_PORT x) p = p\<lparr>gp_pgw_sgi_port := x\<rparr>"
| "set_param (OFPACT_GTP_PGW_ETH x) p = p\<lparr>gp_gtp_pgw_eth := x\<rparr>"
| "set_param (OFPACT_PGW_SGI_ETH x) p = p\<lparr>gp_pgw_sgi_eth := x\<rparr>"
| "set_param (OFPACT_HANDLE_GTP raw) p = p"
| "set_param (OFPACT_HANDLE_PGW_SGI raw) p = p"

text \<open>The loop over the actions, flattened; actions other than the GTP ones are skipped.\<close>

definition collect_params :: "(gtp_ofpact + 'o) list \<Rightarrow> gtp_params \<Rightarrow> gtp_params" where
  "collect_params ofpacts p = fold (\<lambda>a p. case a of Inl g \<Rightarrow> set_param g p | Inr _ \<Rightarrow> p) ofpacts p"

text \<open>Operation 4 only logs, and so does every operation above.\<close>

definition operate_gtp :: "gtp_state \<Rightarrow> gtp_params \<Rightarrow> gtp_state result" where
  "operate_gtp st p =
     (if gp_operation p = 1
      then gtp_manager_add_pgw st (gp_gtp_pgw_ip p) (gp_gtp_pgw_port p) (gp_gtp_pgw_eth p)
             (gp_pgw_sgi_port p) (gp_pgw_sgi_eth p)
      else if gp_operation p = 2 then Inr (gtp_manager_del_pgw st (gp_gtp_pgw_ip p))
      else if gp_operation p = 3
      then Inr (gtp_manager_set_params st (gp_ovs_id p) (gp_ovs_total p) (gp_ovs_phy_port p) (gp_pgw_fastpath p))
      else Inr st)"

text \<open>\<open>slave\<close> is the result of \<open>reject_slave_controller()\<close>, \<open>decoded\<close> that of decoding and checking the
  message, \<open>install\<close> is \<open>handle_flow_mod__()\<close> on the rest \<open>sw\<close> of the switch. The result has the
  error, whether the modification was reported to the other controllers, and the new states.\<close>

definition handle_flow_mod :: "'e option \<Rightarrow> 'e + (gtp_ofpact + 'o) list
    \<Rightarrow> ((gtp_ofpact + 'o) list \<Rightarrow> 's \<Rightarrow> 'e option \<times> 's) \<Rightarrow> eth_addr \<Rightarrow> eth_addr \<Rightarrow> gtp_state \<Rightarrow> 's
    \<Rightarrow> ('e option \<times> bool \<times> gtp_state \<times> 's) result" where
  "handle_flow_mod slave decoded install stack1 stack2 st sw =
     (case slave of
        Some error \<Rightarrow> Inr (Some error, False, st, sw)
      | None \<Rightarrow>
          (case decoded of
             Inl error \<Rightarrow> Inr (Some error, False, st, sw)
           | Inr ofpacts \<Rightarrow>
               let p = collect_params ofpacts (gtp_params_init stack1 stack2) in
               if gp_operation p \<noteq> 0
               then rbind (operate_gtp st p) (\<lambda>st. Inr (None, False, st, sw))
               else let (error, sw) = install ofpacts sw
                    in Inr (error, error = None, st, sw)))"

section \<open>Translation of the GTP actions\<close>

text \<open>\<open>CHECK_MPLS_RECIRCULATION()\<close> leaves the action to a later pass when the packet had an MPLS
  header; the last component tells whether it did.\<close>

fun xlate_gtp_action :: "bool \<Rightarrow> gtp_state \<Rightarrow> xlate_ctx \<Rightarrow> gtp_ofpact \<Rightarrow> (gtp_state \<times> xlate_ctx \<times> bool) result" where
  "xlate_gtp_action was_mpls st ctx (OFPACT_HANDLE_PGW_SGI raw) =
     (if was_mpls then Inr (st, ctx, True)
      else rbind (handle_pgw_sgi st ctx) (\<lambda>(st, ctx). Inr (st, ctx, False)))"
| "xlate_gtp_action was_mpls st ctx (OFPACT_HANDLE_GTP raw) =
     (if was_mpls then Inr (st, ctx, True)
      else rbind (handle_gtp st ctx) (\<lambda>(st, ctx). Inr (st, ctx, False)))"
| "xlate_gtp_action was_mpls st ctx a = Inr (st, ctx, False)"

section \<open>Runs of a switch\<close>

inductive switch_step :: "gtp_state \<Rightarrow> gtp_state \<Rightarrow> bool" where
  flow_mod: "handle_flow_mod (None :: unit option) (Inr (ofpacts :: (gtp_ofpact + unit) list)) (\<lambda>_ _. (None, ())) stack1 stack2 st () =
      Inr (e, rep, st', u) \<Longrightarrow> switch_step st st'"
| translate: "xlate_gtp_action was_mpls st ctx a = Inr (st', ctx', again) \<Longrightarrow> switch_step st st'"

inductive switch_reachable :: "gtp_state \<Rightarrow> bool" where
  boot: "gtp_manager_init (gtp_static seed) = Inr st \<Longrightarrow> switch_reachable st"
| step: "switch_reachable st \<Longrightarrow> switch_step st st' \<Longrightarrow> switch_reachable st'"

inductive_cases switch_stepE: "switch_step st st'"

lemma operate_gtp_ok: "gtp_ok st \<Longrightarrow> operate_gtp st p = Inr st' \<Longrightarrow> gtp_ok st'"
  by (auto simp: operate_gtp_def gtp_ok_config split: if_splits intro: gtp_ok_config(3))

lemma operate_gtp_fault: "operate_gtp st p = Inl f \<Longrightarrow> f = Assert_Fail"
  by (auto simp: operate_gtp_def gtp_manager_add_pgw_def Let_def split: if_splits option.splits)

lemma handle_flow_mod_state:
  assumes "handle_flow_mod slave decoded install stack1 stack2 st sw = Inr (e, rep, st', sw')"
  shows "st' = st \<or> (\<exists>p. operate_gtp st p = Inr st')"
proof (cases "slave = None \<and> (\<exists>as. decoded = Inr as)")
  case True
  then obtain as where "slave = None" "decoded = Inr as" by blast
  with assms show ?thesis
    by (auto simp: handle_flow_mod_def Let_def rbind_eq_Inr split: if_splits prod.splits)
next
  case False
  with assms show ?thesis by (cases slave; cases decoded) (simp_all add: handle_flow_mod_def)
qed

lemma handle_flow_mod_ok:
  assumes "gtp_ok st" and "handle_flow_mod slave decoded install stack1 stack2 st sw = Inr (e, rep, st', sw')"
  shows "gtp_ok st'"
  using handle_flow_mod_state[OF assms(2)] operate_gtp_ok[OF assms(1)] assms(1) by blast

lemma handle_flow_mod_fault:
  assumes "handle_flow_mod slave decoded install stack1 stack2 st sw = Inl f"
  shows "\<exists>p. operate_gtp st p = Inl f"
proof (cases "slave = None \<and> (\<exists>as. decoded = Inr as)")
  case True
  then obtain as where s: "slave = None" "decoded = Inr as" by blast
  let ?p = "collect_params as (gtp_params_init stack1 stack2)"
  from assms s have "operate_gtp st ?p = Inl f"
    by (cases "operate_gtp st ?p") (auto simp: handle_flow_mod_def Let_def split: if_splits prod.splits)
  then show ?thesis ..
next
  case False
  with assms show ?thesis by (cases slave; cases decoded) (simp_all add: handle_flow_mod_def)
qed

lemma xlate_gtp_action_safe:
  assumes "gtp_ok st"
  shows "case xlate_gtp_action was_mpls st ctx a of Inl f \<Rightarrow> f \<noteq> Use_After_Free | Inr (st', ctx', again) \<Rightarrow> gtp_ok st'"
proof -
  have "gtp_safe r \<Longrightarrow> case rbind r (\<lambda>(st, ctx). Inr (st, ctx, False)) of
      Inl f \<Rightarrow> f \<noteq> Use_After_Free | Inr (st', ctx', again) \<Rightarrow> gtp_ok st'" for r
    by (cases r) (auto split: prod.splits)
  with handle_gtp_safe[OF assms] handle_pgw_sgi_safe[OF assms] assms show ?thesis
    by (cases a) auto
qed

lemma switch_step_ok: "switch_step st st' \<Longrightarrow> gtp_ok st \<Longrightarrow> gtp_ok st'"
proof (erule switch_stepE)
  fix was_mpls ctx a ctx' again
  assume "gtp_ok st" "xlate_gtp_action was_mpls st ctx a = Inr (st', ctx', again)"
  with xlate_gtp_action_safe[of st was_mpls ctx a] show "gtp_ok st'" by simp
qed (rule handle_flow_mod_ok)

lemma switch_reachable_ok: "switch_reachable st \<Longrightarrow> gtp_ok st"
  by (induction rule: switch_reachable.induct) (auto simp: gtp_manager_init_fields switch_step_ok)

lemma configured_reachable: "switch_reachable configured"
proof (rule switch_reachable.step)
  show "switch_reachable booted" by (rule switch_reachable.boot[OF booted_run])
  let ?as = "[Inl (OFPACT_OPERATE_GTP 3), Inl (OFPACT_OVS_TOTAL 1), Inl (OFPACT_OVS_PHY_PORT 1)] :: (gtp_ofpact + unit) list"
  have "handle_flow_mod (None :: unit option) (Inr ?as) (\<lambda>_ _. (None, ())) 0 0 booted () =
      Inr (None, False, configured, ())"
    by (simp add: handle_flow_mod_def collect_params_def gtp_params_init_def operate_gtp_def configured_def)
  then show "switch_step booted configured" by (rule switch_step.flow_mod)
qed

lemma add_pgw_slot:
  assumes "gtp_ok st" and "gtp_manager_add_pgw st ip port eth sp se = Inr st'"
  shows "\<exists>i < MAX_PGW_PER_NODE. pgw_list st' ! i = \<lparr>gtp_pgw_port = port, gtp_pgw_eth = eth, pgw_sgi_port = sp,
    pgw_sgi_eth = se, gtp_pgw_ip = ip\<rparr>"
proof -
  have len: "length (pgw_list st) = MAX_PGW_PER_NODE" using assms(1) by (simp add: gtp_inv_def)
  show ?thesis
  proof (cases "pgw_first st 0 (\<lambda>p. gtp_pgw_ip p = 0)")
    case None
    with assms(2) len show ?thesis by (auto simp: gtp_manager_add_pgw_def Let_def split: if_splits)
  next
    case (Some i)
    have "unat (pgw_end st) \<le> MAX_PGW_PER_NODE" using assms(1) by (simp add: gtp_inv_def)
    with pgw_first_bound(2)[OF Some] have "i < MAX_PGW_PER_NODE" by linarith
    with Some assms(2) len show ?thesis
      by (intro exI[of _ i]) (auto simp: gtp_manager_add_pgw_def Let_def)
  qed
qed

section \<open>Commands\<close>

lemma collect_params_with_raw:
  "collect_params (map (\<lambda>a. Inl (with_raw v a)) as) p = collect_params (map Inl as) p"
proof -
  have "set_param (with_raw v a) p = set_param a p" for a p by (cases a) simp_all
  then show ?thesis by (induction as arbitrary: p) (simp_all add: collect_params_def)
qed

lemma with_raw_with_raw: "with_raw v (with_raw w a) = with_raw v a"
  by (cases a) simp_all

definition add_pgw_command :: "ovs_be32 \<Rightarrow> u16 \<Rightarrow> eth_addr \<Rightarrow> u16 \<Rightarrow> eth_addr \<Rightarrow> gtp_ofpact list" where
  "add_pgw_command ip port eth sgi_port sgi_eth =
     [OFPACT_OPERATE_GTP 1, OFPACT_GTP_PGW_IP ip, OFPACT_GTP_PGW_PORT port, OFPACT_GTP_PGW_ETH eth,
      OFPACT_PGW_SGI_PORT sgi_port, OFPACT_PGW_SGI_ETH sgi_eth]"

lemma handle_add_pgw_command:
  "handle_flow_mod None (Inr (map Inl (add_pgw_command ip port eth sgi_port sgi_eth))) install stack1 stack2 st sw =
     rbind (gtp_manager_add_pgw st ip port eth sgi_port sgi_eth) (\<lambda>st. Inr (None, False, st, sw))"
  by (simp add: handle_flow_mod_def add_pgw_command_def collect_params_def gtp_params_init_def operate_gtp_def)

text \<open>A command keeps its parameters on the way from its text over the wire to the manager.\<close>

lemma command_travels:
  assumes "1 \<le> v" and "v \<le> 5"
  shows "\<exists>bs. ofpacts_parse (ofpacts_format as) = Some (Inr (Inr (map (with_raw OFP10_VERSION) as))) \<and>
    ofpacts_put_openflow_actions (map (with_raw OFP10_VERSION) as) v = Inr bs \<and>
    ofpacts_decode decode_other v bs = Inr (Inr (map (\<lambda>a. Inl (with_raw v a)) as))"
  using ofpacts_round_trip[OF assms, of "map (with_raw OFP10_VERSION) as" decode_other]
  by (simp add: ofpacts_parse_format with_raw_with_raw comp_def)

text \<open>Parameters no action sets keep their initial value.\<close>

fun sets_eth :: "gtp_ofpact \<Rightarrow> bool" where
  "sets_eth (OFPACT_GTP_PGW_ETH x) = True"
| "sets_eth _ = False"

lemma collect_params_eth:
  "\<forall>g. Inl g \<in> set as \<longrightarrow> \<not> sets_eth g \<Longrightarrow> gp_gtp_pgw_eth (collect_params as p) = gp_gtp_pgw_eth p"
proof (induction as arbitrary: p)
  case (Cons a as)
  have "\<not> sets_eth g \<Longrightarrow> gp_gtp_pgw_eth (set_param g q) = gp_gtp_pgw_eth q" for g q
    by (cases g) simp_all
  with Cons show ?case by (cases a) (simp_all add: collect_params_def)
qed (simp add: collect_params_def)

end
