(* ===== verification/Csum.thy ===== *)
theory Csum
  imports Dp_Packet
begin

text \<open>
  The Internet checksum of \<^verbatim>\<open>lib/csum.c\<close> and \<^verbatim>\<open>lib/csum.h\<close>: the sum over a packet, and the update of
  a checksum after a field has changed, which must give what a new sum over the packet would give.
\<close>

unbundle bit_operations_syntax

section \<open>Sums\<close>

definition csum_add16 :: "u32 \<Rightarrow> ovs_be16 \<Rightarrow> u32" where
  "csum_add16 partial x = partial + ucast x"

definition csum_add32 :: "u32 \<Rightarrow> ovs_be32 \<Rightarrow> u32" where
  "csum_add32 partial x = partial + drop_bit 16 x + (x AND 0xffff)"

fun csum_continue :: "u32 \<Rightarrow> u8 list \<Rightarrow> u32" where
  "csum_continue partial (a # b # data) = csum_continue (csum_add16 partial (le16 a b)) data"
| "csum_continue partial [a] = partial + ucast a"
| "csum_continue partial [] = partial"

lemma unat_high: "unat (drop_bit 16 p) = unat p div 65536" for p :: u32
  unfolding unat_drop_bit_eq by (simp add: drop_bit_eq_div)

lemma high_zero: "drop_bit 16 p = 0 \<longleftrightarrow> unat p div 65536 = 0" for p :: u32
  using unat_high[of p] by (metis unsigned_0 unsigned_word_eqI)

lemma fold_halves:
  fixes p :: u32
  shows "unat ((p AND 0xffff) + drop_bit 16 p) = unat p mod 65536 + unat p div 65536"
proof -
  have "(0xffff :: u32) = mask 16" by (simp add: mask_eq_exp_minus_1)
  then have "p AND 0xffff = take_bit 16 p" by (simp only: take_bit_eq_mask)
  then have 1: "unat (p AND 0xffff) = unat p mod 65536"
    by (simp only: unsigned_take_bit_eq) (simp add: take_bit_eq_mod)
  note 2 = unat_high[of p]
  have "unat p div 65536 < 65536" using unsigned_less[of p, where ?'a = nat] by simp
  then show ?thesis unfolding unat_word_ariths(1) 1 2 by simp
qed

text \<open>The loop of \<open>csum_finish()\<close>.\<close>

function csum_fold :: "u32 \<Rightarrow> u32" where
  "csum_fold partial =
     (if drop_bit 16 partial \<noteq> 0 then csum_fold ((partial AND 0xffff) + drop_bit 16 partial) else partial)"
  by pat_completeness auto
termination
proof (relation "measure unat")
  fix p :: u32 assume "drop_bit 16 p \<noteq> 0"
  then have "0 < unat p div 65536" by (simp add: high_zero)
  then have "unat p mod 65536 + unat p div 65536 < unat p"
    using div_mult_mod_eq[of "unat p" 65536] by linarith
  then show "((p AND 0xffff) + drop_bit 16 p, p) \<in> measure unat" by (simp add: fold_halves)
qed simp

declare csum_fold.simps [simp del]

definition csum_finish :: "u32 \<Rightarrow> ovs_be16" where
  "csum_finish partial = NOT (ucast (csum_fold partial))"

definition csum :: "u8 list \<Rightarrow> ovs_be16" where
  "csum data = csum_finish (csum_continue 0 data)"

section \<open>Updates\<close>

definition recalc_csum16 :: "ovs_be16 \<Rightarrow> ovs_be16 \<Rightarrow> ovs_be16 \<Rightarrow> ovs_be16" where
  "recalc_csum16 old_csum old_u16 new_u16 =
     (let hc_complement = NOT old_csum; m_complement = NOT old_u16; m_prime = new_u16
      in csum_finish (ucast hc_complement + ucast m_complement + ucast m_prime))"

definition recalc_csum32 :: "ovs_be16 \<Rightarrow> ovs_be32 \<Rightarrow> ovs_be32 \<Rightarrow> ovs_be16" where
  "recalc_csum32 old_csum old_u32 new_u32 =
     recalc_csum16 (recalc_csum16 old_csum (ucast old_u32) (ucast new_u32))
       (ucast (drop_bit 16 old_u32)) (ucast (drop_bit 16 new_u32))"

text \<open>A MAC address is its three 16-bit parts, an IPv6 address its four 32-bit parts.\<close>

fun recalc_csum48 :: "ovs_be16 \<Rightarrow> ovs_be16 list \<Rightarrow> ovs_be16 list \<Rightarrow> ovs_be16" where
  "recalc_csum48 old_csum (a # as) (b # bs) = recalc_csum48 (recalc_csum16 old_csum a b) as bs"
| "recalc_csum48 old_csum _ _ = old_csum"

fun recalc_csum128 :: "ovs_be16 \<Rightarrow> ovs_be32 list \<Rightarrow> ovs_be32 list \<Rightarrow> ovs_be16" where
  "recalc_csum128 old_csum (a # as) (b # bs) = recalc_csum128 (recalc_csum32 old_csum a b) as bs"
| "recalc_csum128 old_csum _ _ = old_csum"

section \<open>The checksum as a number\<close>

text \<open>The sum of the 16-bit words of the data, and a number of 16 bits that is congruent to a sum
  modulo 65535 and zero only if the sum is zero.\<close>

fun word_sum :: "u8 list \<Rightarrow> nat" where
  "word_sum (a # b # data) = unat (le16 a b) + word_sum data"
| "word_sum [a] = unat a"
| "word_sum [] = 0"

definition ones_rep :: "nat \<Rightarrow> nat" where
  "ones_rep n = (if n = 0 then 0 else (n - 1) mod 65535 + 1)"

lemma ones_rep_less: "ones_rep n < 65536"
  by (simp add: ones_rep_def less_Suc_eq_le)

lemma ones_rep_small: "n < 65536 \<Longrightarrow> ones_rep n = n"
  by (auto simp: ones_rep_def)

lemma ones_rep_cong: "a mod 65535 = b mod 65535 \<Longrightarrow> (a = 0 \<longleftrightarrow> b = 0) \<Longrightarrow> ones_rep a = ones_rep b"
proof (cases "a = 0")
  case False
  assume "a mod 65535 = b mod 65535" "a = 0 \<longleftrightarrow> b = 0"
  with False obtain a' b' where "a = Suc a'" "b = Suc b'" "Suc a' mod 65535 = Suc b' mod 65535"
    by (metis not0_implies_Suc)
  moreover from this have "a' mod 65535 = b' mod 65535"
    using mod_add_cong[of "Suc a'" 65535 "Suc b'" 65534 65534] by simp
  ultimately show ?thesis by (simp add: ones_rep_def)
qed simp

lemma ones_rep_eq_0: "ones_rep n = 0 \<longleftrightarrow> n = 0"
  by (simp add: ones_rep_def)

lemma ones_rep_mod: "ones_rep n mod 65535 = n mod 65535"
  by (cases n) (simp_all add: ones_rep_def mod_Suc_eq)

lemma unat_csum_fold: "unat (csum_fold p) = ones_rep (unat p)"
proof (induction p rule: csum_fold.induct)
  case (1 p)
  show ?case
  proof (cases "drop_bit 16 p = 0")
    case True
    then have "unat p div 65536 = 0" by (simp add: high_zero)
    with True show ?thesis by (simp add: csum_fold.simps[of p] ones_rep_small)
  next
    case False
    have "(unat p mod 65536 + unat p div 65536) mod 65535 =
        (unat p mod 65536 + unat p div 65536 + unat p div 65536 * 65535) mod 65535"
      by (rule mod_mult_self1[symmetric])
    also have "unat p mod 65536 + unat p div 65536 + unat p div 65536 * 65535 = unat p"
      using div_mult_mod_eq[of "unat p" 65536] by linarith
    finally have "(unat p mod 65536 + unat p div 65536) mod 65535 = unat p mod 65535" .
    moreover have "unat p mod 65536 + unat p div 65536 = 0 \<longleftrightarrow> unat p = 0" by (auto simp: div_eq_0_iff)
    ultimately have "ones_rep (unat p mod 65536 + unat p div 65536) = ones_rep (unat p)" by (rule ones_rep_cong)
    with 1 False show ?thesis by (simp add: csum_fold.simps[of p] fold_halves)
  qed
qed

lemma unat_not16: "unat (NOT x) = 65535 - unat x" for x :: u16
proof -
  have "NOT x = - 1 - x" by (simp add: not_eq_complement)
  then show ?thesis by (simp add: unat_sub unsigned_minus_1_eq_mask mask_eq_exp_minus_1)
qed

lemma unat_csum_finish: "unat (csum_finish p) = 65535 - ones_rep (unat p)"
proof -
  have "unat (ucast (csum_fold p) :: u16) = ones_rep (unat p)"
    using ones_rep_less[of "unat p"] by (simp add: unsigned_ucast_eq unat_csum_fold take_bit_nat_eq_self)
  then show ?thesis by (simp add: csum_finish_def unat_not16)
qed

lemma word_sum_bound: "word_sum data \<le> 65535 * ((length data + 1) div 2)"
proof (induction data rule: word_sum.induct)
  case (1 a b data)
  have "unat (le16 a b) \<le> 65535" using unsigned_less[of "le16 a b", where ?'a = nat] by simp
  with 1 show ?case by simp
next
  case (2 a)
  have "unat a \<le> 255" using unsigned_less[of a, where ?'a = nat] by simp
  then show ?case by simp
qed simp

lemma unat_csum_continue:
  "unat p + word_sum data < 2 ^ 32 \<Longrightarrow> unat (csum_continue p data) = unat p + word_sum data"
proof (induction p data rule: csum_continue.induct)
  case (1 p a b data)
  have "unat (csum_add16 p (le16 a b)) = unat p + unat (le16 a b)"
    using 1(2) by (simp add: csum_add16_def unat_word_ariths(1) unsigned_ucast_eq take_bit_nat_eq_self)
  with 1 show ?case by simp
qed (simp_all add: unat_word_ariths(1) unsigned_ucast_eq take_bit_nat_eq_self)

text \<open>The checksum of at most 2^17 bytes, where the 32-bit sum cannot overflow.\<close>

lemma unat_csum:
  assumes "length data \<le> 2 ^ 17"
  shows "unat (csum data) = 65535 - ones_rep (word_sum data)"
proof -
  have "word_sum data \<le> 65535 * ((length data + 1) div 2)" by (rule word_sum_bound)
  also have "\<dots> \<le> 65535 * 65536" using assms by (intro mult_left_mono) auto
  finally have "word_sum data < 2 ^ 32" by simp
  then show ?thesis by (simp add: csum_def unat_csum_finish unat_csum_continue)
qed

section \<open>Updating is recomputing\<close>

lemma unat_recalc_csum16:
  "unat (NOT (recalc_csum16 c m m')) = ones_rep (unat (NOT c) + (65535 - unat m) + unat m')"
proof -
  have b: "unat x \<le> 65535" for x :: u16 using unsigned_less[of x, where ?'a = nat] by simp
  have "unat (ucast (NOT c) + ucast (NOT m) + ucast m' :: u32) = unat (NOT c) + (65535 - unat m) + unat m'"
    using b[of "NOT c"] b[of m] b[of m']
    by (simp add: unat_word_ariths(1) unsigned_ucast_eq take_bit_nat_eq_self unat_not16)
  moreover have "ones_rep n \<le> 65535" for n using ones_rep_less[of n] by simp
  ultimately show ?thesis by (simp add: recalc_csum16_def unat_not16 unat_csum_finish)
qed

text \<open>One step keeps the complement of the checksum congruent to the sum.\<close>

definition csum_of :: "ovs_be16 \<Rightarrow> nat \<Rightarrow> bool" where
  "csum_of c s \<longleftrightarrow> unat (NOT c) mod 65535 = s mod 65535 \<and> (unat (NOT c) = 0 \<longrightarrow> s = 0)"

lemma csum_of_exact: "csum_of c s \<Longrightarrow> s \<noteq> 0 \<Longrightarrow> unat (NOT c) = ones_rep s"
proof -
  assume a: "csum_of c s" "s \<noteq> 0"
  have "unat (NOT c) < 65536" using unsigned_less[of "NOT c", where ?'a = nat] by simp
  then have "unat (NOT c) = ones_rep (unat (NOT c))" by (simp add: ones_rep_small)
  also have "\<dots> = ones_rep s" using a by (intro ones_rep_cong) (auto simp: csum_of_def)
  finally show ?thesis .
qed

lemma csum_of_recalc:
  assumes "csum_of c (rest + unat m)"
  shows "csum_of (recalc_csum16 c m m') (rest + unat m')"
proof -
  let ?x = "unat (NOT c)" and ?s = "unat (NOT c) + (65535 - unat m) + unat m'"
  have m: "unat m \<le> 65535" using unsigned_less[of m, where ?'a = nat] by simp
  have "?x mod 65535 = (rest + unat m) mod 65535" using assms by (simp add: csum_of_def)
  from mod_add_cong[OF this, of "(65535 - unat m) + unat m'" "(65535 - unat m) + unat m'"]
  have "?s mod 65535 = (rest + unat m + ((65535 - unat m) + unat m')) mod 65535" by (simp add: add.assoc)
  also have "rest + unat m + ((65535 - unat m) + unat m') = rest + unat m' + 65535" using m by simp
  finally have "?s mod 65535 = (rest + unat m') mod 65535" by simp
  moreover have "?s \<noteq> 0"
  proof
    assume "?s = 0"
    with assms have "rest + unat m = 0" "65535 \<le> unat m" by (auto simp: csum_of_def)
    then show False by simp
  qed
  ultimately show ?thesis
    by (auto simp: csum_of_def unat_recalc_csum16 ones_rep_mod ones_rep_eq_0)
qed

lemma csum_of_recalc48:
  "length ms = length ms' \<Longrightarrow> csum_of c (rest + sum_list (map unat ms)) \<Longrightarrow>
     csum_of (recalc_csum48 c ms ms') (rest + sum_list (map unat ms'))"
proof (induction c ms ms' arbitrary: rest rule: recalc_csum48.induct)
  case (1 c a as b bs)
  from 1(3) have "csum_of c (rest + sum_list (map unat as) + unat a)" by (simp add: ac_simps)
  from csum_of_recalc[OF this, of b]
  have "csum_of (recalc_csum16 c a b) (rest + unat b + sum_list (map unat as))" by (simp add: ac_simps)
  with 1(1)[of "rest + unat b"] 1(2) show ?case by (simp add: ac_simps)
qed auto

text \<open>The bytes of a field of 16-bit or 32-bit words.\<close>

definition bytes16 :: "u16 list \<Rightarrow> u8 list" where
  "bytes16 ws = concat (map (\<lambda>w. [ucast w, ucast (drop_bit 8 w)]) ws)"

definition halves :: "u32 list \<Rightarrow> u16 list" where
  "halves xs = concat (map (\<lambda>x. [ucast x, ucast (drop_bit 16 x)]) xs)"

lemma le16_bytes16: "le16 (ucast w) (ucast (drop_bit 8 w)) = w"
  unfolding le16_def by (rule bit_word_eqI) (auto simp: bit_simps)

lemma word_sum_append: "even (length xs) \<Longrightarrow> word_sum (xs @ ys) = word_sum xs + word_sum ys"
  by (induction xs rule: word_sum.induct) auto

lemma word_sum_bytes16: "word_sum (bytes16 ws @ ys) = sum_list (map unat ws) + word_sum ys"
  by (induction ws) (simp_all add: bytes16_def le16_bytes16)

lemma length_bytes16 [simp]: "length (bytes16 ws) = 2 * length ws"
  by (induction ws) (simp_all add: bytes16_def)

lemma csum_of_csum: "length data \<le> 2 ^ 17 \<Longrightarrow> csum_of (csum data) (word_sum data)"
  using unat_csum[of data] ones_rep_less[of "word_sum data"]
  by (auto simp: csum_of_def unat_not16 ones_rep_mod ones_rep_eq_0)

lemma csum_unique:
  assumes "csum_of c (word_sum data)" and "length data \<le> 2 ^ 17" and "word_sum data \<noteq> 0"
  shows "c = csum data"
proof -
  have "NOT c = NOT (csum data)"
    using csum_of_exact[OF assms(1,3)] csum_of_exact[OF csum_of_csum[OF assms(2)] assms(3)]
    by (simp add: word_unat_eq_iff)
  then show ?thesis by (metis bit.double_compl)
qed

lemma recalc_csum48_csum:
  assumes "length (pre @ bytes16 ms @ post) \<le> 2 ^ 17" and "even (length pre)" and "length ms = length ms'"
    and "word_sum (pre @ bytes16 ms' @ post) \<noteq> 0"
  shows "recalc_csum48 (csum (pre @ bytes16 ms @ post)) ms ms' = csum (pre @ bytes16 ms' @ post)"
proof (rule csum_unique)
  have s: "word_sum (pre @ bytes16 ws @ post) = word_sum pre + word_sum post + sum_list (map unat ws)" for ws
    using assms(2) by (simp add: word_sum_append word_sum_bytes16)
  show "csum_of (recalc_csum48 (csum (pre @ bytes16 ms @ post)) ms ms') (word_sum (pre @ bytes16 ms' @ post))"
    unfolding s by (rule csum_of_recalc48[OF assms(3)]) (use csum_of_csum[OF assms(1)] in \<open>simp add: s\<close>)
  show "length (pre @ bytes16 ms' @ post) \<le> 2 ^ 17" using assms(1,3) by simp
qed (rule assms(4))

text \<open>The other updates are this one.\<close>

lemma recalc_csum16_48: "recalc_csum16 c m m' = recalc_csum48 c [m] [m']"
  by simp

lemma recalc_csum128_48: "recalc_csum128 c xs ys = recalc_csum48 c (halves xs) (halves ys)" if "length xs = length ys"
  using that by (induction c xs ys rule: recalc_csum128.induct) (auto simp: halves_def recalc_csum32_def)

lemma length_halves [simp]: "length (halves xs) = 2 * length xs"
  by (induction xs) (simp_all add: halves_def)

end
