(* ===== verification/Byteq.thy ===== *)
theory Byteq
  imports Ovs_Prelude
begin

text \<open>
  The circular byte queue of \<^verbatim>\<open>lib/byteq.c\<close>. Head and tail are 32-bit counters that are never
  reduced: they wrap around, and their low bits index the buffer. The queue refines a list of bytes.
\<close>

unbundle bit_operations_syntax

section \<open>The queue\<close>

record byteq =
  bq_buffer :: "u8 list"
  bq_size :: u32
  bq_head :: u32
  bq_tail :: u32

definition is_pow2_uint :: "u32 \<Rightarrow> bool" where
  "is_pow2_uint x \<longleftrightarrow> x \<noteq> 0 \<and> x AND (x - 1) = 0"

definition byteq_init :: "u8 list \<Rightarrow> u32 \<Rightarrow> byteq result" where
  "byteq_init buffer sz =
     (if \<not> is_pow2_uint sz then Inl Assert_Fail
      else Inr \<lparr>bq_buffer = buffer, bq_size = sz, bq_head = 0, bq_tail = 0\<rparr>)"

text \<open>These return \<^verbatim>\<open>int\<close>: an unsigned difference read as a signed number.\<close>

definition byteq_used :: "byteq \<Rightarrow> int" where
  "byteq_used q = sint (bq_head q - bq_tail q)"

definition byteq_avail :: "byteq \<Rightarrow> int" where
  "byteq_avail q = sint (bq_size q - word_of_int (byteq_used q))"

definition byteq_is_empty :: "byteq \<Rightarrow> bool" where
  "byteq_is_empty q \<longleftrightarrow> byteq_used q = 0"

definition byteq_is_full :: "byteq \<Rightarrow> bool" where
  "byteq_is_full q \<longleftrightarrow> byteq_avail q = 0"

text \<open>The index in the buffer that \<open>byteq_head()\<close> and \<open>byteq_tail()\<close> point to.\<close>

definition byteq_head :: "byteq \<Rightarrow> nat" where
  "byteq_head q = unat (bq_head q AND (bq_size q - 1))"

definition byteq_tail :: "byteq \<Rightarrow> nat" where
  "byteq_tail q = unat (bq_tail q AND (bq_size q - 1))"

definition byteq_headroom :: "byteq \<Rightarrow> int" where
  "byteq_headroom q =
     (let avail = byteq_avail q; head_to_end = sint (bq_size q - (bq_head q AND (bq_size q - 1)))
      in min avail head_to_end)"

definition byteq_tailroom :: "byteq \<Rightarrow> int" where
  "byteq_tailroom q =
     (let used = byteq_used q; tail_to_end = sint (bq_size q - (bq_tail q AND (bq_size q - 1)))
      in min used tail_to_end)"

text \<open>The assertions compare an \<^verbatim>\<open>int\<close> with an unsigned number, so as unsigned numbers.\<close>

definition byteq_advance_head :: "byteq \<Rightarrow> u32 \<Rightarrow> byteq result" where
  "byteq_advance_head q n =
     (if \<not> word_of_int (byteq_headroom q) \<ge> n then Inl Assert_Fail
      else Inr (q\<lparr>bq_head := bq_head q + n\<rparr>))"

definition byteq_advance_tail :: "byteq \<Rightarrow> u32 \<Rightarrow> byteq result" where
  "byteq_advance_tail q n =
     (if \<not> word_of_int (byteq_tailroom q) \<ge> n then Inl Assert_Fail
      else Inr (q\<lparr>bq_tail := bq_tail q + n\<rparr>))"

text \<open>Writing bytes into the buffer; outside of it is a wild pointer.\<close>

definition buffer_write :: "u8 list \<Rightarrow> nat \<Rightarrow> u8 list \<Rightarrow> u8 list result" where
  "buffer_write buf i xs =
     (if i + length xs \<le> length buf then Inr (take i buf @ xs @ drop (i + length xs) buf) else Inl Wild_Pointer)"

definition byteq_put :: "byteq \<Rightarrow> u8 \<Rightarrow> byteq result" where
  "byteq_put q c =
     (if byteq_is_full q then Inl Assert_Fail
      else rbind (buffer_write (bq_buffer q) (byteq_head q) [c]) (\<lambda>buf.
           Inr (q\<lparr>bq_buffer := buf, bq_head := bq_head q + 1\<rparr>)))"

text \<open>A round that copies nothing would be repeated forever.\<close>

function putn_loop :: "byteq \<Rightarrow> u8 list \<Rightarrow> byteq result" where
  "putn_loop q p =
     (if p = [] then Inr q
      else let chunk = unat (min (of_nat (length p)) (word_of_int (byteq_headroom q) :: u64)) in
           if chunk = 0 then Inl No_Return
           else rbind (buffer_write (bq_buffer q) (byteq_head q) (take chunk p)) (\<lambda>buf.
                rbind (byteq_advance_head (q\<lparr>bq_buffer := buf\<rparr>) (of_nat chunk)) (\<lambda>q.
                putn_loop q (drop chunk p))))"
  by pat_completeness auto
termination by (relation "measure (\<lambda>(q, p). length p)") auto

declare putn_loop.simps [simp del]

definition byteq_putn :: "byteq \<Rightarrow> u8 list \<Rightarrow> byteq result" where
  "byteq_putn q p =
     (if \<not> (word_of_int (byteq_avail q) :: u64) \<ge> of_nat (length p) then Inl Assert_Fail else putn_loop q p)"

definition byteq_get :: "byteq \<Rightarrow> (u8 \<times> byteq) result" where
  "byteq_get q =
     (if byteq_is_empty q then Inl Assert_Fail
      else if byteq_tail q < length (bq_buffer q)
      then Inr (bq_buffer q ! byteq_tail q, q\<lparr>bq_tail := bq_tail q + 1\<rparr>) else Inl Wild_Pointer)"

text \<open>\<open>byteq_write()\<close> and \<open>byteq_read()\<close>: what the calls to \<^verbatim>\<open>write()\<close> and \<^verbatim>\<open>read()\<close> do is given, one entry
  for each call. \<open>Inl n\<close> accepts at most \<open>n\<close> of the bytes offered and \<open>Inl bs\<close> delivers the bytes \<open>bs\<close>,
  as far as there is room; \<open>Inr errno\<close> fails. With no entry left the call has not returned yet and
  the result is \<open>None\<close>.\<close>

fun byteq_write :: "byteq \<Rightarrow> (nat + int) list \<Rightarrow> (u8 list \<times> int option \<times> byteq) result" where
  "byteq_write q rs =
     (if byteq_is_empty q then Inr ([], Some 0, q)
      else case rs of
        [] \<Rightarrow> Inr ([], None, q)
      | Inr errno # rs \<Rightarrow> Inr ([], Some errno, q)
      | Inl m # rs \<Rightarrow>
          let n = min m (nat (byteq_tailroom q)) in
          if n = 0 then Inl Assert_Fail
          else let out = take n (drop (byteq_tail q) (bq_buffer q)) in
               rbind (byteq_advance_tail q (of_nat n)) (\<lambda>q.
               rbind (byteq_write q rs) (\<lambda>(outs, e, q). Inr (out @ outs, e, q))))"

definition EOF :: int where
  "EOF = - 1"

fun byteq_read :: "byteq \<Rightarrow> (u8 list + int) list \<Rightarrow> (int option \<times> byteq) result" where
  "byteq_read q rs =
     (if byteq_is_full q then Inr (Some 0, q)
      else case rs of
        [] \<Rightarrow> Inr (None, q)
      | Inr errno # rs \<Rightarrow> Inr (Some errno, q)
      | Inl bs # rs \<Rightarrow>
          let bs = take (nat (byteq_headroom q)) bs in
          if bs = [] then Inr (Some EOF, q)
          else rbind (buffer_write (bq_buffer q) (byteq_head q) bs) (\<lambda>buf.
               rbind (byteq_advance_head (q\<lparr>bq_buffer := buf\<rparr>) (of_nat (length bs))) (\<lambda>q.
               byteq_read q rs)))"

declare byteq_read.simps [simp del]
declare byteq_write.simps [simp del]

section \<open>The invariant and the list of bytes\<close>

definition byteq_ok :: "byteq \<Rightarrow> bool" where
  "byteq_ok q \<longleftrightarrow> (\<exists>k \<le> 30. bq_size q = 2 ^ k) \<and> length (bq_buffer q) = unat (bq_size q) \<and>
     bq_head q - bq_tail q \<le> bq_size q"

definition bq_index :: "byteq \<Rightarrow> nat \<Rightarrow> nat" where
  "bq_index q i = (unat (bq_tail q) + i) mod unat (bq_size q)"

definition bq_len :: "byteq \<Rightarrow> nat" where
  "bq_len q = unat (bq_head q - bq_tail q)"

definition byteq_list :: "byteq \<Rightarrow> u8 list" where
  "byteq_list q = map (\<lambda>i. bq_buffer q ! bq_index q i) [0..<bq_len q]"

lemma length_byteq_list [simp]: "length (byteq_list q) = bq_len q"
  by (simp add: byteq_list_def)

lemma byteq_okE:
  assumes "byteq_ok q"
  obtains k where "k \<le> 30" and "unat (bq_size q) = 2 ^ k" and "bq_size q = 2 ^ k"
    and "length (bq_buffer q) = 2 ^ k" and "bq_len q \<le> 2 ^ k" and "(2 :: nat) ^ k dvd 2 ^ 32" and "(2 :: nat) ^ k \<le> 2 ^ 30"
proof -
  from assms obtain k where k: "k \<le> 30" "bq_size q = 2 ^ k" "length (bq_buffer q) = unat (bq_size q)"
    "bq_head q - bq_tail q \<le> bq_size q" by (auto simp: byteq_ok_def)
  have le: "(2 :: nat) ^ k \<le> 2 ^ 30" using k(1) by (intro power_increasing) auto
  have "bq_size q = of_nat (2 ^ k)" using k(2) by simp
  then have "unat (bq_size q) = 2 ^ k" using le by (simp only: unat_of_nat) (simp add: take_bit_nat_eq_self)
  moreover note le
  moreover have "(2 :: nat) ^ k dvd 2 ^ 32" using k(1) by (intro le_imp_power_dvd) auto
  ultimately show ?thesis using that[of k] k by (simp add: bq_len_def word_le_nat_alt)
qed

lemma unat_and_size:
  assumes "byteq_ok q"
  shows "unat (x AND (bq_size q - 1)) = unat x mod unat (bq_size q)"
proof -
  from byteq_okE[OF assms] obtain k where k: "k \<le> 30" "unat (bq_size q) = 2 ^ k" "bq_size q = 2 ^ k" by metis
  then have "x AND (bq_size q - 1) = take_bit k x" by (simp add: take_bit_eq_mask mask_eq_exp_minus_1)
  then show ?thesis using k(2) by (simp only: unsigned_take_bit_eq) (simp add: take_bit_eq_mod)
qed

lemma sint_small: "unat x < 2 ^ 31 \<Longrightarrow> sint x = int (unat x)" for x :: u32
proof -
  assume "unat x < 2 ^ 31"
  then have "int (unat x) < int (2 ^ 31)" by (simp only: of_nat_less_iff)
  then have "uint x < 2 ^ 31" by simp
  moreover have "- (2 ^ 31) \<le> uint x" by (rule order.trans[of _ 0]) simp_all
  ultimately show ?thesis by (simp add: sint_uint signed_take_bit_int_eq_self)
qed

lemma byteq_used_len: "byteq_ok q \<Longrightarrow> byteq_used q = int (bq_len q)"
  by (erule byteq_okE) (simp add: byteq_used_def bq_len_def sint_small)

lemma byteq_avail_len: "byteq_ok q \<Longrightarrow> byteq_avail q = int (unat (bq_size q) - bq_len q)"
proof (erule byteq_okE)
  fix k assume k: "unat (bq_size q) = 2 ^ k" "bq_len q \<le> 2 ^ k" "(2 :: nat) ^ k \<le> 2 ^ 30"
  have w: "word_of_int (byteq_used q) = bq_head q - bq_tail q" by (simp add: byteq_used_def)
  have "unat (bq_size q - (bq_head q - bq_tail q)) = unat (bq_size q) - bq_len q"
    using k by (simp add: unat_sub word_le_nat_alt bq_len_def)
  then show "byteq_avail q = int (unat (bq_size q) - bq_len q)"
    unfolding byteq_avail_def w using k by (subst sint_small) auto
qed

lemma bq_index_head: "byteq_ok q \<Longrightarrow> byteq_head q = bq_index q (bq_len q)"
proof -
  assume ok: "byteq_ok q"
  then obtain k where k: "unat (bq_size q) = 2 ^ k" "(2 :: nat) ^ k dvd 2 ^ 32" by (rule byteq_okE)
  have "bq_head q = bq_tail q + (bq_head q - bq_tail q)" by simp
  then have "unat (bq_head q) = (unat (bq_tail q) + bq_len q) mod 2 ^ 32"
    unfolding bq_len_def using unat_word_ariths(1)[of "bq_tail q" "bq_head q - bq_tail q"] by simp
  then have "unat (bq_head q) mod 2 ^ k = (unat (bq_tail q) + bq_len q) mod 2 ^ k"
    using k(2) by (simp add: mod_mod_cancel)
  then show ?thesis using k(1) by (simp add: byteq_head_def unat_and_size[OF ok] bq_index_def)
qed

lemma bq_index_tail: "byteq_ok q \<Longrightarrow> byteq_tail q = bq_index q 0"
  by (simp add: byteq_tail_def unat_and_size bq_index_def)

lemma bq_index_bound: "byteq_ok q \<Longrightarrow> bq_index q i < length (bq_buffer q)"
  by (erule byteq_okE) (simp add: bq_index_def)

text \<open>The contiguous room at either end.\<close>

lemma to_end: "byteq_ok q \<Longrightarrow> sint (bq_size q - (x AND (bq_size q - 1))) = int (unat (bq_size q) - unat x mod unat (bq_size q))"
proof -
  assume ok: "byteq_ok q"
  then obtain k where k: "unat (bq_size q) = 2 ^ k" "(2 :: nat) ^ k \<le> 2 ^ 30" by (rule byteq_okE)
  have "unat x mod 2 ^ k < 2 ^ k" by simp
  then have "unat (bq_size q - (x AND (bq_size q - 1))) = unat (bq_size q) - unat x mod unat (bq_size q)"
    using unat_and_size[OF ok, of x] k by (simp add: unat_sub word_le_nat_alt)
  with k show ?thesis
    by (subst sint_small) auto
qed

lemma byteq_headroom_eq:
  "byteq_ok q \<Longrightarrow> byteq_headroom q = int (min (unat (bq_size q) - bq_len q) (unat (bq_size q) - byteq_head q))"
  by (simp add: byteq_headroom_def Let_def byteq_avail_len to_end byteq_head_def unat_and_size of_nat_min)

lemma byteq_tailroom_eq:
  "byteq_ok q \<Longrightarrow> byteq_tailroom q = int (min (bq_len q) (unat (bq_size q) - byteq_tail q))"
  by (simp add: byteq_tailroom_def Let_def byteq_used_len to_end byteq_tail_def unat_and_size of_nat_min)

section \<open>Refinement of a list\<close>

lemma mod_offset:
  fixes s :: nat
  assumes "h = (t + u) mod s" and "h + j < s"
  shows "(t + (u + j)) mod s = h + j"
proof -
  have "(t + (u + j)) mod s = ((t + u) mod s + j) mod s" by (simp add: add.assoc mod_add_left_eq)
  with assms show ?thesis by simp
qed

lemma mod_distinct:
  fixes s :: nat
  assumes "i < d" and "d < i + s"
  shows "(t + i) mod s \<noteq> (t + d) mod s"
proof
  assume "(t + i) mod s = (t + d) mod s"
  then have "s dvd d - i" using assms(1) mod_eq_dvd_iff_nat[of "t + i" "t + d" s] by simp
  with assms show False by (auto dest: dvd_imp_le)
qed

text \<open>Bytes written at the head without wrapping are appended to the list.\<close>

lemma append_at_head:
  assumes ok: "byteq_ok q" and fits: "bq_len q + length xs \<le> unat (bq_size q)"
    and room: "byteq_head q + length xs \<le> unat (bq_size q)"
    and w: "buffer_write (bq_buffer q) (byteq_head q) xs = Inr buf"
  shows "byteq_ok (q\<lparr>bq_buffer := buf, bq_head := bq_head q + of_nat (length xs)\<rparr>)"
    and "byteq_list (q\<lparr>bq_buffer := buf, bq_head := bq_head q + of_nat (length xs)\<rparr>) = byteq_list q @ xs"
proof -
  from byteq_okE[OF ok] obtain k where k: "k \<le> 30" "unat (bq_size q) = 2 ^ k" "bq_size q = 2 ^ k"
    "length (bq_buffer q) = 2 ^ k" "(2 :: nat) ^ k \<le> 2 ^ 30" by metis
  let ?q = "q\<lparr>bq_buffer := buf, bq_head := bq_head q + of_nat (length xs)\<rparr>" and ?h = "byteq_head q"
  have buf: "buf = take ?h (bq_buffer q) @ xs @ drop (?h + length xs) (bq_buffer q)"
    using w by (auto simp: buffer_write_def split: if_splits)
  have small: "length xs < 2 ^ 32" using fits k by simp
  have "bq_head ?q - bq_tail ?q = (bq_head q - bq_tail q) + of_nat (length xs)" by simp
  moreover have "unat ((bq_head q - bq_tail q) + of_nat (length xs)) = bq_len q + length xs"
    using fits k small unfolding bq_len_def unat_word_ariths(1)
    by (simp add: unat_of_nat take_bit_nat_eq_self)
  ultimately have len: "bq_len ?q = bq_len q + length xs" by (simp only: bq_len_def)
  have lb: "length buf = 2 ^ k" using buf room k by simp
  show "byteq_ok ?q"
    using k fits len lb by (auto simp: byteq_ok_def word_le_nat_alt bq_len_def)
  have h: "?h = (unat (bq_tail q) + bq_len q) mod 2 ^ k" using bq_index_head[OF ok] k by (simp add: bq_index_def)
  show "byteq_list ?q = byteq_list q @ xs"
  proof (rule nth_equalityI)
    show "length (byteq_list ?q) = length (byteq_list q @ xs)" by (simp add: len)
    fix i assume "i < length (byteq_list ?q)"
    then have i: "i < bq_len q + length xs" by (simp add: len)
    let ?j = "(unat (bq_tail q) + i) mod 2 ^ k"
    have l: "byteq_list ?q ! i = buf ! ?j" using i len k by (simp add: byteq_list_def bq_index_def)
    show "byteq_list ?q ! i = (byteq_list q @ xs) ! i"
    proof (cases "i < bq_len q")
      case True
      have "?j \<noteq> ?h + d" if "d < length xs" for d
      proof -
        have "(unat (bq_tail q) + (bq_len q + d)) mod 2 ^ k = ?h + d"
          using that room k by (intro mod_offset[OF h]) simp
        moreover have "?j \<noteq> (unat (bq_tail q) + (bq_len q + d)) mod 2 ^ k"
          using True that fits k by (intro mod_distinct) auto
        ultimately show ?thesis by simp
      qed
      then have "?j < ?h \<or> ?h + length xs \<le> ?j" by (metis le_add_diff_inverse not_le add_less_cancel_left)
      then have "buf ! ?j = bq_buffer q ! ?j"
        using room k by (auto simp: buf nth_append)
      with True l k show ?thesis by (simp add: nth_append byteq_list_def bq_index_def)
    next
      case False
      then obtain d where d: "i = bq_len q + d" "d < length xs"
        using i by (metis le_Suc_ex not_less nat_add_left_cancel_less)
      have "?j = ?h + d" unfolding d(1) using d(2) room k by (intro mod_offset[OF h]) simp
      moreover have "?h \<le> length (bq_buffer q)" using room k by simp
      ultimately have "buf ! ?j = xs ! d" using d(2) by (simp add: buf nth_append min_def)
      with d l show ?thesis by (simp add: nth_append)
    qed
  qed
qed

lemma drop_at_tail:
  assumes ok: "byteq_ok q" and n: "n \<le> bq_len q"
  shows "byteq_ok (q\<lparr>bq_tail := bq_tail q + of_nat n\<rparr>)"
    and "byteq_list (q\<lparr>bq_tail := bq_tail q + of_nat n\<rparr>) = drop n (byteq_list q)"
proof -
  from byteq_okE[OF ok] obtain k where k: "k \<le> 30" "unat (bq_size q) = 2 ^ k" "bq_size q = 2 ^ k"
    "length (bq_buffer q) = 2 ^ k" "bq_len q \<le> 2 ^ k" "(2 :: nat) ^ k dvd 2 ^ 32" "(2 :: nat) ^ k \<le> 2 ^ 30" by metis
  let ?q = "q\<lparr>bq_tail := bq_tail q + of_nat n\<rparr>"
  have un: "unat (of_nat n :: u32) = n" using n k by (simp add: unat_of_nat take_bit_nat_eq_self)
  have "bq_head ?q - bq_tail ?q = (bq_head q - bq_tail q) - of_nat n" by simp
  moreover have "unat ((bq_head q - bq_tail q) - of_nat n) = bq_len q - n"
    using n un by (simp add: unat_sub word_le_nat_alt bq_len_def)
  ultimately have len: "bq_len ?q = bq_len q - n" by (simp only: bq_len_def)
  show "byteq_ok ?q" using k len by (auto simp: byteq_ok_def word_le_nat_alt bq_len_def)
  have "unat (bq_tail q + of_nat n) mod 2 ^ k = (unat (bq_tail q) + n) mod 2 ^ k"
    using k(6) un by (simp add: unat_word_ariths(1) mod_mod_cancel)
  then have "bq_index ?q i = bq_index q (n + i)" for i
    using k(2) by (simp add: bq_index_def) (metis add.assoc mod_add_left_eq)
  then show "byteq_list ?q = drop n (byteq_list q)"
    by (intro nth_equalityI) (auto simp: len byteq_list_def)
qed

lemma bq_len_le: "byteq_ok q \<Longrightarrow> bq_len q \<le> unat (bq_size q)"
  by (simp add: byteq_ok_def bq_len_def word_le_nat_alt)

lemma byteq_full_iff: "byteq_ok q \<Longrightarrow> byteq_is_full q \<longleftrightarrow> bq_len q = unat (bq_size q)"
proof -
  assume ok: "byteq_ok q"
  have "byteq_is_full q \<longleftrightarrow> unat (bq_size q) - bq_len q = 0"
    unfolding byteq_is_full_def byteq_avail_len[OF ok] by (rule of_nat_eq_0_iff)
  with bq_len_le[OF ok] show ?thesis by linarith
qed

lemma byteq_empty_iff: "byteq_ok q \<Longrightarrow> byteq_is_empty q \<longleftrightarrow> byteq_list q = []"
  by (simp add: byteq_is_empty_def byteq_used_len byteq_list_def)

lemma byteq_put_ok:
  assumes ok: "byteq_ok q" and room: "bq_len q < unat (bq_size q)"
  shows "\<exists>q'. byteq_put q c = Inr q' \<and> byteq_ok q' \<and> byteq_list q' = byteq_list q @ [c] \<and> bq_size q' = bq_size q"
proof -
  have h: "byteq_head q + length [c] \<le> unat (bq_size q)"
    using bq_index_bound[OF ok, of "bq_len q"] bq_index_head[OF ok] ok by (simp add: byteq_ok_def)
  then obtain buf where w: "buffer_write (bq_buffer q) (byteq_head q) [c] = Inr buf"
    using ok by (auto simp: buffer_write_def byteq_ok_def)
  have "bq_len q + length [c] \<le> unat (bq_size q)" using room by simp
  from append_at_head[OF ok this h w] show ?thesis
    using room w byteq_full_iff[OF ok] by (simp add: byteq_put_def)
qed

lemma byteq_get_ok:
  assumes ok: "byteq_ok q" and list: "byteq_list q = c # cs"
  shows "\<exists>q'. byteq_get q = Inr (c, q') \<and> byteq_ok q' \<and> byteq_list q' = cs \<and> bq_size q' = bq_size q"
proof -
  have len: "1 \<le> bq_len q" using list by (metis length_byteq_list length_Cons le_add2 Suc_eq_plus1)
  have "c = byteq_list q ! 0" using list by simp
  also have "\<dots> = bq_buffer q ! byteq_tail q" using len by (simp add: byteq_list_def bq_index_tail[OF ok])
  finally have "bq_buffer q ! byteq_tail q = c" by simp
  moreover have "byteq_tail q < length (bq_buffer q)" using bq_index_bound[OF ok, of 0] bq_index_tail[OF ok] by simp
  ultimately show ?thesis
    using drop_at_tail[OF ok len] list byteq_empty_iff[OF ok] by (simp add: byteq_get_def)
qed

text \<open>Several bytes at once, in one or two pieces.\<close>

lemma byteq_advance_head_ok:
  assumes "byteq_ok q" and "bq_len q + n \<le> unat (bq_size q)" and "byteq_head q + n \<le> unat (bq_size q)"
    and "length buf = length (bq_buffer q)"
  shows "byteq_advance_head (q\<lparr>bq_buffer := buf\<rparr>) (of_nat n) = Inr (q\<lparr>bq_buffer := buf, bq_head := bq_head q + of_nat n\<rparr>)"
proof -
  let ?q = "q\<lparr>bq_buffer := buf\<rparr>"
  have ok: "byteq_ok ?q" using assms(1,4) by (simp add: byteq_ok_def)
  obtain k where k: "unat (bq_size q) = 2 ^ k" "(2 :: nat) ^ k \<le> 2 ^ 30" using assms(1) by (rule byteq_okE)
  let ?r = "min (unat (bq_size q) - bq_len q) (unat (bq_size q) - byteq_head q)"
  have "byteq_headroom ?q = int ?r"
    using byteq_headroom_eq[OF ok] by (simp add: bq_len_def byteq_head_def)
  moreover have "?r \<le> 2 ^ 30" "n \<le> ?r" "n < 2 ^ 32" using assms(2,3) k by auto
  ultimately show ?thesis
    by (simp add: byteq_advance_head_def word_le_nat_alt unat_of_nat take_bit_nat_eq_self del: of_nat_min)
qed

lemma putn_loop_ok:
  "byteq_ok q \<Longrightarrow> bq_len q + length p \<le> unat (bq_size q) \<Longrightarrow>
     \<exists>q'. putn_loop q p = Inr q' \<and> byteq_ok q' \<and> byteq_list q' = byteq_list q @ p \<and> bq_size q' = bq_size q"
proof (induction p arbitrary: q rule: length_induct)
  case (1 p)
  show ?case
  proof (cases "p = []")
    case False
    obtain k where k: "unat (bq_size q) = 2 ^ k" "(2 :: nat) ^ k \<le> 2 ^ 30" using 1(2) by (rule byteq_okE)
    have h: "byteq_head q < unat (bq_size q)"
      using bq_index_bound[OF 1(2), of "bq_len q"] bq_index_head[OF 1(2)] 1(2) by (simp add: byteq_ok_def)
    have pos: "bq_len q < unat (bq_size q)" using False 1(3) by (cases p) simp_all
    let ?r = "min (unat (bq_size q) - bq_len q) (unat (bq_size q) - byteq_head q)"
    have r: "byteq_headroom q = int ?r" "?r \<le> 2 ^ 30" "0 < ?r"
      using byteq_headroom_eq[OF 1(2)] k h pos by auto
    define chunk where "chunk = min (length p) ?r"
    have c: "unat (min (of_nat (length p)) (word_of_int (byteq_headroom q) :: u64)) = chunk"
      using r(2) 1(3) k unfolding r(1) chunk_def
      by (simp add: min_def word_le_nat_alt unat_of_nat take_bit_nat_eq_self del: of_nat_min)
    have c0: "0 < chunk" "chunk \<le> length p" "bq_len q + chunk \<le> unat (bq_size q)" "byteq_head q + chunk \<le> unat (bq_size q)"
      using r(3) False h by (auto simp: chunk_def)
    obtain buf where w: "buffer_write (bq_buffer q) (byteq_head q) (take chunk p) = Inr buf"
      "length buf = length (bq_buffer q)"
      using c0 1(2) by (auto simp: buffer_write_def byteq_ok_def)
    let ?q = "q\<lparr>bq_buffer := buf, bq_head := bq_head q + of_nat chunk\<rparr>"
    have l: "length (take chunk p) = chunk" using c0(2) by simp
    have A: "byteq_ok ?q" "byteq_list ?q = byteq_list q @ take chunk p"
      using append_at_head[OF 1(2) _ _ w(1)] c0(3,4) unfolding l by auto
    have "bq_len ?q = bq_len q + chunk" using arg_cong[OF A(2), of length] c0(2) by simp
    then have "bq_len ?q + length (drop chunk p) \<le> unat (bq_size ?q)" using 1(3) c0(2) by simp
    moreover have "length (drop chunk p) < length p" using c0 False by simp
    ultimately obtain q' where q': "putn_loop ?q (drop chunk p) = Inr q'" "byteq_ok q'"
      "byteq_list q' = byteq_list ?q @ drop chunk p" "bq_size q' = bq_size ?q"
      using 1(1) A(1) by blast
    have "putn_loop q p = Inr q'"
      using False c c0(1) w q'(1) byteq_advance_head_ok[OF 1(2) c0(3,4) w(2)]
      by (simp add: putn_loop.simps[of q p] Let_def)
    with q' A(2) show ?thesis by simp
  qed (use 1 in \<open>simp add: putn_loop.simps\<close>)
qed

lemma byteq_putn_ok:
  assumes ok: "byteq_ok q" and room: "bq_len q + length p \<le> unat (bq_size q)"
  shows "\<exists>q'. byteq_putn q p = Inr q' \<and> byteq_ok q' \<and> byteq_list q' = byteq_list q @ p \<and> bq_size q' = bq_size q"
proof -
  obtain k where k: "unat (bq_size q) = 2 ^ k" "(2 :: nat) ^ k \<le> 2 ^ 30" using ok by (rule byteq_okE)
  let ?a = "unat (bq_size q) - bq_len q"
  have "?a < 2 ^ 64" "length p < 2 ^ 64" "length p \<le> ?a" using room k by auto
  then have "(word_of_int (byteq_avail q) :: u64) \<ge> of_nat (length p)"
    unfolding byteq_avail_len[OF ok] by (simp add: word_le_nat_alt unat_of_nat take_bit_nat_eq_self del: of_nat_diff)
  with putn_loop_ok[OF assms] show ?thesis by (simp add: byteq_putn_def)
qed

text \<open>Whatever \<^verbatim>\<open>write()\<close> accepts, the bytes handed over are the first ones of the queue and the rest
  stays queued; whatever \<^verbatim>\<open>read()\<close> delivers is appended.\<close>

lemma byteq_tail_chunk:
  assumes ok: "byteq_ok q" and n: "n \<le> nat (byteq_tailroom q)"
  shows "take n (drop (byteq_tail q) (bq_buffer q)) = take n (byteq_list q)"
    and "byteq_advance_tail q (of_nat n) = Inr (q\<lparr>bq_tail := bq_tail q + of_nat n\<rparr>)"
proof -
  obtain k where k: "unat (bq_size q) = 2 ^ k" "length (bq_buffer q) = 2 ^ k" "(2 :: nat) ^ k \<le> 2 ^ 30"
    using ok by (rule byteq_okE)
  let ?r = "min (bq_len q) (unat (bq_size q) - byteq_tail q)"
  have r: "byteq_tailroom q = int ?r" by (rule byteq_tailroom_eq[OF ok])
  then have n': "n \<le> ?r" "?r \<le> 2 ^ 30" "n < 2 ^ 32" using n k by auto
  then show "byteq_advance_tail q (of_nat n) = Inr (q\<lparr>bq_tail := bq_tail q + of_nat n\<rparr>)"
    unfolding byteq_advance_tail_def r
    by (simp add: word_le_nat_alt unat_of_nat take_bit_nat_eq_self del: of_nat_min)
  have t: "byteq_tail q = unat (bq_tail q) mod 2 ^ k" using bq_index_tail[OF ok] k by (simp add: bq_index_def)
  have "bq_index q i = byteq_tail q + i" if "i < n" for i
  proof -
    have "byteq_tail q + i < 2 ^ k" using that n'(1) k by auto
    then show ?thesis using mod_offset[of "byteq_tail q" "unat (bq_tail q)" 0 "2 ^ k" i] t k by (simp add: bq_index_def)
  qed
  then show "take n (drop (byteq_tail q) (bq_buffer q)) = take n (byteq_list q)"
    using n'(1) k by (intro nth_equalityI) (auto simp: byteq_list_def)
qed

lemma byteq_write_ok:
  "byteq_ok q \<Longrightarrow> byteq_write q rs = Inr (out, e, q') \<Longrightarrow> byteq_ok q' \<and> byteq_list q = out @ byteq_list q'"
proof (induction rs arbitrary: q out)
  case Nil
  then show ?case
    by (auto simp: byteq_write.simps[of q "[]"] byteq_empty_iff split: if_splits)
next
  case (Cons r rs)
  show ?case
  proof (cases "byteq_is_empty q \<or> (\<exists>errno. r = Inr errno)")
    case True
    with Cons(2,3) show ?thesis by (cases r) (auto simp: byteq_write.simps[of q "_ # rs"] byteq_empty_iff split: if_splits)
  next
    case False
    then obtain m where m: "r = Inl m" by (cases r) auto
    let ?n = "min m (nat (byteq_tailroom q))"
    note C = byteq_tail_chunk[OF Cons(2), of ?n, simplified]
    have n: "?n \<le> bq_len q" using byteq_tailroom_eq[OF Cons(2)] by auto
    obtain outs where w: "byteq_write (q\<lparr>bq_tail := bq_tail q + of_nat ?n\<rparr>) rs = Inr (outs, e, q')"
      "out = take ?n (byteq_list q) @ outs"
      using Cons(3) False m C by (auto simp: byteq_write.simps[of q "Inl m # rs"] Let_def rbind_eq_Inr split: if_splits)
    from drop_at_tail[OF Cons(2) n] Cons(1)[OF _ w(1)] w(2) show ?thesis by simp
  qed
qed

text \<open>The bytes taken from the calls: a beginning of what each of them delivers.\<close>

fun prefix_of_reads :: "u8 list \<Rightarrow> (u8 list + int) list \<Rightarrow> bool" where
  "prefix_of_reads ins [] \<longleftrightarrow> ins = []"
| "prefix_of_reads ins (Inr errno # rs) \<longleftrightarrow> ins = []"
| "prefix_of_reads ins (Inl bs # rs) \<longleftrightarrow> ins = [] \<or> (\<exists>n ins'. ins = take n bs @ ins' \<and> prefix_of_reads ins' rs)"

lemma byteq_read_ok:
  "byteq_ok q \<Longrightarrow> \<exists>e q' ins. byteq_read q rs = Inr (e, q') \<and> byteq_ok q' \<and> bq_size q' = bq_size q \<and>
     byteq_list q' = byteq_list q @ ins \<and> prefix_of_reads ins rs"
proof (induction rs arbitrary: q)
  case Nil
  then show ?case by (simp add: byteq_read.simps[of q "[]"])
next
  case (Cons r rs)
  show ?case
  proof (cases "byteq_is_full q \<or> (\<exists>errno. r = Inr errno) \<or> r = Inl []")
    case True
    with Cons(2) show ?thesis by (cases r) (auto simp: byteq_read.simps[of q "_ # rs"])
  next
    case False
    then obtain bs where bs: "r = Inl bs" "bs \<noteq> []" by (cases r) auto
    let ?bs = "take (nat (byteq_headroom q)) bs"
    have h: "byteq_head q < unat (bq_size q)"
      using bq_index_bound[OF Cons(2), of "bq_len q"] bq_index_head[OF Cons(2)] Cons(2) by (simp add: byteq_ok_def)
    have "bq_len q < unat (bq_size q)"
      using False byteq_full_iff[OF Cons(2)] bq_len_le[OF Cons(2)] by auto
    with h bs(2) have ne: "?bs \<noteq> []" using byteq_headroom_eq[OF Cons(2)] by auto
    have fits: "bq_len q + length ?bs \<le> unat (bq_size q)" "byteq_head q + length ?bs \<le> unat (bq_size q)"
      using byteq_headroom_eq[OF Cons(2)] h bq_len_le[OF Cons(2)] by auto
    obtain buf where w: "buffer_write (bq_buffer q) (byteq_head q) ?bs = Inr buf" "length buf = length (bq_buffer q)"
      using fits(2) Cons(2) by (auto simp: buffer_write_def byteq_ok_def)
    let ?q = "q\<lparr>bq_buffer := buf, bq_head := bq_head q + of_nat (length ?bs)\<rparr>"
    note A = append_at_head[OF Cons(2) fits w(1)]
    from Cons(1)[OF A(1)] obtain e q' ins where I: "byteq_read ?q rs = Inr (e, q')" "byteq_ok q'"
      "bq_size q' = bq_size q" "byteq_list q' = byteq_list ?q @ ins" "prefix_of_reads ins rs" by auto
    have "byteq_read q (Inl bs # rs) = Inr (e, q')"
      using False bs ne w I(1) byteq_advance_head_ok[OF Cons(2) fits w(2)]
      by (simp add: byteq_read.simps[of q "Inl bs # rs"] Let_def del: length_take)
    moreover have "prefix_of_reads (?bs @ ins) (Inl bs # rs)"
      using I(5) by auto
    ultimately show ?thesis using I A(2) bs(1) by auto
  qed
qed

section \<open>Bounded queues\<close>

datatype 'a queue_op = Put 'a | Get

fun queue_run :: "('q \<Rightarrow> 'a \<Rightarrow> 'q result) \<Rightarrow> ('q \<Rightarrow> ('a \<times> 'q) result) \<Rightarrow> 'q \<Rightarrow> 'a queue_op list \<Rightarrow> ('a list \<times> 'q) result" where
  "queue_run put get q [] = Inr ([], q)"
| "queue_run put get q (Put x # ops) = rbind (put q x) (\<lambda>q. queue_run put get q ops)"
| "queue_run put get q (Get # ops) =
     rbind (get q) (\<lambda>(x, q). rbind (queue_run put get q ops) (\<lambda>(out, q). Inr (x # out, q)))"

text \<open>The same operations on a list: what a bounded queue is to do.\<close>

definition list_put :: "nat \<Rightarrow> 'a list \<Rightarrow> 'a \<Rightarrow> 'a list result" where
  "list_put cap xs x = (if length xs < cap then Inr (xs @ [x]) else Inl Assert_Fail)"

definition list_get :: "'a list \<Rightarrow> ('a \<times> 'a list) result" where
  "list_get xs = (case xs of [] \<Rightarrow> Inl Assert_Fail | x # xs \<Rightarrow> Inr (x, xs))"

locale bounded_queue =
  fixes ok :: "'q \<Rightarrow> bool" and items :: "'q \<Rightarrow> 'a list" and capacity :: "'q \<Rightarrow> nat"
    and put :: "'q \<Rightarrow> 'a \<Rightarrow> 'q result" and get :: "'q \<Rightarrow> ('a \<times> 'q) result"
  assumes put_room: "ok q \<Longrightarrow> length (items q) < capacity q \<Longrightarrow>
      \<exists>q'. put q x = Inr q' \<and> ok q' \<and> items q' = items q @ [x] \<and> capacity q' = capacity q"
    and put_full: "ok q \<Longrightarrow> \<not> length (items q) < capacity q \<Longrightarrow> put q x = Inl Assert_Fail"
    and get_item: "ok q \<Longrightarrow> items q = x # xs \<Longrightarrow>
      \<exists>q'. get q = Inr (x, q') \<and> ok q' \<and> items q' = xs \<and> capacity q' = capacity q"
    and get_empty: "ok q \<Longrightarrow> items q = [] \<Longrightarrow> get q = Inl Assert_Fail"
begin

lemma run_refines:
  "ok q \<Longrightarrow>
     (case queue_run (list_put (capacity q)) list_get (items q) ops of
        Inl f \<Rightarrow> queue_run put get q ops = Inl f
      | Inr (out, xs) \<Rightarrow> \<exists>q'. queue_run put get q ops = Inr (out, q') \<and> ok q' \<and> items q' = xs)"
proof (induction ops arbitrary: q)
  case (Cons op ops)
  show ?case
  proof (cases op)
    case (Put x)
    show ?thesis
    proof (cases "length (items q) < capacity q")
      case True
      with put_room[OF Cons(2) True, of x] obtain q' where "put q x = Inr q'" "ok q'" "items q' = items q @ [x]"
        "capacity q' = capacity q" by blast
      moreover have "list_put (capacity q) (items q) x = Inr (items q @ [x])" using True by (simp add: list_put_def)
      ultimately show ?thesis using Cons(1)[of q'] Put by (auto split: sum.splits)
    qed (use put_full[OF Cons(2)] Put in \<open>simp add: list_put_def\<close>)
  next
    case Get
    show ?thesis
    proof (cases "items q")
      case (Cons x xs)
      from get_item[OF Cons.prems this] obtain q' where "get q = Inr (x, q')" "ok q'" "items q' = xs"
        "capacity q' = capacity q" by blast
      with Cons.IH[of q'] Get Cons show ?thesis
        by (auto simp: list_get_def split: sum.splits)
    qed (use get_empty[OF Cons(2)] Get in \<open>simp add: list_get_def\<close>)
  qed
qed simp

end

interpretation byteq_fifo: bounded_queue byteq_ok byteq_list "\<lambda>q. unat (bq_size q)" byteq_put byteq_get
proof unfold_locales
  fix q x assume ok: "byteq_ok q" and "length (byteq_list q) < unat (bq_size q)"
  with byteq_put_ok[OF ok, of x]
  show "\<exists>q'. byteq_put q x = Inr q' \<and> byteq_ok q' \<and> byteq_list q' = byteq_list q @ [x] \<and> unat (bq_size q') = unat (bq_size q)"
    by auto
next
  fix q x assume ok: "byteq_ok q" and "\<not> length (byteq_list q) < unat (bq_size q)"
  with bq_len_le[OF ok] have "byteq_is_full q" by (simp add: byteq_full_iff)
  then show "byteq_put q x = Inl Assert_Fail" by (simp add: byteq_put_def)
next
  fix q x xs assume "byteq_ok q" "byteq_list q = x # xs"
  from byteq_get_ok[OF this]
  show "\<exists>q'. byteq_get q = Inr (x, q') \<and> byteq_ok q' \<and> byteq_list q' = xs \<and> unat (bq_size q') = unat (bq_size q)"
    by auto
next
  fix q assume "byteq_ok q" "byteq_list q = []"
  then show "byteq_get q = Inl Assert_Fail" by (simp add: byteq_get_def byteq_empty_iff)
qed

lemma byteq_init_ok:
  assumes "k \<le> 30" and "sz = 2 ^ k" and "length buffer = unat sz"
  shows "\<exists>q. byteq_init buffer sz = Inr q \<and> byteq_ok q \<and> byteq_list q = [] \<and> bq_size q = sz"
proof -
  have "sz AND (sz - 1) = take_bit k sz" using assms(2) by (simp add: take_bit_eq_mask mask_eq_exp_minus_1)
  also have "\<dots> = 0" using assms(2) by (simp add: take_bit_eq_mod)
  finally have "sz AND (sz - 1) = 0" .
  moreover have "sz \<noteq> 0" using assms(1,2) by (simp add: exp_eq_zero_iff)
  ultimately show ?thesis
    using assms by (auto simp: byteq_init_def is_pow2_uint_def byteq_ok_def byteq_list_def bq_len_def)
qed

end
