(* ===== verification/Heap.thy ===== *)
theory Heap
  imports Ovs_Prelude
begin

text \<open>
  The max-heap of \<^verbatim>\<open>lib/heap.c\<close> and \<^verbatim>\<open>lib/heap.h\<close>. The nodes are embedded in the objects of the
  caller and know their index, so the state is the heap's array together with the nodes it points to.
  The heap refines a finite map from nodes to priorities.
\<close>

section \<open>The heap\<close>

record heap_node =
  hn_idx :: nat
  hn_priority :: u64

text \<open>Element 0 of the array is unused; a null array is the empty list. The nodes are those of the
  whole program, in the heap or not.\<close>

record heap =
  hp_array :: "nat list"
  hp_n :: nat
  hp_allocated :: nat
  hp_nodes :: "nat \<Rightarrow> heap_node"

definition heap_init :: "(nat \<Rightarrow> heap_node) \<Rightarrow> heap" where
  "heap_init nodes = \<lparr>hp_array = [], hp_n = 0, hp_allocated = 0, hp_nodes = nodes\<rparr>"

definition heap_clear :: "heap \<Rightarrow> heap" where
  "heap_clear h = h\<lparr>hp_n := 0\<rparr>"

definition heap_count :: "heap \<Rightarrow> nat" where
  "heap_count h = hp_n h"

definition heap_is_empty :: "heap \<Rightarrow> bool" where
  "heap_is_empty h \<longleftrightarrow> hp_n h = 0"

definition heap_parent :: "nat \<Rightarrow> nat" where "heap_parent idx = idx div 2"
definition heap_left :: "nat \<Rightarrow> nat" where "heap_left idx = idx * 2"
definition heap_right :: "nat \<Rightarrow> nat" where "heap_right idx = idx * 2 + 1"

definition heap_is_leaf :: "nat \<Rightarrow> nat \<Rightarrow> bool" where
  "heap_is_leaf n idx \<longleftrightarrow> heap_left idx > n"

definition node_at :: "heap \<Rightarrow> nat \<Rightarrow> nat result" where
  "node_at h i = (if i < length (hp_array h) then Inr (hp_array h ! i) else Inl Wild_Pointer)"

definition priority_at :: "heap \<Rightarrow> nat \<Rightarrow> u64 result" where
  "priority_at h i = rbind (node_at h i) (\<lambda>a. Inr (hn_priority (hp_nodes h a)))"

text \<open>\<^verbatim>\<open>n--\<close> on a \<^verbatim>\<open>size_t\<close>.\<close>

definition size_dec :: "nat \<Rightarrow> nat" where
  "size_dec n = (if n = 0 then 2 ^ 64 - 1 else n - 1)"

definition heap_max :: "heap \<Rightarrow> nat result" where
  "heap_max h = node_at h 1"

definition heap_put_node :: "heap \<Rightarrow> nat \<Rightarrow> nat \<Rightarrow> heap result" where
  "heap_put_node h node i =
     (if i < length (hp_array h)
      then Inr (h\<lparr>hp_array := (hp_array h)[i := node],
                  hp_nodes := (hp_nodes h)(node := (hp_nodes h node)\<lparr>hn_idx := i\<rparr>)\<rparr>)
      else Inl Wild_Pointer)"

definition swap_nodes :: "heap \<Rightarrow> nat \<Rightarrow> nat \<Rightarrow> heap result" where
  "swap_nodes h i j =
     rbind (node_at h i) (\<lambda>old_i. rbind (node_at h j) (\<lambda>old_j.
     rbind (heap_put_node h old_j i) (\<lambda>h. heap_put_node h old_i j)))"

text \<open>Whether something moved, and the heap.\<close>

function float_up :: "heap \<Rightarrow> nat \<Rightarrow> (bool \<times> heap) result" where
  "float_up h i =
     (if i > 1
      then let parent = heap_parent i in
           rbind (priority_at h parent) (\<lambda>p. rbind (priority_at h i) (\<lambda>q.
           if p \<ge> q then Inr (False, h)
           else rbind (swap_nodes h parent i) (\<lambda>h. rbind (float_up h parent) (\<lambda>(moved, h). Inr (True, h)))))
      else Inr (False, h))"
  by pat_completeness auto
termination by (relation "measure (\<lambda>(h, i). i)") (auto simp: heap_parent_def)

declare float_up.simps [simp del]

text \<open>The child to exchange with, if any. No swap changes the number \<open>n\<close> of nodes.\<close>

definition down_child :: "nat \<Rightarrow> heap \<Rightarrow> nat \<Rightarrow> nat result" where
  "down_child n h i =
     (let left = heap_left i; right = heap_right i; mx = i in
      rbind (priority_at h left) (\<lambda>l. rbind (priority_at h mx) (\<lambda>m.
      let mx = (if l > m then left else mx) in
      if right \<le> n
      then rbind (priority_at h right) (\<lambda>r. rbind (priority_at h mx) (\<lambda>m.
           Inr (if r > m then right else mx)))
      else Inr mx)))"

lemma down_child_cases: "down_child n h i = Inr m \<Longrightarrow> m = i \<or> m = 2 * i \<or> m = 2 * i + 1"
  by (auto simp: down_child_def Let_def rbind_eq_Inr heap_left_def heap_right_def split: if_splits)

function float_down_loop :: "nat \<Rightarrow> heap \<Rightarrow> nat \<Rightarrow> heap result" where
  "float_down_loop n h i =
     (if heap_is_leaf n i then Inr h
      else case down_child n h i of
             Inl f \<Rightarrow> Inl f
           | Inr mx \<Rightarrow>
               if mx = i then Inr h
               else rbind (swap_nodes h mx i) (\<lambda>h. float_down_loop n h mx))"
  by pat_completeness auto
termination
proof (relation "measure (\<lambda>(n, h, i). Suc n - i)")
  fix n h i mx and h' :: heap
  assume a: "\<not> heap_is_leaf n i" "down_child n h i = Inr mx" "mx \<noteq> i"
  from down_child_cases[OF a(2)] a(3) have "i < mx" by auto
  moreover have "i \<le> n" using a(1) by (simp add: heap_is_leaf_def heap_left_def)
  ultimately show "((n, h', mx), n, h, i) \<in> measure (\<lambda>(n, h, i). Suc n - i)" by simp
qed simp

declare float_down_loop.simps [simp del]

definition float_down :: "heap \<Rightarrow> nat \<Rightarrow> heap result" where
  "float_down h i = float_down_loop (hp_n h) h i"

definition float_up_or_down :: "heap \<Rightarrow> nat \<Rightarrow> heap result" where
  "float_up_or_down h i = rbind (float_up h i) (\<lambda>(moved, h). if moved then Inr h else float_down h i)"

text \<open>\<^verbatim>\<open>xrealloc()\<close> keeps the elements and leaves the new ones undefined; they are never read before
  they are written.\<close>

definition heap_grow :: "heap \<Rightarrow> heap" where
  "heap_grow h =
     (if hp_n h \<ge> hp_allocated h
      then let allocated = (if hp_n h = 0 then 1 else 2 * hp_n h)
           in h\<lparr>hp_allocated := allocated,
                hp_array := take (allocated + 1) (hp_array h @ replicate (allocated + 1 - length (hp_array h)) 0)\<rparr>
      else h)"

definition heap_raw_insert :: "heap \<Rightarrow> nat \<Rightarrow> u64 \<Rightarrow> heap result" where
  "heap_raw_insert h node priority =
     (let h = heap_grow h; n = hp_n h + 1 in
      rbind (heap_put_node (h\<lparr>hp_n := n\<rparr>) node n) (\<lambda>h.
      Inr (h\<lparr>hp_nodes := (hp_nodes h)(node := (hp_nodes h node)\<lparr>hn_priority := priority\<rparr>)\<rparr>)))"

definition heap_raw_remove :: "heap \<Rightarrow> nat \<Rightarrow> heap result" where
  "heap_raw_remove h node =
     (let i = hn_idx (hp_nodes h node) in
      rbind (if i < hp_n h then rbind (node_at h (hp_n h)) (\<lambda>a. heap_put_node h a i) else Inr h) (\<lambda>h.
      Inr (h\<lparr>hp_n := size_dec (hp_n h)\<rparr>)))"

definition heap_raw_change :: "heap \<Rightarrow> nat \<Rightarrow> u64 \<Rightarrow> heap" where
  "heap_raw_change h node priority =
     h\<lparr>hp_nodes := (hp_nodes h)(node := (hp_nodes h node)\<lparr>hn_priority := priority\<rparr>)\<rparr>"

definition heap_insert :: "heap \<Rightarrow> nat \<Rightarrow> u64 \<Rightarrow> heap result" where
  "heap_insert h node priority =
     rbind (heap_raw_insert h node priority) (\<lambda>h.
     rbind (float_up h (hn_idx (hp_nodes h node))) (\<lambda>(moved, h). Inr h))"

definition heap_remove :: "heap \<Rightarrow> nat \<Rightarrow> heap result" where
  "heap_remove h node =
     (let i = hn_idx (hp_nodes h node) in
      rbind (heap_raw_remove h node) (\<lambda>h. if i \<le> hp_n h then float_up_or_down h i else Inr h))"

definition heap_change :: "heap \<Rightarrow> nat \<Rightarrow> u64 \<Rightarrow> heap result" where
  "heap_change h node priority =
     (let h = heap_raw_change h node priority in float_up_or_down h (hn_idx (hp_nodes h node)))"

definition heap_pop :: "heap \<Rightarrow> (nat \<times> heap) result" where
  "heap_pop h = rbind (node_at h (hp_n h)) (\<lambda>a. Inr (a, h\<lparr>hp_n := size_dec (hp_n h)\<rparr>))"

fun rebuild_loop :: "heap \<Rightarrow> nat \<Rightarrow> heap result" where
  "rebuild_loop h 0 = Inr h"
| "rebuild_loop h (Suc i) = rbind (float_down h (Suc i)) (\<lambda>h. rebuild_loop h i)"

definition heap_rebuild :: "heap \<Rightarrow> heap result" where
  "heap_rebuild h = rebuild_loop h (hp_n h div 2)"

section \<open>Shape\<close>

text \<open>The array has room for the nodes, every node is in it once and knows where.\<close>

definition heap_wf :: "heap \<Rightarrow> bool" where
  "heap_wf h \<longleftrightarrow> hp_n h \<le> hp_allocated h \<and>
     length (hp_array h) = (if hp_allocated h = 0 then 0 else hp_allocated h + 1) \<and>
     (\<forall>i. 1 \<le> i \<and> i \<le> hp_n h \<longrightarrow> hn_idx (hp_nodes h (hp_array h ! i)) = i)"

definition heap_key :: "heap \<Rightarrow> nat \<Rightarrow> u64" where
  "heap_key h i = hn_priority (hp_nodes h (hp_array h ! i))"

definition heap_map :: "heap \<Rightarrow> nat \<Rightarrow> u64 option" where
  "heap_map h a = (if \<exists>i. 1 \<le> i \<and> i \<le> hp_n h \<and> hp_array h ! i = a then Some (hn_priority (hp_nodes h a)) else None)"

lemma heap_wf_length: "heap_wf h \<Longrightarrow> i \<le> hp_n h \<Longrightarrow> 1 \<le> i \<Longrightarrow> i < length (hp_array h)"
  by (auto simp: heap_wf_def split: if_splits)

lemma priority_at_key: "heap_wf h \<Longrightarrow> 1 \<le> i \<Longrightarrow> i \<le> hp_n h \<Longrightarrow> priority_at h i = Inr (heap_key h i)"
  using heap_wf_length[of h i] by (simp add: priority_at_def node_at_def heap_key_def)

lemma heap_wf_inj:
  "heap_wf h \<Longrightarrow> 1 \<le> i \<Longrightarrow> i \<le> hp_n h \<Longrightarrow> 1 \<le> j \<Longrightarrow> j \<le> hp_n h \<Longrightarrow> hp_array h ! i = hp_array h ! j \<Longrightarrow> i = j"
  unfolding heap_wf_def by metis

text \<open>What an exchange changes.\<close>

lemma swap_nodes_ok:
  assumes wf: "heap_wf h" and i: "1 \<le> i" "i \<le> hp_n h" and j: "1 \<le> j" "j \<le> hp_n h" and ne: "i \<noteq> j"
  obtains h' where "swap_nodes h i j = Inr h'" and "heap_wf h'" and "hp_n h' = hp_n h"
    and "heap_map h' = heap_map h" and "\<And>l. heap_key h' l = (if l = i then heap_key h j else if l = j then heap_key h i else heap_key h l)"
proof -
  let ?a = "hp_array h ! i" and ?b = "hp_array h ! j"
  have l: "i < length (hp_array h)" "j < length (hp_array h)" using heap_wf_length wf i j by auto
  have ab: "?a \<noteq> ?b" using heap_wf_inj[OF wf i j] ne by blast
  define h' where "h' = h\<lparr>hp_array := (hp_array h)[i := ?b, j := ?a],
    hp_nodes := (hp_nodes h)(?b := (hp_nodes h ?b)\<lparr>hn_idx := i\<rparr>, ?a := (hp_nodes h ?a)\<lparr>hn_idx := j\<rparr>)\<rparr>"
  have run: "swap_nodes h i j = Inr h'"
    using l ab by (simp add: swap_nodes_def node_at_def heap_put_node_def h'_def)
  have arr: "hp_array h' ! m = (if m = j then ?a else if m = i then ?b else hp_array h ! m)" for m
    using l by (auto simp: h'_def nth_list_update)
  have pri: "hn_priority (hp_nodes h' a) = hn_priority (hp_nodes h a)" for a by (simp add: h'_def)
  have keys: "heap_key h' m = (if m = i then heap_key h j else if m = j then heap_key h i else heap_key h m)" for m
    using ne by (auto simp: heap_key_def arr pri)
  have "hn_idx (hp_nodes h' (hp_array h' ! m)) = m" if "1 \<le> m" "m \<le> hp_n h" for m
  proof (cases "m = i \<or> m = j")
    case False
    then have "hp_array h ! m \<noteq> ?a" "hp_array h ! m \<noteq> ?b" using heap_wf_inj[OF wf that] i j by auto
    with False that wf show ?thesis unfolding arr by (simp add: h'_def heap_wf_def)
  next
    case True
    then show ?thesis unfolding arr using ab ne by (auto simp: h'_def)
  qed
  then have "heap_wf h'" using wf unfolding heap_wf_def by (simp add: h'_def)
  moreover have n': "hp_n h' = hp_n h" by (simp add: h'_def)
  define s where "s m = (if m = i then j else if m = j then i else m)" for m
  have s: "hp_array h' ! m = hp_array h ! s m" "s (s m) = m" "1 \<le> s m \<and> s m \<le> hp_n h \<longleftrightarrow> 1 \<le> m \<and> m \<le> hp_n h" for m
    using ne i j unfolding arr s_def by auto
  have "(\<exists>m. 1 \<le> m \<and> m \<le> hp_n h \<and> hp_array h' ! m = a) \<longleftrightarrow> (\<exists>m. 1 \<le> m \<and> m \<le> hp_n h \<and> hp_array h ! m = a)" for a
    using s by metis
  then have "heap_map h' = heap_map h" unfolding heap_map_def n' pri by (simp only:)
  ultimately show thesis using that[OF run _ n' _ keys] by blast
qed

section \<open>Order\<close>

text \<open>The heap order below the index \<open>m\<close>, and the order with an exception at \<open>i\<close>: one that may have to
  move up, one that may have to move down, or either.\<close>

definition heap_from :: "nat \<Rightarrow> nat \<Rightarrow> (nat \<Rightarrow> u64) \<Rightarrow> bool" where
  "heap_from m n k \<longleftrightarrow> (\<forall>j. 2 \<le> j \<and> j \<le> n \<and> m \<le> j div 2 \<longrightarrow> k j \<le> k (j div 2))"

definition grand :: "nat \<Rightarrow> nat \<Rightarrow> (nat \<Rightarrow> u64) \<Rightarrow> nat \<Rightarrow> bool" where
  "grand m n k i \<longleftrightarrow> (2 \<le> i \<and> m \<le> i div 2 \<longrightarrow> (\<forall>c. c div 2 = i \<and> c \<le> n \<longrightarrow> k c \<le> k (i div 2)))"

definition exc_up :: "nat \<Rightarrow> (nat \<Rightarrow> u64) \<Rightarrow> nat \<Rightarrow> bool" where
  "exc_up n k i \<longleftrightarrow> (\<forall>j. 2 \<le> j \<and> j \<le> n \<and> j \<noteq> i \<longrightarrow> k j \<le> k (j div 2)) \<and> grand 1 n k i"

definition exc_down :: "nat \<Rightarrow> nat \<Rightarrow> (nat \<Rightarrow> u64) \<Rightarrow> nat \<Rightarrow> bool" where
  "exc_down m n k i \<longleftrightarrow>
     (\<forall>j. 2 \<le> j \<and> j \<le> n \<and> m \<le> j div 2 \<and> j div 2 \<noteq> i \<longrightarrow> k j \<le> k (j div 2)) \<and> grand m n k i"

definition exc_both :: "nat \<Rightarrow> (nat \<Rightarrow> u64) \<Rightarrow> nat \<Rightarrow> bool" where
  "exc_both n k i \<longleftrightarrow>
     (\<forall>j. 2 \<le> j \<and> j \<le> n \<and> j \<noteq> i \<and> j div 2 \<noteq> i \<longrightarrow> k j \<le> k (j div 2)) \<and> grand 1 n k i"

lemma exc_up_step:
  assumes ex: "exc_up n k i" and i: "1 < i" "i \<le> n" and lt: "k (i div 2) < k i"
    and k': "\<And>l. k' l = (if l = i div 2 then k i else if l = i then k (i div 2) else k l)"
  shows "exc_up n k' (i div 2)"
proof -
  let ?p = "i div 2"
  have p: "?p < i" "1 \<le> ?p" using i by auto
  have A: "k j \<le> k (j div 2)" if "2 \<le> j" "j \<le> n" "j \<noteq> i" for j using ex that by (simp add: exc_up_def)
  have B: "k c \<le> k ?p" if "c div 2 = i" "c \<le> n" for c using ex that i by (simp add: exc_up_def grand_def)
  have "k' j \<le> k' (j div 2)" if j: "2 \<le> j" "j \<le> n" "j \<noteq> ?p" for j
  proof (cases "j = i")
    case True
    with lt p show ?thesis by (simp add: k' less_imp_le)
  next
    case False
    consider "j div 2 = i" | "j div 2 = ?p" | "j div 2 \<noteq> i" "j div 2 \<noteq> ?p" by blast
    then show ?thesis using A[OF j(1,2) False] B[of j] j False lt p by cases (auto simp: k')
  qed
  moreover have "k' c \<le> k' (?p div 2)" if c: "2 \<le> ?p" "c div 2 = ?p" "c \<le> n" for c
  proof -
    have "?p div 2 < ?p" using c by linarith
    moreover have "k ?p \<le> k (?p div 2)" using A[of ?p] c i p by linarith
    moreover have "c \<noteq> i \<Longrightarrow> k c \<le> k ?p" using A[of c] c by (metis div_le_dividend order_trans)
    moreover have "c \<noteq> ?p" using c by linarith
    ultimately show ?thesis using p by (auto simp: k')
  qed
  ultimately show ?thesis by (simp add: exc_up_def grand_def)
qed

lemma exc_down_step:
  assumes ex: "exc_down m n k i" and i: "m \<le> i" "1 \<le> i" and c: "c div 2 = i" "c \<le> n" and lt: "k i < k c"
    and most: "\<And>d. d div 2 = i \<Longrightarrow> d \<le> n \<Longrightarrow> k d \<le> k c"
    and k': "\<And>l. k' l = (if l = c then k i else if l = i then k c else k l)"
  shows "exc_down m n k' c"
proof -
  have ci: "i < c" using c i by linarith
  have A: "k j \<le> k (j div 2)" if "2 \<le> j" "j \<le> n" "m \<le> j div 2" "j div 2 \<noteq> i" for j
    using ex that by (simp add: exc_down_def)
  have B: "k c \<le> k (i div 2)" if "2 \<le> i" "m \<le> i div 2" using ex that c by (simp add: exc_down_def grand_def)
  have "k' j \<le> k' (j div 2)" if j: "2 \<le> j" "j \<le> n" "m \<le> j div 2" "j div 2 \<noteq> c" for j
  proof -
    have up: "j div 2 < j" using j by linarith
    consider "j = c" | "j div 2 = i" "j \<noteq> c" | "j = i" | "j \<noteq> c" "j \<noteq> i" "j div 2 \<noteq> i" by blast
    then show ?thesis using A[OF j(1-3)] B most[of j] j lt up ci c by cases (auto simp: k')
  qed
  moreover have "k' d \<le> k' (c div 2)" if "2 \<le> c" "d div 2 = c" "d \<le> n" for d
  proof -
    have "c < d" using that by linarith
    with A[of d] that ci i c show ?thesis by (simp add: k')
  qed
  ultimately show ?thesis by (simp add: exc_down_def grand_def)
qed

lemma exc_up_top: "i \<le> 1 \<Longrightarrow> exc_up n k i \<Longrightarrow> heap_from 1 n k"
  by (auto simp: exc_up_def heap_from_def)

lemma exc_up_stop: "exc_up n k i \<Longrightarrow> k i \<le> k (i div 2) \<Longrightarrow> heap_from 1 n k"
  unfolding exc_up_def heap_from_def by metis

text \<open>The two loops, from the exceptions they repair.\<close>

definition same_map :: "heap \<Rightarrow> heap \<Rightarrow> bool" where
  "same_map h h' \<longleftrightarrow> heap_wf h' \<and> hp_n h' = hp_n h \<and> heap_map h' = heap_map h"

lemma same_map_trans: "same_map a b \<Longrightarrow> same_map b c \<Longrightarrow> same_map a c"
  by (simp add: same_map_def)

lemma same_map_refl: "heap_wf h \<Longrightarrow> same_map h h"
  by (simp add: same_map_def)

lemma float_up_ok:
  assumes "heap_wf h" "1 \<le> i" "i \<le> hp_n h" "exc_up (hp_n h) (heap_key h) i"
  shows "\<exists>moved h'. float_up h i = Inr (moved, h') \<and> same_map h h' \<and> heap_from 1 (hp_n h') (heap_key h')"
  using assms
proof (induction i arbitrary: h rule: less_induct)
  case (less i)
  show ?case
  proof (cases "1 < i \<and> heap_key h (i div 2) < heap_key h i")
    case False
    then have "float_up h i = Inr (False, h)" using less.prems
      by (subst float_up.simps) (auto simp: Let_def heap_parent_def priority_at_key not_less)
    moreover have "heap_from 1 (hp_n h) (heap_key h)"
      using False less.prems exc_up_top exc_up_stop by (metis not_less)
    ultimately show ?thesis using less.prems same_map_refl by blast
  next
    case True
    then have p: "1 \<le> i div 2" "i div 2 \<le> hp_n h" "i div 2 \<noteq> i" "i div 2 < i" using less.prems by auto
    from swap_nodes_ok[OF less.prems(1) p(1,2) less.prems(2,3) p(3)] obtain h1
      where s: "swap_nodes h (i div 2) i = Inr h1" "heap_wf h1" "hp_n h1 = hp_n h" "heap_map h1 = heap_map h"
        and k: "\<And>l. heap_key h1 l = (if l = i div 2 then heap_key h i else if l = i then heap_key h (i div 2) else heap_key h l)" by blast
    have "exc_up (hp_n h1) (heap_key h1) (i div 2)"
      using exc_up_step[OF less.prems(4) _ less.prems(3) _ k] True s(3) by simp
    from less.IH[OF p(4) s(2) p(1) _ this] p(2) s(3) obtain moved h'
      where r: "float_up h1 (i div 2) = Inr (moved, h')" "same_map h1 h'" "heap_from 1 (hp_n h') (heap_key h')" by auto
    have "1 < i" "\<not> heap_key h i \<le> heap_key h (i div 2)" using True by (simp_all add: not_le)
    then have "float_up h i = Inr (True, h')" using less.prems p s(1) r(1)
      by (subst float_up.simps) (simp add: Let_def heap_parent_def priority_at_key)
    moreover have "same_map h h'" using r(2) s by (simp add: same_map_def)
    ultimately show ?thesis using r(3) by blast
  qed
qed

lemma down_child_ok:
  assumes wf: "heap_wf h" and i: "1 \<le> i" and leaf: "\<not> heap_is_leaf (hp_n h) i"
  obtains c where "down_child (hp_n h) h i = Inr c"
    and "c = i \<longrightarrow> (\<forall>d. d div 2 = i \<and> d \<le> hp_n h \<longrightarrow> heap_key h d \<le> heap_key h i)"
    and "c \<noteq> i \<longrightarrow> c div 2 = i \<and> c \<le> hp_n h \<and> heap_key h i < heap_key h c \<and> (\<forall>d. d div 2 = i \<and> d \<le> hp_n h \<longrightarrow> heap_key h d \<le> heap_key h c)"
proof -
  have l: "2 * i \<le> hp_n h" using leaf by (simp add: heap_is_leaf_def heap_left_def)
  define m where "m = (if heap_key h i < heap_key h (2 * i) then 2 * i else i)"
  define c where "c = (if 2 * i + 1 \<le> hp_n h \<and> heap_key h m < heap_key h (2 * i + 1) then 2 * i + 1 else m)"
  have "1 \<le> m" "m \<le> hp_n h" using i l by (auto simp: m_def)
  then have run: "down_child (hp_n h) h i = Inr c" using priority_at_key[OF wf, of "Suc (2 * i)"] i l
    by (auto simp: down_child_def Let_def heap_left_def heap_right_def priority_at_key[OF wf] m_def c_def mult.commute)
  have kids: "d = 2 * i \<or> d = 2 * i + 1" if "d div 2 = i" for d using that by linarith
  have "heap_key h (2 * i) \<le> heap_key h m" "heap_key h i \<le> heap_key h m" by (auto simp: m_def)
  then have top: "heap_key h d \<le> heap_key h c" if "d div 2 = i" "d \<le> hp_n h" for d
    using kids[OF that(1)] that(2) by (auto simp: c_def not_less)
  have child: "c div 2 = i \<and> c \<le> hp_n h \<and> heap_key h i < heap_key h c" if "c \<noteq> i"
    using that l i \<open>heap_key h i \<le> heap_key h m\<close> by (auto simp: c_def m_def split: if_splits)
  show thesis
  proof (rule that[OF run])
    show "c = i \<longrightarrow> (\<forall>d. d div 2 = i \<and> d \<le> hp_n h \<longrightarrow> heap_key h d \<le> heap_key h i)" using top by metis
    show "c \<noteq> i \<longrightarrow> c div 2 = i \<and> c \<le> hp_n h \<and> heap_key h i < heap_key h c \<and>
        (\<forall>d. d div 2 = i \<and> d \<le> hp_n h \<longrightarrow> heap_key h d \<le> heap_key h c)" using child top by simp
  qed
qed

lemma exc_down_stop:
  "exc_down m n k i \<Longrightarrow> (\<And>d. d div 2 = i \<Longrightarrow> d \<le> n \<Longrightarrow> k d \<le> k i) \<Longrightarrow> heap_from m n k"
  unfolding exc_down_def heap_from_def by metis

lemma float_down_loop_ok:
  assumes "heap_wf h" "1 \<le> i" "m \<le> i" "exc_down m (hp_n h) (heap_key h) i"
  shows "\<exists>h'. float_down_loop (hp_n h) h i = Inr h' \<and> same_map h h' \<and> heap_from m (hp_n h') (heap_key h')"
  using assms
proof (induction "Suc (hp_n h) - i" arbitrary: h i rule: less_induct)
  case less
  note wf = less.prems(1) and i = less.prems(2,3) and ex = less.prems(4)
  show ?case
  proof (cases "heap_is_leaf (hp_n h) i")
    case True
    have "heap_from m (hp_n h) (heap_key h)"
      using exc_down_stop[OF ex] True by (fastforce simp: heap_is_leaf_def heap_left_def)
    with True wf show ?thesis by (subst float_down_loop.simps) (simp add: same_map_refl)
  next
    case False
    then have le: "i \<le> hp_n h" by (simp add: heap_is_leaf_def heap_left_def)
    from down_child_ok[OF wf i(1) False] obtain c where c: "down_child (hp_n h) h i = Inr c"
      and stay: "c = i \<longrightarrow> (\<forall>d. d div 2 = i \<and> d \<le> hp_n h \<longrightarrow> heap_key h d \<le> heap_key h i)"
      and go: "c \<noteq> i \<longrightarrow> c div 2 = i \<and> c \<le> hp_n h \<and> heap_key h i < heap_key h c \<and>
        (\<forall>d. d div 2 = i \<and> d \<le> hp_n h \<longrightarrow> heap_key h d \<le> heap_key h c)" by blast
    show ?thesis
    proof (cases "c = i")
      case True
      then have "heap_from m (hp_n h) (heap_key h)" using exc_down_stop[OF ex] stay by blast
      with True False c wf show ?thesis
        by (subst float_down_loop.simps) (simp add: same_map_refl)
    next
      case ne: False
      with go have g: "c div 2 = i" "c \<le> hp_n h" "heap_key h i < heap_key h c"
        "\<And>d. d div 2 = i \<Longrightarrow> d \<le> hp_n h \<Longrightarrow> heap_key h d \<le> heap_key h c" by auto
      have ci: "i < c" using g(1) i by linarith
      from swap_nodes_ok[OF wf _ g(2) i(1) le ne] ci obtain h1
        where s: "swap_nodes h c i = Inr h1" "heap_wf h1" "hp_n h1 = hp_n h" "heap_map h1 = heap_map h"
          and k: "\<And>l. heap_key h1 l = (if l = c then heap_key h i else if l = i then heap_key h c else heap_key h l)" by auto
      have ex': "exc_down m (hp_n h1) (heap_key h1) c"
        using exc_down_step[OF ex i(2,1) g(1,2,3,4) k] s(3) by simp
      have "Suc (hp_n h1) - c < Suc (hp_n h) - i" using ci g(2) s(3) by linarith
      from less.hyps[OF this s(2) _ _ ex'] ci i obtain h' where r: "float_down_loop (hp_n h1) h1 c = Inr h'"
        "same_map h1 h'" "heap_from m (hp_n h') (heap_key h')" by auto
      have "float_down_loop (hp_n h) h i = Inr h'" using False c ne s r(1) by (subst float_down_loop.simps) simp
      with r s show ?thesis by (auto simp: same_map_def)
    qed
  qed
qed

lemma exc_both_down:
  assumes "exc_both n k i" "1 < i \<Longrightarrow> k i \<le> k (i div 2)"
  shows "exc_down 1 n k i"
  using assms unfolding exc_both_def exc_down_def
  by (metis Suc_1 Suc_le_lessD)

lemma exc_both_up:
  assumes ex: "exc_both n k i" and i: "1 < i" and lt: "k (i div 2) < k i"
  shows "exc_up n k i"
proof -
  have "k j \<le> k (j div 2)" if j: "2 \<le> j" "j \<le> n" "j \<noteq> i" for j
  proof (cases "j div 2 = i")
    case True
    with ex i j have "k j \<le> k (i div 2)" by (simp add: exc_both_def grand_def)
    with lt True show ?thesis by simp
  qed (use ex j in \<open>simp add: exc_both_def\<close>)
  with ex show ?thesis by (simp add: exc_up_def exc_both_def)
qed

lemma float_up_stays:
  assumes "heap_wf h" "1 \<le> i" "i \<le> hp_n h" "1 < i \<Longrightarrow> heap_key h i \<le> heap_key h (i div 2)"
  shows "float_up h i = Inr (False, h)"
  using assms by (subst float_up.simps) (auto simp: Let_def heap_parent_def priority_at_key)

lemma float_up_moves:
  assumes "1 < i" "heap_wf h" "i \<le> hp_n h" "heap_key h (i div 2) < heap_key h i" "float_up h i = Inr (moved, h')"
  shows moved
proof -
  have "\<not> heap_key h i \<le> heap_key h (i div 2)" using assms(4) by (simp add: not_le)
  with assms(5,1-3) show ?thesis
    by (subst (asm) float_up.simps) (auto simp: Let_def heap_parent_def priority_at_key rbind_eq_Inr)
qed

lemma float_up_or_down_ok:
  assumes wf: "heap_wf h" and i: "1 \<le> i" "i \<le> hp_n h" and ex: "exc_both (hp_n h) (heap_key h) i"
  shows "\<exists>h'. float_up_or_down h i = Inr h' \<and> same_map h h' \<and> heap_from 1 (hp_n h') (heap_key h')"
proof (cases "1 < i \<and> heap_key h (i div 2) < heap_key h i")
  case True
  from float_up_ok[OF wf i exc_both_up[OF ex]] True obtain moved h'
    where r: "float_up h i = Inr (moved, h')" "same_map h h'" "heap_from 1 (hp_n h') (heap_key h')" by blast
  moreover have moved using float_up_moves[OF _ wf i(2) _ r(1)] True by simp
  ultimately show ?thesis by (simp add: float_up_or_down_def)
next
  case False
  then have le: "1 < i \<Longrightarrow> heap_key h i \<le> heap_key h (i div 2)" by auto
  show ?thesis using float_down_loop_ok[OF wf i(1) i(1) exc_both_down[OF ex le]]
    by (simp add: float_up_or_down_def float_up_stays[OF wf i le] float_down_def)
qed

section \<open>Operations\<close>

definition heap_ok :: "heap \<Rightarrow> bool" where
  "heap_ok h \<longleftrightarrow> heap_wf h \<and> heap_from 1 (hp_n h) (heap_key h)"

lemma same_map_ok: "same_map h h' \<Longrightarrow> heap_from 1 (hp_n h') (heap_key h') \<Longrightarrow> heap_ok h' \<and> heap_map h' = heap_map h \<and> hp_n h' = hp_n h"
  by (simp add: same_map_def heap_ok_def)

lemma heap_map_Some:
  assumes "heap_wf h" "heap_map h a = Some p"
  shows "1 \<le> hn_idx (hp_nodes h a)" "hn_idx (hp_nodes h a) \<le> hp_n h"
    "hp_array h ! hn_idx (hp_nodes h a) = a" "hn_priority (hp_nodes h a) = p"
  using assms by (auto simp: heap_map_def heap_wf_def split: if_splits)

lemma heap_from_top: "heap_from 1 n k \<Longrightarrow> 1 \<le> i \<Longrightarrow> i \<le> n \<Longrightarrow> k i \<le> k 1"
proof (induction i rule: less_induct)
  case (less i)
  show ?case
  proof (cases "i = 1")
    case False
    then have "i div 2 < i" "1 \<le> i div 2" "i div 2 \<le> n" "2 \<le> i" using less.prems by auto
    then have "k (i div 2) \<le> k 1" "k i \<le> k (i div 2)" using less.IH[of "i div 2"] less.prems by (auto simp: heap_from_def)
    then show ?thesis by simp
  qed simp
qed

lemma heap_init_ok: "heap_ok (heap_init nodes)" "heap_map (heap_init nodes) = Map.empty"
  by (auto simp: heap_ok_def heap_init_def heap_wf_def heap_from_def heap_map_def)

lemma heap_max_ok:
  assumes ok: "heap_ok h" and n: "\<not> heap_is_empty h"
  shows "\<exists>a p. heap_max h = Inr a \<and> heap_map h a = Some p \<and> (\<forall>b q. heap_map h b = Some q \<longrightarrow> q \<le> p)"
proof -
  have wf: "heap_wf h" and ord: "heap_from 1 (hp_n h) (heap_key h)" using ok by (auto simp: heap_ok_def)
  have n1: "1 \<le> hp_n h" using n by (simp add: heap_is_empty_def)
  then have "heap_max h = Inr (hp_array h ! 1)" using heap_wf_length[OF wf n1] by (simp add: heap_max_def node_at_def)
  moreover have "heap_map h (hp_array h ! 1) = Some (heap_key h 1)" using n1 by (auto simp: heap_map_def heap_key_def)
  moreover have "q \<le> heap_key h 1" if "heap_map h b = Some q" for b q
    using heap_from_top[OF ord heap_map_Some(1,2)[OF wf that]] heap_map_Some(3,4)[OF wf that] by (simp add: heap_key_def)
  ultimately show ?thesis by blast
qed

text \<open>The raw operations keep the shape and act on the map; the order they may break is repaired later.\<close>

lemma heap_grow_ok:
  assumes "heap_wf h"
  shows "heap_wf (heap_grow h)" "hp_n h < hp_allocated (heap_grow h)" "hp_n (heap_grow h) = hp_n h"
    "hp_nodes (heap_grow h) = hp_nodes h" "i \<le> hp_n h \<Longrightarrow> 1 \<le> i \<Longrightarrow> hp_array (heap_grow h) ! i = hp_array h ! i"
  using assms by (auto simp: heap_grow_def heap_wf_def Let_def nth_append split: if_splits)

lemma heap_raw_insert_ok:
  assumes wf: "heap_wf h" and new: "heap_map h node = None"
  obtains h' where "heap_raw_insert h node p = Inr h'" and "heap_wf h'" and "hp_n h' = hp_n h + 1"
    and "heap_map h' = (heap_map h)(node \<mapsto> p)" and "hn_idx (hp_nodes h' node) = hp_n h + 1"
    and "\<And>i. 1 \<le> i \<Longrightarrow> i \<le> hp_n h \<Longrightarrow> heap_key h' i = heap_key h i"
proof -
  let ?g = "heap_grow h" and ?n = "hp_n h + 1"
  define h' where "h' = ?g\<lparr>hp_n := ?n, hp_array := (hp_array ?g)[?n := node],
     hp_nodes := (hp_nodes h)(node := (hp_nodes h node)\<lparr>hn_idx := ?n, hn_priority := p\<rparr>)\<rparr>"
  note g = heap_grow_ok[OF wf]
  have len: "?n < length (hp_array ?g)" using g(1,2) by (auto simp: heap_wf_def)
  have run: "heap_raw_insert h node p = Inr h'"
    using len g(3,4) by (simp add: heap_raw_insert_def Let_def heap_put_node_def h'_def)
  have arr: "hp_array h' ! i = (if i = ?n then node else hp_array h ! i)" if "1 \<le> i" "i \<le> ?n" for i
    using len that g(5)[of i] by (auto simp: h'_def nth_list_update)
  have fresh: "hp_array h ! i \<noteq> node" if "1 \<le> i" "i \<le> hp_n h" for i
    using new that by (auto simp: heap_map_def split: if_splits)
  have "heap_wf h'" unfolding heap_wf_def
  proof (intro conjI allI impI)
    fix i assume i: "1 \<le> i \<and> i \<le> hp_n h'"
    then show "hn_idx (hp_nodes h' (hp_array h' ! i)) = i" using arr[of i] fresh[of i] wf
      by (cases "i = ?n") (auto simp: h'_def heap_wf_def)
  qed (use g len in \<open>auto simp: h'_def heap_wf_def\<close>)
  moreover have "heap_map h' a = ((heap_map h)(node \<mapsto> p)) a" for a
  proof -
    have "(\<exists>i. 1 \<le> i \<and> i \<le> ?n \<and> hp_array h' ! i = a) \<longleftrightarrow> a = node \<or> (\<exists>i. 1 \<le> i \<and> i \<le> hp_n h \<and> hp_array h ! i = a)" (is "?L \<longleftrightarrow> ?R")
    proof
      assume ?L
      then obtain i where "1 \<le> i" "i \<le> ?n" "hp_array h' ! i = a" by blast
      with arr[of i] show ?R by (cases "i = ?n") auto
    next
      assume ?R
      then show ?L using arr by (elim disjE exE) (auto intro: exI[of _ ?n])
    qed
    moreover have "hp_n h' = ?n" "hn_priority (hp_nodes h' a) = (if a = node then p else hn_priority (hp_nodes h a))"
      by (simp_all add: h'_def)
    ultimately show ?thesis unfolding heap_map_def fun_upd_apply
      by (cases "a = node") (simp_all only: simp_thms if_True if_False)
  qed
  moreover have "heap_key h' i = heap_key h i" if "1 \<le> i" "i \<le> hp_n h" for i
    using arr[of i] fresh[of i] that by (simp add: heap_key_def h'_def)
  ultimately show thesis using that[OF run] by (simp add: h'_def ext)
qed

lemma heap_insert_ok:
  assumes ok: "heap_ok h" and new: "heap_map h node = None"
  shows "\<exists>h'. heap_insert h node p = Inr h' \<and> heap_ok h' \<and> heap_map h' = (heap_map h)(node \<mapsto> p)"
proof -
  have wf: "heap_wf h" and ord: "heap_from 1 (hp_n h) (heap_key h)" using ok by (auto simp: heap_ok_def)
  obtain h1 where r: "heap_raw_insert h node p = Inr h1" "heap_wf h1" "hp_n h1 = hp_n h + 1"
    "heap_map h1 = (heap_map h)(node \<mapsto> p)" "hn_idx (hp_nodes h1 node) = hp_n h + 1"
    and k: "\<And>i. 1 \<le> i \<Longrightarrow> i \<le> hp_n h \<Longrightarrow> heap_key h1 i = heap_key h i"
    using heap_raw_insert_ok[OF wf new] by metis
  have "exc_up (hp_n h1) (heap_key h1) (hp_n h + 1)"
    using ord k r(3) by (auto simp: exc_up_def grand_def heap_from_def)
  from float_up_ok[OF r(2) _ _ this] r(3) obtain moved h' where "float_up h1 (hp_n h + 1) = Inr (moved, h')"
    "same_map h1 h'" "heap_from 1 (hp_n h') (heap_key h')" by auto
  with r same_map_ok[of h1 h'] show ?thesis by (simp add: heap_insert_def)
qed

lemma heap_raw_remove_ok:
  assumes wf: "heap_wf h" and member: "heap_map h node = Some q"
  obtains h' where "heap_raw_remove h node = Inr h'" and "heap_wf h'" and "hp_n h' = hp_n h - 1"
    and "heap_map h' = (heap_map h)(node := None)"
    and "\<And>l. 1 \<le> l \<Longrightarrow> l < hp_n h \<Longrightarrow> heap_key h' l = (if l = hn_idx (hp_nodes h node) then heap_key h (hp_n h) else heap_key h l)"
proof -
  let ?i = "hn_idx (hp_nodes h node)" and ?n = "hp_n h"
  define a where "a = hp_array h ! ?n"
  define h' where "h' = (if ?i < ?n then h\<lparr>hp_array := (hp_array h)[?i := a],
      hp_nodes := (hp_nodes h)(a := (hp_nodes h a)\<lparr>hn_idx := ?i\<rparr>)\<rparr> else h)\<lparr>hp_n := ?n - 1\<rparr>"
  note m = heap_map_Some[OF wf member]
  have n: "1 \<le> ?n" using m(1,2) by simp
  have len: "?i < length (hp_array h)" "?n < length (hp_array h)" using heap_wf_length[OF wf] m n by auto
  have run: "heap_raw_remove h node = Inr h'"
    using len n m(2) by (auto simp: heap_raw_remove_def Let_def heap_put_node_def node_at_def h'_def a_def size_dec_def)
  have arr: "hp_array h' ! l = (if l = ?i then a else hp_array h ! l)" if "l < ?n" for l
    using that len m(2) by (auto simp: h'_def)
  have inj: "hp_array h ! l = hp_array h ! l' \<longleftrightarrow> l = l'" if "1 \<le> l" "l \<le> ?n" "1 \<le> l'" "l' \<le> ?n" for l l'
    using heap_wf_inj[OF wf that] by blast
  have pri: "hn_priority (hp_nodes h' b) = hn_priority (hp_nodes h b)" for b by (simp add: h'_def)
  have nn: "hp_n h' = ?n - 1" by (simp add: h'_def)
  have idx: "hn_idx (hp_nodes h' (hp_array h' ! l)) = l" if "1 \<le> l" "l < ?n" for l
    using arr[OF that(2)] inj[of l ?n] that n wf by (auto simp: h'_def a_def heap_wf_def)
  have "hp_allocated h' = hp_allocated h" "length (hp_array h') = length (hp_array h)" by (simp_all add: h'_def)
  then have "heap_wf h'" using wf idx n unfolding heap_wf_def nn by auto
  moreover have "heap_map h' b = ((heap_map h)(node := None)) b" for b
  proof -
    have "(\<exists>l. 1 \<le> l \<and> l \<le> ?n - 1 \<and> hp_array h' ! l = b) \<longleftrightarrow>
        b \<noteq> node \<and> (\<exists>l. 1 \<le> l \<and> l \<le> ?n \<and> hp_array h ! l = b)" (is "?L \<longleftrightarrow> ?R")
    proof
      assume ?L
      then obtain l where l: "1 \<le> l" "l < ?n" "hp_array h' ! l = b" using n by auto
      with arr[OF l(2)] inj[of l ?i] inj[of ?n ?i] m n show ?R
        by (cases "l = ?i") (auto simp: a_def intro: exI[of _ l] exI[of _ ?n])
    next
      assume ?R
      then obtain l where l: "1 \<le> l" "l \<le> ?n" "hp_array h ! l = b" "l \<noteq> ?i" using m(3) by auto
      show ?L
      proof (cases "l = ?n")
        case True
        with l m arr[of ?i] show ?thesis by (intro exI[of _ ?i]) (auto simp: a_def)
      qed (use l arr[of l] in \<open>auto intro!: exI[of _ l]\<close>)
    qed
    then show ?thesis unfolding heap_map_def nn pri fun_upd_apply by (cases "b = node") (simp_all only: simp_thms if_True if_False)
  qed
  then have "heap_map h' = (heap_map h)(node := None)" by blast
  moreover have "heap_key h' l = (if l = ?i then heap_key h ?n else heap_key h l)" if "1 \<le> l" "l < ?n" for l
    using arr[OF that(2)] by (simp add: heap_key_def pri a_def)
  ultimately show thesis using that[OF run _ nn] by blast
qed

lemma exc_both_replace:
  assumes ord: "heap_from 1 n k" and i: "1 \<le> i" and n': "n' \<le> n"
    and k': "\<And>l. 1 \<le> l \<Longrightarrow> l \<le> n' \<Longrightarrow> l \<noteq> i \<Longrightarrow> k' l = k l"
  shows "exc_both n' k' i"
proof -
  have A: "k j \<le> k (j div 2)" if "2 \<le> j" "j \<le> n'" for j using ord that n' by (simp add: heap_from_def)
  have "k' c \<le> k' (i div 2)" if c: "2 \<le> i" "c div 2 = i" "c \<le> n'" for c
  proof -
    have "i < c" "i div 2 < i" "1 \<le> i div 2" using c by linarith+
    then show ?thesis using A[of c] A[of i] c k'[of c] k'[of "i div 2"] by auto
  qed
  moreover have "k' j \<le> k' (j div 2)" if "2 \<le> j" "j \<le> n'" "j \<noteq> i" "j div 2 \<noteq> i" for j
    using A[OF that(1,2)] k'[of j] k'[of "j div 2"] that by auto
  ultimately show ?thesis by (simp add: exc_both_def grand_def)
qed

lemma heap_from_mono: "heap_from m n k \<Longrightarrow> n' \<le> n \<Longrightarrow> 1 \<le> m \<Longrightarrow> (\<And>l. 1 \<le> l \<Longrightarrow> l \<le> n' \<Longrightarrow> k' l = k l) \<Longrightarrow> heap_from m n' k'"
  by (auto simp: heap_from_def)

lemma heap_remove_ok:
  assumes ok: "heap_ok h" and member: "heap_map h node = Some q"
  shows "\<exists>h'. heap_remove h node = Inr h' \<and> heap_ok h' \<and> heap_map h' = (heap_map h)(node := None)"
proof -
  let ?i = "hn_idx (hp_nodes h node)"
  have wf: "heap_wf h" and ord: "heap_from 1 (hp_n h) (heap_key h)" using ok by (auto simp: heap_ok_def)
  obtain h1 where r: "heap_raw_remove h node = Inr h1" "heap_wf h1" "hp_n h1 = hp_n h - 1"
    "heap_map h1 = (heap_map h)(node := None)"
    and k: "\<And>l. 1 \<le> l \<Longrightarrow> l < hp_n h \<Longrightarrow> heap_key h1 l = (if l = ?i then heap_key h (hp_n h) else heap_key h l)"
    using heap_raw_remove_ok[OF wf member] by metis
  note m = heap_map_Some[OF wf member]
  show ?thesis
  proof (cases "?i \<le> hp_n h1")
    case True
    have "exc_both (hp_n h1) (heap_key h1) ?i"
      by (rule exc_both_replace[OF ord m(1)]) (use k r(3) in auto)
    from float_up_or_down_ok[OF r(2) m(1) True this] obtain h' where f: "float_up_or_down h1 ?i = Inr h'"
      "same_map h1 h'" "heap_from 1 (hp_n h') (heap_key h')" by blast
    with r(1,4) True same_map_ok[OF f(2,3)] show ?thesis by (simp add: heap_remove_def)
  next
    case False
    then have "heap_from 1 (hp_n h1) (heap_key h1)"
      using heap_from_mono[OF ord, of "hp_n h1" "heap_key h1"] k r(3) m by auto
    with r False show ?thesis by (simp add: heap_remove_def heap_ok_def)
  qed
qed

lemma heap_raw_change_ok:
  assumes wf: "heap_wf h" and member: "heap_map h node = Some q"
  shows "heap_wf (heap_raw_change h node p)" and "heap_map (heap_raw_change h node p) = (heap_map h)(node \<mapsto> p)"
    and "1 \<le> l \<Longrightarrow> l \<le> hp_n h \<Longrightarrow> l \<noteq> hn_idx (hp_nodes h node) \<Longrightarrow> heap_key (heap_raw_change h node p) l = heap_key h l"
proof -
  show "heap_map (heap_raw_change h node p) = (heap_map h)(node \<mapsto> p)"
    using member by (intro ext) (auto simp: heap_raw_change_def heap_map_def split: if_splits)
qed (use wf member in \<open>auto simp: heap_raw_change_def heap_wf_def heap_map_def heap_key_def split: if_splits\<close>)

lemma heap_change_ok:
  assumes ok: "heap_ok h" and member: "heap_map h node = Some q"
  shows "\<exists>h'. heap_change h node p = Inr h' \<and> heap_ok h' \<and> heap_map h' = (heap_map h)(node \<mapsto> p)"
proof -
  let ?i = "hn_idx (hp_nodes h node)" and ?h = "heap_raw_change h node p"
  have wf: "heap_wf h" and ord: "heap_from 1 (hp_n h) (heap_key h)" using ok by (auto simp: heap_ok_def)
  note m = heap_map_Some[OF wf member] and c = heap_raw_change_ok[OF wf member]
  have n: "hp_n ?h = hp_n h" "hn_idx (hp_nodes ?h node) = ?i" by (simp_all add: heap_raw_change_def)
  have "exc_both (hp_n ?h) (heap_key ?h) ?i"
    by (rule exc_both_replace[OF ord m(1)]) (use c(3) n in auto)
  from float_up_or_down_ok[OF c(1) m(1) _ this] m(2) n obtain h' where f: "float_up_or_down ?h ?i = Inr h'"
    "same_map ?h h'" "heap_from 1 (hp_n h') (heap_key h')" by auto
  with c(2) n same_map_ok[OF f(2,3)] show ?thesis by (simp add: heap_change_def)
qed

lemma heap_pop_ok:
  assumes ok: "heap_ok h" and n: "\<not> heap_is_empty h"
  shows "\<exists>a h'. heap_pop h = Inr (a, h') \<and> heap_ok h' \<and> a \<in> dom (heap_map h) \<and> heap_map h' = (heap_map h)(a := None)"
proof -
  have wf: "heap_wf h" and ord: "heap_from 1 (hp_n h) (heap_key h)" using ok by (auto simp: heap_ok_def)
  let ?a = "hp_array h ! hp_n h"
  have n1: "1 \<le> hp_n h" using n by (simp add: heap_is_empty_def)
  have mem: "heap_map h ?a = Some (heap_key h (hp_n h))" using n1 by (auto simp: heap_map_def heap_key_def)
  have at: "node_at h (hp_n h) = Inr ?a" using heap_wf_length[OF wf _ n1] by (simp add: node_at_def)
  have idx: "hn_idx (hp_nodes h ?a) = hp_n h" using wf n1 by (simp add: heap_wf_def)
  then have "heap_raw_remove h ?a = Inr (h\<lparr>hp_n := size_dec (hp_n h)\<rparr>)" by (simp add: heap_raw_remove_def)
  then have "heap_remove h ?a = Inr (h\<lparr>hp_n := size_dec (hp_n h)\<rparr>)"
    using n1 idx by (auto simp: heap_remove_def Let_def size_dec_def)
  with heap_remove_ok[OF ok mem] mem at show ?thesis by (auto simp: heap_pop_def)
qed

lemma rebuild_loop_ok:
  "heap_wf h \<Longrightarrow> heap_from (Suc i) (hp_n h) (heap_key h) \<Longrightarrow>
     \<exists>h'. rebuild_loop h i = Inr h' \<and> same_map h h' \<and> heap_from 1 (hp_n h') (heap_key h')"
proof (induction i arbitrary: h)
  case (Suc i)
  have "grand (Suc i) (hp_n h) (heap_key h) (Suc i)" by (auto simp: grand_def)
  then have "exc_down (Suc i) (hp_n h) (heap_key h) (Suc i)"
    using Suc.prems(2) unfolding exc_down_def heap_from_def by (metis Suc_leI le_neq_implies_less)
  from float_down_loop_ok[OF Suc.prems(1) _ _ this] obtain h1 where f: "float_down_loop (hp_n h) h (Suc i) = Inr h1"
    "same_map h h1" "heap_from (Suc i) (hp_n h1) (heap_key h1)" by auto
  with Suc.IH[of h1] show ?case by (auto simp: float_down_def same_map_def)
qed (auto simp: same_map_refl)

lemma heap_rebuild_ok:
  assumes "heap_wf h"
  shows "\<exists>h'. heap_rebuild h = Inr h' \<and> heap_ok h' \<and> heap_map h' = heap_map h"
proof -
  have "heap_from (Suc (hp_n h div 2)) (hp_n h) (heap_key h)"
    unfolding heap_from_def by (metis Suc_n_not_le_n div_le_mono order_trans)
  from rebuild_loop_ok[OF assms this] show ?thesis by (auto simp: heap_rebuild_def dest: same_map_ok)
qed

section \<open>The contract\<close>

text \<open>A priority queue over a finite map: its commands, when they are legal, and their effect on the map.\<close>

datatype pq_command = PQ_Insert nat u64 | PQ_Remove nat | PQ_Change nat u64

fun pq_legal :: "(nat \<Rightarrow> u64 option) \<Rightarrow> pq_command \<Rightarrow> bool" where
  "pq_legal m (PQ_Insert a p) \<longleftrightarrow> m a = None"
| "pq_legal m (PQ_Remove a) \<longleftrightarrow> m a \<noteq> None"
| "pq_legal m (PQ_Change a p) \<longleftrightarrow> m a \<noteq> None"

fun pq_effect :: "(nat \<Rightarrow> u64 option) \<Rightarrow> pq_command \<Rightarrow> (nat \<Rightarrow> u64 option)" where
  "pq_effect m (PQ_Insert a p) = m(a \<mapsto> p)"
| "pq_effect m (PQ_Remove a) = m(a := None)"
| "pq_effect m (PQ_Change a p) = m(a \<mapsto> p)"

fun pq_legal_run :: "(nat \<Rightarrow> u64 option) \<Rightarrow> pq_command list \<Rightarrow> bool" where
  "pq_legal_run m [] \<longleftrightarrow> True"
| "pq_legal_run m (c # cs) \<longleftrightarrow> pq_legal m c \<and> pq_legal_run (pq_effect m c) cs"

fun heap_command :: "heap \<Rightarrow> pq_command \<Rightarrow> heap result" where
  "heap_command h (PQ_Insert a p) = heap_insert h a p"
| "heap_command h (PQ_Remove a) = heap_remove h a"
| "heap_command h (PQ_Change a p) = heap_change h a p"

fun heap_commands :: "heap \<Rightarrow> pq_command list \<Rightarrow> heap result" where
  "heap_commands h [] = Inr h"
| "heap_commands h (c # cs) = rbind (heap_command h c) (\<lambda>h. heap_commands h cs)"

locale priority_queue =
  fixes ok :: "'q \<Rightarrow> bool" and view :: "'q \<Rightarrow> nat \<Rightarrow> u64 option"
    and command :: "'q \<Rightarrow> pq_command \<Rightarrow> 'q result" and commands :: "'q \<Rightarrow> pq_command list \<Rightarrow> 'q result"
  assumes command_law: "ok q \<Longrightarrow> pq_legal (view q) c \<Longrightarrow>
      \<exists>q'. command q c = Inr q' \<and> ok q' \<and> view q' = pq_effect (view q) c"
    and commands_nil: "commands q [] = Inr q"
    and commands_cons: "commands q (c # cs) = rbind (command q c) (\<lambda>q. commands q cs)"
begin

lemma commands_refine:
  "ok q \<Longrightarrow> pq_legal_run (view q) cs \<Longrightarrow>
     \<exists>q'. commands q cs = Inr q' \<and> ok q' \<and> view q' = foldl pq_effect (view q) cs"
proof (induction cs arbitrary: q)
  case (Cons c cs)
  then obtain q1 where c: "command q c = Inr q1" "ok q1" "view q1 = pq_effect (view q) c"
    using command_law[of q c] by auto
  with Cons.IH[of q1] Cons.prems show ?case by (simp add: commands_cons)
qed (simp add: commands_nil)

end

interpretation heap_queue: priority_queue heap_ok heap_map heap_command heap_commands
proof
  show "\<exists>h'. heap_command h c = Inr h' \<and> heap_ok h' \<and> heap_map h' = pq_effect (heap_map h) c"
    if "heap_ok h" "pq_legal (heap_map h) c" for h c
    using that heap_insert_ok heap_remove_ok heap_change_ok by (cases c) auto
qed simp_all

end
