(* ===== verification/Token_Bucket.thy ===== *)
theory Token_Bucket
  imports Ovs_Prelude
begin

text \<open>
  The token bucket of \<^verbatim>\<open>lib/token-bucket.c\<close> that limits the rate of log messages and packets, with
  the saturating arithmetic of \<^verbatim>\<open>lib/sat-math.h\<close>. Times are milliseconds of type \<^verbatim>\<open>long long int\<close>.
\<close>

unbundle bit_operations_syntax

definition UINT_MAX :: u32 where
  "UINT_MAX = - 1"

definition LLONG_MIN :: int where
  "LLONG_MIN = - (2 ^ 63)"

definition sat_add :: "u32 \<Rightarrow> u32 \<Rightarrow> u32" where
  "sat_add x y = (if x + y \<ge> x then x + y else UINT_MAX)"

definition sat_mul :: "u32 \<Rightarrow> u32 \<Rightarrow> u32" where
  "sat_mul x y = (if y = 0 then 0 else if x \<le> UINT_MAX div y then x * y else UINT_MAX)"

record token_bucket =
  tb_rate :: u32
  tb_burst :: u32
  tb_tokens :: u32
  tb_last_fill :: int

definition token_bucket_init :: "u32 \<Rightarrow> u32 \<Rightarrow> token_bucket" where
  "token_bucket_init rate burst =
     \<lparr>tb_rate = rate, tb_burst = burst, tb_tokens = 0, tb_last_fill = LLONG_MIN\<rparr>"

definition token_bucket_set :: "token_bucket \<Rightarrow> u32 \<Rightarrow> u32 \<Rightarrow> token_bucket" where
  "token_bucket_set tb rate burst =
     (let tb = tb\<lparr>tb_rate := rate, tb_burst := burst\<rparr>
      in if burst > tb_tokens tb then tb\<lparr>tb_tokens := burst\<rparr> else tb)"

text \<open>The subtraction of the times is done in \<^verbatim>\<open>unsigned long long int\<close>; \<open>now\<close> is \<^verbatim>\<open>time_msec()\<close>.\<close>

definition token_bucket_fill :: "token_bucket \<Rightarrow> int \<Rightarrow> token_bucket" where
  "token_bucket_fill tb now =
     (if now > tb_last_fill tb
      then let elapsed_ull = (of_int now - of_int (tb_last_fill tb) :: u64);
               elapsed = (if elapsed_ull < ucast UINT_MAX then ucast elapsed_ull else UINT_MAX);
               add = sat_mul (tb_rate tb) elapsed;
               tokens = sat_add (tb_tokens tb) add
           in tb\<lparr>tb_tokens := min tokens (tb_burst tb), tb_last_fill := now\<rparr>
      else tb)"

definition token_bucket_withdraw :: "token_bucket \<Rightarrow> u32 \<Rightarrow> int \<Rightarrow> bool \<times> token_bucket" where
  "token_bucket_withdraw tb n now =
     (let tb = (if tb_tokens tb < n then token_bucket_fill tb now else tb)
      in if tb_tokens tb < n then (False, tb) else (True, tb\<lparr>tb_tokens := tb_tokens tb - n\<rparr>))"

text \<open>The time at which the poll loop wakes up: \<open>None\<close> for at once.\<close>

definition token_bucket_wait :: "token_bucket \<Rightarrow> u32 \<Rightarrow> int option result" where
  "token_bucket_wait tb n =
     (if tb_tokens tb \<ge> n then Inr None
      else let need = n - tb_tokens tb in
           if tb_rate tb = 0 then Inl Div_By_Zero
           else Inr (Some (tb_last_fill tb + uint (need div tb_rate tb) + 1)))"

section \<open>Saturating arithmetic\<close>

lemma unat_UINT_MAX: "unat UINT_MAX = 2 ^ 32 - 1"
  by (simp add: UINT_MAX_def unsigned_minus_1_eq_mask mask_eq_exp_minus_1)

lemma unat_sat_add: "unat (sat_add x y) = min (unat x + unat y) (2 ^ 32 - 1)"
proof -
  have b: "unat x < 2 ^ 32" "unat y < 2 ^ 32" 
    using unsigned_less[of x, where ?'a = nat] unsigned_less[of y, where ?'a = nat] by simp_all
  show ?thesis
  proof (cases "unat x + unat y < 2 ^ 32")
    case True
    then have "unat (x + y) = unat x + unat y" by (simp add: unat_word_ariths(1))
    with True show ?thesis by (simp add: sat_add_def word_le_nat_alt)
  next
    case False
    then have "unat (x + y) = unat x + unat y - 2 ^ 32"
      using b by (simp add: unat_word_ariths(1) mod_if)
    with False b show ?thesis by (simp add: sat_add_def word_le_nat_alt unat_UINT_MAX)
  qed
qed

lemma unat_sat_mul: "unat (sat_mul x y) = min (unat x * unat y) (2 ^ 32 - 1)"
proof (cases "y = 0")
  case False
  then have y: "0 < unat y" by (simp add: unat_gt_0)
  have "x \<le> UINT_MAX div y \<longleftrightarrow> unat x \<le> (2 ^ 32 - 1) div unat y"
    by (simp add: word_le_nat_alt unat_div_distrib unat_UINT_MAX)
  also have "\<dots> \<longleftrightarrow> unat x * unat y \<le> 2 ^ 32 - 1" using y by (rule less_eq_div_iff_mult_less_eq)
  finally show ?thesis
    using False by (auto simp: sat_mul_def unat_UINT_MAX unat_word_ariths(2) min_def)
qed (simp add: sat_mul_def)

section \<open>Limits\<close>

definition tb_ok :: "token_bucket \<Rightarrow> bool" where
  "tb_ok tb \<longleftrightarrow> tb_tokens tb \<le> tb_burst tb \<and> LLONG_MIN \<le> tb_last_fill tb \<and> tb_last_fill tb < 2 ^ 63"

lemma tb_ok_init: "tb_ok (token_bucket_init rate burst)"
  by (simp add: tb_ok_def token_bucket_init_def LLONG_MIN_def)

lemma elapsed_ull:
  assumes "LLONG_MIN \<le> past" and "past < now" and "now < 2 ^ 63"
  shows "uint (of_int now - of_int past :: u64) = now - past"
proof -
  have "(of_int now - of_int past :: u64) = of_int (now - past)" by simp
  then show ?thesis
    using assms by (simp add: LLONG_MIN_def uint_word_of_int_eq take_bit_int_eq_self del: of_int_diff)
qed

text \<open>A fill adds at most the rate times the time that has passed.\<close>

lemma token_bucket_fill_bound:
  assumes "tb_ok tb" and "tb_last_fill tb < now" and "now < 2 ^ 63"
  shows "uint (tb_tokens (token_bucket_fill tb now)) \<le>
      uint (tb_tokens tb) + uint (tb_rate tb) * (now - tb_last_fill tb)"
    and "tb_tokens (token_bucket_fill tb now) \<le> tb_burst tb"
proof -
  let ?e = "of_int now - of_int (tb_last_fill tb) :: u64"
  define el :: u32 where "el = (if ?e < ucast UINT_MAX then ucast ?e else UINT_MAX)"
  have e: "uint ?e = now - tb_last_fill tb" using assms by (intro elapsed_ull) (auto simp: tb_ok_def)
  have "uint (ucast ?e :: u32) \<le> uint ?e"
    by (simp add: unsigned_ucast_eq take_bit_eq_mod zmod_le_nonneg_dividend del: of_int_diff)
  moreover have "uint (ucast UINT_MAX :: u64) = uint UINT_MAX" 
    by (simp add: unsigned_ucast_eq UINT_MAX_def unsigned_minus_1_eq_mask mask_eq_exp_minus_1)
  ultimately have el: "uint el \<le> now - tb_last_fill tb"
    using e by (auto simp: el_def word_less_def not_less)
  have t: "tb_tokens (token_bucket_fill tb now) = min (sat_add (tb_tokens tb) (sat_mul (tb_rate tb) el)) (tb_burst tb)"
    using assms(2) by (simp add: token_bucket_fill_def Let_def el_def)
  have "unat (sat_add (tb_tokens tb) (sat_mul (tb_rate tb) el)) \<le> unat (tb_tokens tb) + unat (tb_rate tb) * unat el"
    by (simp add: unat_sat_add unat_sat_mul)
  then have "int (unat (sat_add (tb_tokens tb) (sat_mul (tb_rate tb) el))) \<le>
      int (unat (tb_tokens tb) + unat (tb_rate tb) * unat el)" by (simp only: zle_int)
  then have "uint (sat_add (tb_tokens tb) (sat_mul (tb_rate tb) el)) \<le> uint (tb_tokens tb) + uint (tb_rate tb) * uint el"
    by simp
  also have "\<dots> \<le> uint (tb_tokens tb) + uint (tb_rate tb) * (now - tb_last_fill tb)"
    using el by (simp add: mult_left_mono)
  finally show "uint (tb_tokens (token_bucket_fill tb now)) \<le>
      uint (tb_tokens tb) + uint (tb_rate tb) * (now - tb_last_fill tb)"
    unfolding t by (smt (verit) min.cobounded1 word_le_def)
  show "tb_tokens (token_bucket_fill tb now) \<le> tb_burst tb" unfolding t by simp
qed

text \<open>A sequence of withdrawals: the tokens granted in all and the bucket afterwards.\<close>

fun withdrawals :: "token_bucket \<Rightarrow> (u32 \<times> int) list \<Rightarrow> int \<times> token_bucket" where
  "withdrawals tb [] = (0, tb)"
| "withdrawals tb ((n, now) # rs) =
     (let (ok, tb) = token_bucket_withdraw tb n now; (granted, tb) = withdrawals tb rs
      in ((if ok then uint n else 0) + granted, tb))"

lemma token_bucket_fill_ok:
  assumes "tb_ok tb" and "now < 2 ^ 63"
  shows "tb_ok (token_bucket_fill tb now)"
    and "tb_rate (token_bucket_fill tb now) = tb_rate tb" and "tb_burst (token_bucket_fill tb now) = tb_burst tb"
    and "tb_last_fill (token_bucket_fill tb now) = max now (tb_last_fill tb)"
    and "uint (tb_tokens (token_bucket_fill tb now)) \<le>
      uint (tb_tokens tb) + uint (tb_rate tb) * (tb_last_fill (token_bucket_fill tb now) - tb_last_fill tb)"
  using assms token_bucket_fill_bound[OF assms(1) _ assms(2)]
  by (auto simp: tb_ok_def token_bucket_fill_def Let_def)

lemma token_bucket_withdraw_bound:
  assumes "tb_ok tb" and "now < 2 ^ 63" and run: "token_bucket_withdraw tb n now = (ok, tb')"
  shows "tb_ok tb'" and "tb_rate tb' = tb_rate tb" and "tb_burst tb' = tb_burst tb"
    and "tb_last_fill tb \<le> tb_last_fill tb'" and "tb_last_fill tb' \<le> max now (tb_last_fill tb)"
    and "(if ok then uint n else 0) + uint (tb_tokens tb') \<le>
      uint (tb_tokens tb) + uint (tb_rate tb) * (tb_last_fill tb' - tb_last_fill tb)"
proof -
  define f where "f = (if tb_tokens tb < n then token_bucket_fill tb now else tb)"
  have f: "tb_ok f" "tb_rate f = tb_rate tb" "tb_burst f = tb_burst tb" "tb_last_fill tb \<le> tb_last_fill f"
    "tb_last_fill f \<le> max now (tb_last_fill tb)"
    "uint (tb_tokens f) \<le> uint (tb_tokens tb) + uint (tb_rate tb) * (tb_last_fill f - tb_last_fill tb)"
    using token_bucket_fill_ok[OF assms(1,2)] assms(1) by (simp_all add: f_def)
  have tb': "tb' = (if tb_tokens f < n then f else f\<lparr>tb_tokens := tb_tokens f - n\<rparr>)" "ok \<longleftrightarrow> \<not> tb_tokens f < n"
    using run by (auto simp: token_bucket_withdraw_def Let_def f_def split: if_splits)
  have sub: "uint (tb_tokens f - n) = uint (tb_tokens f) - uint n" "tb_tokens f - n \<le> tb_tokens f" if "\<not> tb_tokens f < n"
    using that by (auto simp: uint_minus_simple_alt not_less word_sub_le)
  show "tb_rate tb' = tb_rate tb" "tb_burst tb' = tb_burst tb" "tb_last_fill tb \<le> tb_last_fill tb'"
    "tb_last_fill tb' \<le> max now (tb_last_fill tb)" using f tb' by auto
  show "tb_ok tb'" using f(1) tb'(1) sub(2) by (auto simp: tb_ok_def intro: order.trans)
  show "(if ok then uint n else 0) + uint (tb_tokens tb') \<le>
      uint (tb_tokens tb) + uint (tb_rate tb) * (tb_last_fill tb' - tb_last_fill tb)"
    using f(6) tb' sub(1) by auto
qed

lemma withdrawals_bound:
  assumes "tb_ok tb" and "\<forall>(n, now) \<in> set rs. now \<le> t" and "t < 2 ^ 63" and "tb_last_fill tb \<le> t"
    and "withdrawals tb rs = (granted, tb')"
  shows "tb_ok tb' \<and> tb_burst tb' = tb_burst tb \<and> tb_rate tb' = tb_rate tb \<and> tb_last_fill tb' \<le> t \<and>
    granted + uint (tb_tokens tb') \<le> uint (tb_tokens tb) + uint (tb_rate tb) * (tb_last_fill tb' - tb_last_fill tb)"
  using assms
proof (induction tb rs arbitrary: granted rule: withdrawals.induct)
  case (2 tb n now rs)
  obtain ok tb1 where w: "token_bucket_withdraw tb n now = (ok, tb1)" by fastforce
  obtain g where r: "withdrawals tb1 rs = (g, tb')" "granted = (if ok then uint n else 0) + g"
    using 2(6) w by (auto simp: Let_def split: prod.splits)
  have now: "now < 2 ^ 63" "now \<le> t" using 2(3,4) by auto
  note W = token_bucket_withdraw_bound[OF 2(2) now(1) w]
  have "tb_last_fill tb1 \<le> t" using W(5) now(2) 2(5) by linarith
  from 2(1)[OF w[symmetric] refl W(1) _ 2(4) this r(1)] 2(3)
  have I: "tb_ok tb'" "tb_burst tb' = tb_burst tb1" "tb_rate tb' = tb_rate tb1" "tb_last_fill tb' \<le> t"
    "g + uint (tb_tokens tb') \<le> uint (tb_tokens tb1) + uint (tb_rate tb1) * (tb_last_fill tb' - tb_last_fill tb1)"
    by auto
  have "granted + uint (tb_tokens tb') \<le> uint (tb_tokens tb) +
      (uint (tb_rate tb) * (tb_last_fill tb1 - tb_last_fill tb) + uint (tb_rate tb) * (tb_last_fill tb' - tb_last_fill tb1))"
    using I(5) W(2,6) r(2) by simp
  then show ?case using I W by (simp add: algebra_simps)
qed simp

end
