(* ===== verification/Reconnect.thy ===== *)
theory Reconnect
  imports Token_Bucket
begin

text \<open>
  The connection state machine of \<^verbatim>\<open>lib/reconnect.c\<close>, which decides for every OpenFlow and database
  connection when to connect, to probe and to give up. Log messages are left out. Times are the
  milliseconds of \<^verbatim>\<open>time_msec()\<close> as integers: sums of them stay far inside \<^verbatim>\<open>long long\<close>, whose
  overflow C leaves undefined. The counters are the 32-bit unsigned integers of the code.
\<close>

section \<open>The state machine\<close>

datatype rc_state = S_VOID | S_BACKOFF | S_CONNECTING | S_ACTIVE | S_IDLE | S_RECONNECT | S_LISTENING

fun state_value :: "rc_state \<Rightarrow> u32" where
  "state_value S_VOID = 1"
| "state_value S_BACKOFF = 2"
| "state_value S_CONNECTING = 8"
| "state_value S_ACTIVE = 16"
| "state_value S_IDLE = 32"
| "state_value S_RECONNECT = 64"
| "state_value S_LISTENING = 128"

text \<open>\<^verbatim>\<open>state & (S_A | S_B | ...)\<close>\<close>

definition state_in :: "rc_state \<Rightarrow> rc_state list \<Rightarrow> bool" where
  "state_in s ss \<longleftrightarrow> state_value s AND foldr (\<lambda>t m. state_value t OR m) ss 0 \<noteq> 0"

definition is_connected_state :: "rc_state \<Rightarrow> bool" where
  "is_connected_state s \<longleftrightarrow> state_in s [S_ACTIVE, S_IDLE]"

fun reconnect_state_name :: "rc_state \<Rightarrow> string" where
  "reconnect_state_name S_VOID = ''VOID''"
| "reconnect_state_name S_BACKOFF = ''BACKOFF''"
| "reconnect_state_name S_CONNECTING = ''CONNECTING''"
| "reconnect_state_name S_ACTIVE = ''ACTIVE''"
| "reconnect_state_name S_IDLE = ''IDLE''"
| "reconnect_state_name S_RECONNECT = ''RECONNECT''"
| "reconnect_state_name S_LISTENING = ''LISTENING''"

datatype vlog_level = VLL_DBG | VLL_INFO

record reconnect =
  rc_name :: string
  rc_min_backoff :: int
  rc_max_backoff :: int
  rc_probe_interval :: int
  rc_passive :: bool
  rc_info :: vlog_level
  rc_state :: rc_state
  rc_state_entered :: int
  rc_backoff :: int
  rc_last_activity :: int
  rc_last_connected :: int
  rc_last_disconnected :: int
  rc_max_tries :: u32
  rc_creation_time :: int
  rc_n_attempted_connections :: u32
  rc_n_successful_connections :: u32
  rc_total_connected_duration :: u32
  rc_seqno :: u32

definition LLONG_MAX :: int where "LLONG_MAX = 2 ^ 63 - 1"
definition INT_MAX :: int where "INT_MAX = 2 ^ 31 - 1"
definition RECONNECT_DEFAULT_MIN_BACKOFF :: int where "RECONNECT_DEFAULT_MIN_BACKOFF = 1000"
definition RECONNECT_DEFAULT_MAX_BACKOFF :: int where "RECONNECT_DEFAULT_MAX_BACKOFF = 8000"
definition RECONNECT_DEFAULT_PROBE_INTERVAL :: int where "RECONNECT_DEFAULT_PROBE_INTERVAL = 5000"

definition reconnect_create :: "int \<Rightarrow> reconnect" where
  "reconnect_create now =
     \<lparr>rc_name = ''void'', rc_min_backoff = RECONNECT_DEFAULT_MIN_BACKOFF,
      rc_max_backoff = RECONNECT_DEFAULT_MAX_BACKOFF, rc_probe_interval = RECONNECT_DEFAULT_PROBE_INTERVAL,
      rc_passive = False, rc_info = VLL_INFO, rc_state = S_VOID, rc_state_entered = now, rc_backoff = 0,
      rc_last_activity = now, rc_last_connected = LLONG_MAX, rc_last_disconnected = LLONG_MAX,
      rc_max_tries = UINT_MAX, rc_creation_time = now, rc_n_attempted_connections = 0,
      rc_n_successful_connections = 0, rc_total_connected_duration = 0, rc_seqno = 0\<rparr>"

definition reconnect_transition :: "reconnect \<Rightarrow> int \<Rightarrow> rc_state \<Rightarrow> reconnect" where
  "reconnect_transition fsm now state =
     (let fsm = (if rc_state fsm = S_CONNECTING
                 then let fsm = fsm\<lparr>rc_n_attempted_connections := rc_n_attempted_connections fsm + 1\<rparr>
                      in if state = S_ACTIVE
                         then fsm\<lparr>rc_n_successful_connections := rc_n_successful_connections fsm + 1\<rparr>
                         else fsm
                 else fsm);
          fsm = (if is_connected_state (rc_state fsm) \<noteq> is_connected_state state
                 then let fsm = (if is_connected_state (rc_state fsm)
                                 then fsm\<lparr>rc_total_connected_duration := rc_total_connected_duration fsm
                                            + word_of_int (now - rc_last_connected fsm)\<rparr>
                                 else fsm)
                      in fsm\<lparr>rc_seqno := rc_seqno fsm + 1\<rparr>
                 else fsm)
      in fsm\<lparr>rc_state := state, rc_state_entered := now\<rparr>)"

definition reconnect_may_retry :: "reconnect \<Rightarrow> bool \<times> reconnect" where
  "reconnect_may_retry fsm =
     (let may_retry = rc_max_tries fsm > 0
      in (may_retry, if may_retry \<and> rc_max_tries fsm \<noteq> UINT_MAX
                     then fsm\<lparr>rc_max_tries := rc_max_tries fsm - 1\<rparr> else fsm))"

definition reconnect_set_quiet :: "reconnect \<Rightarrow> bool \<Rightarrow> reconnect" where
  "reconnect_set_quiet fsm quiet = fsm\<lparr>rc_info := if quiet then VLL_DBG else VLL_INFO\<rparr>"

definition reconnect_set_name :: "reconnect \<Rightarrow> string option \<Rightarrow> reconnect" where
  "reconnect_set_name fsm name = fsm\<lparr>rc_name := case name of Some n \<Rightarrow> n | None \<Rightarrow> ''void''\<rparr>"

definition reconnect_set_max_tries :: "reconnect \<Rightarrow> u32 \<Rightarrow> reconnect" where
  "reconnect_set_max_tries fsm max_tries = fsm\<lparr>rc_max_tries := max_tries\<rparr>"

definition reconnect_set_backoff :: "reconnect \<Rightarrow> int \<Rightarrow> int \<Rightarrow> reconnect" where
  "reconnect_set_backoff fsm min_backoff max_backoff =
     (let fsm = fsm\<lparr>rc_min_backoff := max min_backoff 1000,
                    rc_max_backoff := if max_backoff \<noteq> 0 then max max_backoff 1000
                                      else RECONNECT_DEFAULT_MAX_BACKOFF\<rparr>;
          fsm = (if rc_min_backoff fsm > rc_max_backoff fsm
                 then fsm\<lparr>rc_max_backoff := rc_min_backoff fsm\<rparr> else fsm)
      in if rc_state fsm = S_BACKOFF \<and> rc_backoff fsm > max_backoff
         then fsm\<lparr>rc_backoff := max_backoff\<rparr> else fsm)"

definition reconnect_set_probe_interval :: "reconnect \<Rightarrow> int \<Rightarrow> reconnect" where
  "reconnect_set_probe_interval fsm probe_interval =
     fsm\<lparr>rc_probe_interval := if probe_interval \<noteq> 0 then max 1000 probe_interval else 0\<rparr>"

text \<open>Retries are only counted when the test before \<^verbatim>\<open>&&\<close> holds.\<close>

definition reconnect_set_passive :: "reconnect \<Rightarrow> bool \<Rightarrow> int \<Rightarrow> reconnect" where
  "reconnect_set_passive fsm passive now =
     (if rc_passive fsm \<noteq> passive
      then let fsm = fsm\<lparr>rc_passive := passive\<rparr>;
               (go, fsm) = (if passive then (state_in (rc_state fsm) [S_CONNECTING, S_RECONNECT], fsm)
                            else if rc_state fsm = S_LISTENING then reconnect_may_retry fsm
                            else (False, fsm))
           in if go then (reconnect_transition fsm now S_BACKOFF)\<lparr>rc_backoff := 0\<rparr> else fsm
      else fsm)"

definition reconnect_is_enabled :: "reconnect \<Rightarrow> bool" where
  "reconnect_is_enabled fsm \<longleftrightarrow> rc_state fsm \<noteq> S_VOID"

definition reconnect_enable :: "reconnect \<Rightarrow> int \<Rightarrow> reconnect" where
  "reconnect_enable fsm now =
     (if rc_state fsm = S_VOID
      then let (go, fsm) = reconnect_may_retry fsm
           in if go then (reconnect_transition fsm now S_BACKOFF)\<lparr>rc_backoff := 0\<rparr> else fsm
      else fsm)"

definition reconnect_disable :: "reconnect \<Rightarrow> int \<Rightarrow> reconnect" where
  "reconnect_disable fsm now = (if rc_state fsm \<noteq> S_VOID then reconnect_transition fsm now S_VOID else fsm)"

definition reconnect_force_reconnect :: "reconnect \<Rightarrow> int \<Rightarrow> reconnect" where
  "reconnect_force_reconnect fsm now =
     (if state_in (rc_state fsm) [S_CONNECTING, S_ACTIVE, S_IDLE]
      then reconnect_transition fsm now S_RECONNECT else fsm)"

text \<open>The error only chooses a log message.\<close>

definition reconnect_disconnected :: "reconnect \<Rightarrow> int \<Rightarrow> reconnect" where
  "reconnect_disconnected fsm now =
     (if \<not> state_in (rc_state fsm) [S_BACKOFF, S_VOID]
      then let fsm = (if state_in (rc_state fsm) [S_ACTIVE, S_IDLE]
                      then fsm\<lparr>rc_last_disconnected := now\<rparr> else fsm);
               fsm = (if state_in (rc_state fsm) [S_ACTIVE, S_IDLE] \<and>
                         (rc_last_activity fsm - rc_last_connected fsm \<ge> rc_backoff fsm \<or> rc_passive fsm)
                      then fsm\<lparr>rc_backoff := if rc_passive fsm then 0 else rc_min_backoff fsm\<rparr>
                      else if rc_backoff fsm < rc_min_backoff fsm
                      then fsm\<lparr>rc_backoff := rc_min_backoff fsm\<rparr>
                      else if rc_backoff fsm \<ge> rc_max_backoff fsm div 2
                      then fsm\<lparr>rc_backoff := rc_max_backoff fsm\<rparr>
                      else fsm\<lparr>rc_backoff := rc_backoff fsm * 2\<rparr>);
               (retry, fsm) = reconnect_may_retry fsm
           in reconnect_transition fsm now (if retry then S_BACKOFF else S_VOID)
      else fsm)"

definition reconnect_connecting :: "reconnect \<Rightarrow> int \<Rightarrow> reconnect" where
  "reconnect_connecting fsm now =
     (if rc_state fsm \<noteq> S_CONNECTING then reconnect_transition fsm now S_CONNECTING else fsm)"

definition reconnect_listening :: "reconnect \<Rightarrow> int \<Rightarrow> reconnect" where
  "reconnect_listening fsm now =
     (if rc_state fsm \<noteq> S_LISTENING then reconnect_transition fsm now S_LISTENING else fsm)"

definition reconnect_listen_error :: "reconnect \<Rightarrow> int \<Rightarrow> reconnect" where
  "reconnect_listen_error fsm now =
     (if rc_state fsm = S_LISTENING then reconnect_disconnected fsm now else fsm)"

definition reconnect_connected :: "reconnect \<Rightarrow> int \<Rightarrow> reconnect" where
  "reconnect_connected fsm now =
     (if \<not> is_connected_state (rc_state fsm)
      then (reconnect_transition (reconnect_connecting fsm now) now S_ACTIVE)\<lparr>rc_last_connected := now\<rparr>
      else fsm)"

definition reconnect_connect_failed :: "reconnect \<Rightarrow> int \<Rightarrow> reconnect" where
  "reconnect_connect_failed fsm now = reconnect_disconnected (reconnect_connecting fsm now) now"

definition reconnect_activity :: "reconnect \<Rightarrow> int \<Rightarrow> reconnect" where
  "reconnect_activity fsm now =
     (if rc_state fsm \<noteq> S_ACTIVE then reconnect_transition fsm now S_ACTIVE else fsm)\<lparr>rc_last_activity := now\<rparr>"

fun deadline_of :: "rc_state \<Rightarrow> reconnect \<Rightarrow> int" where
  "deadline_of S_VOID fsm = LLONG_MAX"
| "deadline_of S_LISTENING fsm = LLONG_MAX"
| "deadline_of S_BACKOFF fsm = rc_state_entered fsm + rc_backoff fsm"
| "deadline_of S_CONNECTING fsm = rc_state_entered fsm + max 1000 (rc_backoff fsm)"
| "deadline_of S_ACTIVE fsm =
     (if rc_probe_interval fsm \<noteq> 0
      then max (rc_last_activity fsm) (rc_state_entered fsm) + rc_probe_interval fsm
      else LLONG_MAX)"
| "deadline_of S_IDLE fsm =
     (if rc_probe_interval fsm \<noteq> 0 then rc_state_entered fsm + rc_probe_interval fsm else LLONG_MAX)"
| "deadline_of S_RECONNECT fsm = rc_state_entered fsm"

definition reconnect_deadline :: "reconnect \<Rightarrow> int result" where
  "reconnect_deadline fsm =
     (if rc_state_entered fsm \<noteq> LLONG_MIN then Inr (deadline_of (rc_state fsm) fsm) else Inl Assert_Fail)"

text \<open>\<open>RECONNECT_NONE\<close> is the returned 0.\<close>

datatype reconnect_action = RECONNECT_NONE | RECONNECT_CONNECT | RECONNECT_DISCONNECT | RECONNECT_PROBE

definition reconnect_run :: "reconnect \<Rightarrow> int \<Rightarrow> (reconnect_action \<times> reconnect) result" where
  "reconnect_run fsm now =
     rbind (reconnect_deadline fsm) (\<lambda>deadline.
     Inr (if now \<ge> deadline
          then case rc_state fsm of
                 S_VOID \<Rightarrow> (RECONNECT_NONE, fsm)
               | S_BACKOFF \<Rightarrow> (RECONNECT_CONNECT, fsm)
               | S_CONNECTING \<Rightarrow> (RECONNECT_DISCONNECT, fsm)
               | S_ACTIVE \<Rightarrow> (RECONNECT_PROBE, reconnect_transition fsm now S_IDLE)
               | S_IDLE \<Rightarrow> (RECONNECT_DISCONNECT, fsm)
               | S_RECONNECT \<Rightarrow> (RECONNECT_DISCONNECT, fsm)
               | S_LISTENING \<Rightarrow> (RECONNECT_NONE, fsm)
          else (RECONNECT_NONE, fsm)))"

definition reconnect_timeout :: "reconnect \<Rightarrow> int \<Rightarrow> int result" where
  "reconnect_timeout fsm now =
     rbind (reconnect_deadline fsm) (\<lambda>deadline.
     Inr (if deadline \<noteq> LLONG_MAX then let remaining = deadline - now in max 0 (min INT_MAX remaining) else - 1))"

definition reconnect_is_connected :: "reconnect \<Rightarrow> bool" where
  "reconnect_is_connected fsm \<longleftrightarrow> is_connected_state (rc_state fsm)"

definition reconnect_get_last_connect_elapsed :: "reconnect \<Rightarrow> int \<Rightarrow> u32" where
  "reconnect_get_last_connect_elapsed fsm now =
     (if rc_last_connected fsm = LLONG_MAX then UINT_MAX else word_of_int (now - rc_last_connected fsm))"

definition reconnect_get_last_disconnect_elapsed :: "reconnect \<Rightarrow> int \<Rightarrow> u32" where
  "reconnect_get_last_disconnect_elapsed fsm now =
     (if rc_last_disconnected fsm = LLONG_MAX then UINT_MAX else word_of_int (now - rc_last_disconnected fsm))"

record reconnect_stats =
  rs_creation_time :: int
  rs_last_activity :: int
  rs_last_connected :: int
  rs_last_disconnected :: int
  rs_backoff :: int
  rs_seqno :: u32
  rs_is_connected :: bool
  rs_msec_since_connect :: u32
  rs_msec_since_disconnect :: u32
  rs_total_connected_duration :: u32
  rs_n_attempted_connections :: u32
  rs_n_successful_connections :: u32
  rs_state :: string
  rs_state_elapsed :: u32

definition reconnect_get_stats :: "reconnect \<Rightarrow> int \<Rightarrow> reconnect_stats" where
  "reconnect_get_stats fsm now =
     \<lparr>rs_creation_time = rc_creation_time fsm, rs_last_activity = rc_last_activity fsm,
      rs_last_connected = rc_last_connected fsm, rs_last_disconnected = rc_last_disconnected fsm,
      rs_backoff = rc_backoff fsm, rs_seqno = rc_seqno fsm, rs_is_connected = reconnect_is_connected fsm,
      rs_msec_since_connect = reconnect_get_last_connect_elapsed fsm now,
      rs_msec_since_disconnect = reconnect_get_last_disconnect_elapsed fsm now,
      rs_total_connected_duration = rc_total_connected_duration fsm
        + (if is_connected_state (rc_state fsm) then reconnect_get_last_connect_elapsed fsm now else 0),
      rs_n_attempted_connections = rc_n_attempted_connections fsm,
      rs_n_successful_connections = rc_n_successful_connections fsm,
      rs_state = reconnect_state_name (rc_state fsm),
      rs_state_elapsed = word_of_int (now - rc_state_entered fsm)\<rparr>"

section \<open>The interface as a transition system\<close>

datatype rc_call =
    Rc_set_quiet bool | Rc_set_name "string option" | Rc_set_max_tries u32
  | Rc_set_backoff int int | Rc_set_probe_interval int | Rc_set_passive bool
  | Rc_enable | Rc_disable | Rc_force_reconnect
  | Rc_disconnected | Rc_connecting | Rc_listening | Rc_listen_error | Rc_connected | Rc_connect_failed
  | Rc_activity | Rc_run

fun rc_do :: "reconnect \<Rightarrow> int \<Rightarrow> rc_call \<Rightarrow> reconnect result" where
  "rc_do fsm now (Rc_set_quiet q) = Inr (reconnect_set_quiet fsm q)"
| "rc_do fsm now (Rc_set_name n) = Inr (reconnect_set_name fsm n)"
| "rc_do fsm now (Rc_set_max_tries n) = Inr (reconnect_set_max_tries fsm n)"
| "rc_do fsm now (Rc_set_backoff lo hi) = Inr (reconnect_set_backoff fsm lo hi)"
| "rc_do fsm now (Rc_set_probe_interval p) = Inr (reconnect_set_probe_interval fsm p)"
| "rc_do fsm now (Rc_set_passive p) = Inr (reconnect_set_passive fsm p now)"
| "rc_do fsm now Rc_enable = Inr (reconnect_enable fsm now)"
| "rc_do fsm now Rc_disable = Inr (reconnect_disable fsm now)"
| "rc_do fsm now Rc_force_reconnect = Inr (reconnect_force_reconnect fsm now)"
| "rc_do fsm now Rc_disconnected = Inr (reconnect_disconnected fsm now)"
| "rc_do fsm now Rc_connecting = Inr (reconnect_connecting fsm now)"
| "rc_do fsm now Rc_listening = Inr (reconnect_listening fsm now)"
| "rc_do fsm now Rc_listen_error = Inr (reconnect_listen_error fsm now)"
| "rc_do fsm now Rc_connected = Inr (reconnect_connected fsm now)"
| "rc_do fsm now Rc_connect_failed = Inr (reconnect_connect_failed fsm now)"
| "rc_do fsm now Rc_activity = Inr (reconnect_activity fsm now)"
| "rc_do fsm now Rc_run = rbind (reconnect_run fsm now) (\<lambda>(action, fsm). Inr fsm)"

text \<open>Calls with the arguments the comments ask for: a maximum backoff that is 0 or positive.\<close>

fun rc_proper :: "rc_call \<Rightarrow> bool" where
  "rc_proper (Rc_set_backoff lo hi) \<longleftrightarrow> 0 \<le> hi \<and> lo \<le> INT_MAX \<and> hi \<le> INT_MAX"
| "rc_proper c \<longleftrightarrow> True"

inductive rc_reachable :: "reconnect \<Rightarrow> bool" where
  create: "now \<noteq> LLONG_MIN \<Longrightarrow> rc_reachable (reconnect_create now)"
| call: "rc_reachable fsm \<Longrightarrow> now \<noteq> LLONG_MIN \<Longrightarrow> rc_proper c \<Longrightarrow> rc_do fsm now c = Inr fsm' \<Longrightarrow> rc_reachable fsm'"

section \<open>Lemmas\<close>

lemma state_in_iff [simp]: "state_in s ss \<longleftrightarrow> s \<in> set ss"
proof (induction ss)
  case (Cons t ss)
  have "state_value s AND state_value t \<noteq> 0 \<longleftrightarrow> s = t" by (cases s; cases t) simp_all
  moreover have "state_value s AND (state_value t OR m) \<noteq> 0 \<longleftrightarrow> state_value s AND state_value t \<noteq> 0 \<or> state_value s AND m \<noteq> 0" for m
    by (simp add: bit.conj_disj_distrib) (metis bit.disj_zero_right or_eq_0_iff)
  ultimately show ?case using Cons.IH by (simp add: state_in_def)
qed (simp add: state_in_def)

lemma is_connected_iff: "is_connected_state s \<longleftrightarrow> s = S_ACTIVE \<or> s = S_IDLE"
  by (simp add: is_connected_state_def)

lemma transition_simps [simp]:
  "rc_state (reconnect_transition fsm now s) = s"
  "rc_state_entered (reconnect_transition fsm now s) = now"
  "rc_min_backoff (reconnect_transition fsm now s) = rc_min_backoff fsm"
  "rc_max_backoff (reconnect_transition fsm now s) = rc_max_backoff fsm"
  "rc_probe_interval (reconnect_transition fsm now s) = rc_probe_interval fsm"
  "rc_backoff (reconnect_transition fsm now s) = rc_backoff fsm"
  "rc_max_tries (reconnect_transition fsm now s) = rc_max_tries fsm"
  "rc_passive (reconnect_transition fsm now s) = rc_passive fsm"
  "rc_last_activity (reconnect_transition fsm now s) = rc_last_activity fsm"
  by (simp_all add: reconnect_transition_def Let_def)

lemma transition_seqno:
  "rc_seqno (reconnect_transition fsm now s) =
     (if is_connected_state (rc_state fsm) \<noteq> is_connected_state s then rc_seqno fsm + 1 else rc_seqno fsm)"
  by (simp add: reconnect_transition_def Let_def)

text \<open>Invariant of every state the interface reaches.\<close>

definition rc_inv :: "reconnect \<Rightarrow> bool" where
  "rc_inv fsm \<longleftrightarrow> rc_state_entered fsm \<noteq> LLONG_MIN
     \<and> 1000 \<le> rc_min_backoff fsm \<and> rc_min_backoff fsm \<le> rc_max_backoff fsm \<and> rc_max_backoff fsm \<le> INT_MAX
     \<and> 0 \<le> rc_backoff fsm \<and> rc_backoff fsm \<le> INT_MAX
     \<and> (rc_state fsm = S_BACKOFF \<longrightarrow> rc_backoff fsm \<le> rc_max_backoff fsm)
     \<and> (odd (rc_seqno fsm) \<longleftrightarrow> reconnect_is_connected fsm)"

lemma rc_inv_transition:
  assumes "rc_inv fsm" "now \<noteq> LLONG_MIN" "s = S_BACKOFF \<longrightarrow> rc_backoff fsm \<le> rc_max_backoff fsm"
  shows "rc_inv (reconnect_transition fsm now s)"
  using assms by (auto simp: rc_inv_def reconnect_is_connected_def transition_seqno)

lemma rc_inv_max_tries: "rc_inv fsm \<Longrightarrow> rc_inv (fsm\<lparr>rc_max_tries := n\<rparr>)"
  by (simp add: rc_inv_def reconnect_is_connected_def)

lemma rc_inv_reset: "rc_inv fsm \<Longrightarrow> rc_inv (fsm\<lparr>rc_backoff := 0\<rparr>)"
  by (simp add: rc_inv_def reconnect_is_connected_def INT_MAX_def)

lemma rc_inv_passive: "rc_inv fsm \<Longrightarrow> rc_inv (fsm\<lparr>rc_passive := p\<rparr>)"
  by (simp add: rc_inv_def reconnect_is_connected_def)

lemma rc_inv_restart:
  "rc_inv fsm \<Longrightarrow> now \<noteq> LLONG_MIN \<Longrightarrow> rc_inv ((reconnect_transition fsm now S_BACKOFF)\<lparr>rc_backoff := 0\<rparr>)"
  by (auto simp: rc_inv_def reconnect_is_connected_def transition_seqno is_connected_iff INT_MAX_def)

lemma rc_inv_may_retry:
  assumes "rc_inv fsm" "reconnect_may_retry fsm = (retry, fsm')"
  shows "rc_inv fsm'" "rc_backoff fsm' = rc_backoff fsm" "rc_max_backoff fsm' = rc_max_backoff fsm"
  using assms by (auto simp: reconnect_may_retry_def Let_def rc_inv_max_tries split: if_splits)

text \<open>The backoff after a failure.\<close>

definition next_backoff :: "reconnect \<Rightarrow> int" where
  "next_backoff fsm =
     (if rc_state fsm \<in> {S_ACTIVE, S_IDLE} \<and>
         (rc_last_activity fsm - rc_last_connected fsm \<ge> rc_backoff fsm \<or> rc_passive fsm)
      then if rc_passive fsm then 0 else rc_min_backoff fsm
      else if rc_backoff fsm < rc_min_backoff fsm then rc_min_backoff fsm
      else if rc_backoff fsm \<ge> rc_max_backoff fsm div 2 then rc_max_backoff fsm
      else rc_backoff fsm * 2)"

lemma reconnect_disconnected_unfold:
  "rc_state fsm \<notin> {S_BACKOFF, S_VOID} \<Longrightarrow>
   reconnect_disconnected fsm now =
     (let fsm1 = (if rc_state fsm \<in> {S_ACTIVE, S_IDLE} then fsm\<lparr>rc_last_disconnected := now\<rparr> else fsm);
          (retry, fsm') = reconnect_may_retry (fsm1\<lparr>rc_backoff := next_backoff fsm\<rparr>)
      in reconnect_transition fsm' now (if retry then S_BACKOFF else S_VOID))"
  by (simp add: reconnect_disconnected_def next_backoff_def Let_def cong: if_cong)

lemma next_backoff_bounds:
  "rc_inv fsm \<Longrightarrow> 0 \<le> next_backoff fsm \<and> next_backoff fsm \<le> rc_max_backoff fsm"
  by (auto simp: next_backoff_def rc_inv_def)

lemma rc_inv_disconnected:
  assumes inv: "rc_inv fsm" and now: "now \<noteq> LLONG_MIN"
  shows "rc_inv (reconnect_disconnected fsm now)"
proof (cases "rc_state fsm \<in> {S_BACKOFF, S_VOID}")
  case True
  then show ?thesis using inv by (auto simp: reconnect_disconnected_def)
next
  case False
  define fsm1 where "fsm1 = (if rc_state fsm \<in> {S_ACTIVE, S_IDLE} then fsm\<lparr>rc_last_disconnected := now\<rparr> else fsm)\<lparr>rc_backoff := next_backoff fsm\<rparr>"
  have i1: "rc_inv fsm1" "rc_backoff fsm1 \<le> rc_max_backoff fsm1"
    using inv next_backoff_bounds[OF inv] by (auto simp: fsm1_def rc_inv_def reconnect_is_connected_def)
  obtain retry fsm2 where r: "reconnect_may_retry fsm1 = (retry, fsm2)" by fastforce
  note i2 = rc_inv_may_retry[OF i1(1) r]
  have "reconnect_disconnected fsm now = reconnect_transition fsm2 now (if retry then S_BACKOFF else S_VOID)"
    by (simp only: reconnect_disconnected_unfold[OF False] Let_def fsm1_def[symmetric] r prod.case)
  then show ?thesis using rc_inv_transition[OF i2(1) now] i1(2) i2(2,3) by simp
qed

lemma rc_inv_connecting: "rc_inv fsm \<Longrightarrow> now \<noteq> LLONG_MIN \<Longrightarrow> rc_inv (reconnect_connecting fsm now)"
  by (simp add: reconnect_connecting_def rc_inv_transition)

lemma rc_inv_activity_field: "rc_inv fsm \<Longrightarrow> rc_inv (fsm\<lparr>rc_last_activity := t\<rparr>)"
  and rc_inv_connected_field: "rc_inv fsm \<Longrightarrow> rc_inv (fsm\<lparr>rc_last_connected := t\<rparr>)"
  by (simp_all add: rc_inv_def reconnect_is_connected_def)

lemma rc_inv_go:
  assumes "rc_inv fsm" "now \<noteq> LLONG_MIN"
  shows "rc_inv (let (go, fsm) = reconnect_may_retry fsm
    in if go then (reconnect_transition fsm now S_BACKOFF)\<lparr>rc_backoff := 0\<rparr> else fsm)"
proof -
  obtain go fsm' where r: "reconnect_may_retry fsm = (go, fsm')" by fastforce
  show ?thesis using rc_inv_may_retry(1)[OF assms(1) r] rc_inv_restart[OF _ assms(2)] by (simp add: r)
qed

lemma rc_inv_set_passive:
  assumes "rc_inv fsm" "now \<noteq> LLONG_MIN"
  shows "rc_inv (reconnect_set_passive fsm p now)"
  using rc_inv_go[OF rc_inv_passive[OF assms(1), of False] assms(2)] rc_inv_restart[OF rc_inv_passive[OF assms(1)] assms(2)]
    rc_inv_passive[OF assms(1)] assms(1)
  by (simp add: reconnect_set_passive_def Let_def)

lemma rc_inv_enable: "rc_inv fsm \<Longrightarrow> now \<noteq> LLONG_MIN \<Longrightarrow> rc_inv (reconnect_enable fsm now)"
  using rc_inv_go[of fsm now] by (simp add: reconnect_enable_def)

lemma rc_inv_set_backoff:
  "rc_inv fsm \<Longrightarrow> 0 \<le> hi \<Longrightarrow> lo \<le> INT_MAX \<Longrightarrow> hi \<le> INT_MAX \<Longrightarrow> rc_inv (reconnect_set_backoff fsm lo hi)"
  by (auto simp: rc_inv_def reconnect_set_backoff_def Let_def reconnect_is_connected_def INT_MAX_def
      RECONNECT_DEFAULT_MAX_BACKOFF_def)

lemma reconnect_run_unfold:
  "rc_inv fsm \<Longrightarrow> reconnect_run fsm now =
     Inr (if now < deadline_of (rc_state fsm) fsm then (RECONNECT_NONE, fsm)
          else case rc_state fsm of
                 S_BACKOFF \<Rightarrow> (RECONNECT_CONNECT, fsm)
               | S_ACTIVE \<Rightarrow> (RECONNECT_PROBE, reconnect_transition fsm now S_IDLE)
               | S_CONNECTING \<Rightarrow> (RECONNECT_DISCONNECT, fsm)
               | S_IDLE \<Rightarrow> (RECONNECT_DISCONNECT, fsm)
               | S_RECONNECT \<Rightarrow> (RECONNECT_DISCONNECT, fsm)
               | _ \<Rightarrow> (RECONNECT_NONE, fsm))"
  by (simp add: reconnect_run_def reconnect_deadline_def rc_inv_def split: rc_state.split)

lemma rc_inv_run:
  assumes "rc_inv fsm" "now \<noteq> LLONG_MIN"
  shows "\<exists>a fsm'. reconnect_run fsm now = Inr (a, fsm') \<and> rc_inv fsm'"
  using assms rc_inv_transition[OF assms, of S_IDLE]
  unfolding reconnect_run_unfold[OF assms(1)] by (cases "rc_state fsm") simp_all

lemma rc_do_inv:
  assumes inv: "rc_inv fsm" and now: "now \<noteq> LLONG_MIN" and c: "rc_proper c"
  shows "\<exists>fsm'. rc_do fsm now c = Inr fsm' \<and> rc_inv fsm'"
proof (cases c)
  case Rc_run
  then show ?thesis using rc_inv_run[OF inv now] by auto
next
  case (Rc_set_backoff lo hi)
  then show ?thesis using rc_inv_set_backoff[OF inv] c by simp
qed (use inv now in \<open>auto simp: rc_inv_transition rc_inv_disconnected rc_inv_connecting rc_inv_activity_field
  rc_inv_connected_field rc_inv_set_passive rc_inv_enable rc_inv_max_tries
  reconnect_set_quiet_def reconnect_set_name_def reconnect_set_max_tries_def reconnect_set_probe_interval_def
  reconnect_disable_def reconnect_force_reconnect_def reconnect_listening_def reconnect_listen_error_def
  reconnect_connected_def reconnect_connect_failed_def reconnect_activity_def,
  auto simp: rc_inv_def reconnect_is_connected_def\<close>)

lemma rc_reachable_inv: "rc_reachable fsm \<Longrightarrow> rc_inv fsm"
proof (induction rule: rc_reachable.induct)
  case (create now)
  then show ?case by (simp add: rc_inv_def reconnect_create_def RECONNECT_DEFAULT_MIN_BACKOFF_def
    RECONNECT_DEFAULT_MAX_BACKOFF_def INT_MAX_def reconnect_is_connected_def is_connected_iff)
next
  case (call fsm now c fsm')
  then show ?case using rc_do_inv[of fsm now c] by auto
qed

text \<open>Consecutive failures.\<close>

lemma UINT_MAX_pos: "0 < UINT_MAX"
  by (simp add: UINT_MAX_def flip: word_neq_0_conv)

lemma connect_failed_step:
  assumes "rc_state fsm = S_BACKOFF" "rc_max_tries fsm = UINT_MAX"
  shows "rc_state (reconnect_connect_failed fsm now) = S_BACKOFF"
    "rc_max_tries (reconnect_connect_failed fsm now) = UINT_MAX"
    "rc_min_backoff (reconnect_connect_failed fsm now) = rc_min_backoff fsm"
    "rc_max_backoff (reconnect_connect_failed fsm now) = rc_max_backoff fsm"
    "rc_backoff (reconnect_connect_failed fsm now) =
       (if rc_backoff fsm < rc_min_backoff fsm then rc_min_backoff fsm
        else if rc_backoff fsm \<ge> rc_max_backoff fsm div 2 then rc_max_backoff fsm
        else rc_backoff fsm * 2)"
  using assms by (auto simp: reconnect_connect_failed_def reconnect_connecting_def reconnect_disconnected_unfold
    reconnect_may_retry_def Let_def next_backoff_def UINT_MAX_pos)

lemma connect_failures:
  assumes fsm: "rc_state fsm = S_BACKOFF" "rc_max_tries fsm = UINT_MAX" "rc_backoff fsm = 0"
    and b: "1 \<le> rc_min_backoff fsm" "rc_min_backoff fsm \<le> rc_max_backoff fsm" and ts: "length ts = Suc k"
  shows "let fsm' = foldl reconnect_connect_failed fsm ts; b = rc_min_backoff fsm * 2 ^ k; m = rc_max_backoff fsm
     in rc_state fsm' = S_BACKOFF \<and> rc_max_tries fsm' = UINT_MAX \<and> rc_min_backoff fsm' = rc_min_backoff fsm
        \<and> rc_max_backoff fsm' = m \<and> (rc_backoff fsm' = m \<or> rc_backoff fsm' = b)
        \<and> min m b \<le> rc_backoff fsm' \<and> rc_backoff fsm' \<le> m"
  using ts
proof (induction k arbitrary: ts)
  case 0
  then obtain t where "ts = [t]" by (auto simp: length_Suc_conv)
  then show ?case using fsm b by (simp add: connect_failed_step Let_def)
next
  case (Suc k)
  then obtain us u where u: "ts = us @ [u]" "length us = Suc k" by (metis length_append_singleton nat.inject rev_exhaust list.size(3) nat.distinct(1))
  define f where "f = foldl reconnect_connect_failed fsm us"
  have IH: "rc_state f = S_BACKOFF" "rc_max_tries f = UINT_MAX" "rc_min_backoff f = rc_min_backoff fsm"
    "rc_max_backoff f = rc_max_backoff fsm" "rc_backoff f = rc_max_backoff fsm \<or> rc_backoff f = rc_min_backoff fsm * 2 ^ k"
    "min (rc_max_backoff fsm) (rc_min_backoff fsm * 2 ^ k) \<le> rc_backoff f" "rc_backoff f \<le> rc_max_backoff fsm"
    using Suc.IH[OF u(2)] by (auto simp: Let_def f_def)
  have "1 \<le> (2::int) ^ k" by simp
  then have "rc_min_backoff fsm \<le> rc_min_backoff fsm * 2 ^ k" using b(1) mult_left_mono[of 1 "(2::int) ^ k" "rc_min_backoff fsm"] by simp
  then have "rc_min_backoff fsm \<le> rc_backoff f" using IH(6) b by linarith
  then show ?case using IH b unfolding u(1) by (auto simp: Let_def f_def[symmetric] connect_failed_step)
qed

text \<open>The timer.\<close>

lemma reconnect_timeout_exact:
  assumes t: "reconnect_timeout fsm now = Inr t"
  shows "t < 0 \<Longrightarrow> later < LLONG_MAX \<Longrightarrow> reconnect_run fsm later = Inr (RECONNECT_NONE, fsm)"
    and "0 \<le> t \<Longrightarrow> now \<le> later \<Longrightarrow> later < now + t \<Longrightarrow> reconnect_run fsm later = Inr (RECONNECT_NONE, fsm)"
    and "0 \<le> t \<Longrightarrow> t < INT_MAX \<Longrightarrow> now + t \<le> later \<Longrightarrow>
      \<exists>a fsm'. reconnect_run fsm later = Inr (a, fsm') \<and> a \<noteq> RECONNECT_NONE"
proof -
  let ?d = "deadline_of (rc_state fsm) fsm"
  have d: "reconnect_deadline fsm = Inr ?d" using t by (auto simp: reconnect_timeout_def reconnect_deadline_def split: if_splits)
  then have tt: "t = (if ?d \<noteq> LLONG_MAX then max 0 (min INT_MAX (?d - now)) else - 1)" using t by (auto simp: reconnect_timeout_def Let_def)
  show "reconnect_run fsm later = Inr (RECONNECT_NONE, fsm)" if "t < 0" "later < LLONG_MAX"
    using that tt d by (auto simp: reconnect_run_def split: if_splits)
  show "reconnect_run fsm later = Inr (RECONNECT_NONE, fsm)" if "0 \<le> t" "now \<le> later" "later < now + t"
    using that tt d by (auto simp: reconnect_run_def split: if_splits)
  show "\<exists>a fsm'. reconnect_run fsm later = Inr (a, fsm') \<and> a \<noteq> RECONNECT_NONE" if "0 \<le> t" "t < INT_MAX" "now + t \<le> later"
  proof -
    have "?d \<noteq> LLONG_MAX" "?d \<le> later" using that tt by (auto split: if_splits)
    then show ?thesis using d by (cases "rc_state fsm") (simp_all add: reconnect_run_def)
  qed
qed

text \<open>A silent peer: one probe, then the connection is given up.\<close>

lemma silent_peer:
  assumes inv: "rc_inv fsm" and st: "rc_state fsm = S_ACTIVE" and p: "rc_probe_interval fsm > 0"
    and t: "max (rc_last_activity fsm) (rc_state_entered fsm) + rc_probe_interval fsm \<le> t" "t \<noteq> LLONG_MIN"
  obtains fsm' where "reconnect_run fsm t = Inr (RECONNECT_PROBE, fsm')"
    and "\<And>u. reconnect_run fsm' u =
        Inr (if u < t + rc_probe_interval fsm then RECONNECT_NONE else RECONNECT_DISCONNECT, fsm')"
proof
  let ?i = "reconnect_transition fsm t S_IDLE"
  show "reconnect_run fsm t = Inr (RECONNECT_PROBE, ?i)"
    using st p t by (simp add: reconnect_run_unfold[OF inv])
  have "rc_inv ?i" using rc_inv_transition[OF inv t(2)] by simp
  then show "reconnect_run ?i u = Inr (if u < t + rc_probe_interval fsm then RECONNECT_NONE else RECONNECT_DISCONNECT, ?i)" for u
    using p by (simp add: reconnect_run_unfold)
qed

end
