(* ===== verification/Spec2Isabelle.thy ===== *)
theory Spec2Isabelle
  imports Cmap_Protected Cmap_Iter Cmap_Batch Gtp_Switch Csum Byteq Heap Reconnect
begin

text \<open>
  A verification library for the GTP switch of \<^verbatim>\<open>src/ovs-branch-2.5-dpdk\<close>, an Open vSwitch 2.5 that
  forwards the packets of mobile sessions to packet gateways (PGW). Paths below are relative to that
  directory.

  \<^bold>\<open>The program.\<close> A controller sends flow modifications. \<open>handle_flow_mod()\<close> of
  \<^verbatim>\<open>ofproto/ofproto.c\<close> decodes their actions with \<^verbatim>\<open>lib/ofp-actions.c\<close>; when one of them is
  \<open>operate_gtp\<close>, the others are taken as parameters of a command to the GTP manager,
  \<^verbatim>\<open>ofproto/gtp-manager.c\<close>, and no flow is installed. Packets that meet the actions \<open>handle_gtp\<close> or
  \<open>handle_pgw_sgi\<close> are given by \<^verbatim>\<open>ofproto/ofproto-dpif-xlate.c\<close> to the manager, which learns sessions
  from GTP-C messages, keeps them in cuckoo hash tables (\<^verbatim>\<open>lib/cmap.c\<close>, hashed with \<^verbatim>\<open>lib/hash.h\<close>
  and \<^verbatim>\<open>lib/random.c\<close>) and rewrites and outputs the packets. Around these parts the switch uses
  checksums, rate limits, byte queues, heaps and the connection state machine of \<^verbatim>\<open>lib\<close>.

  \<^bold>\<open>Theories and what they model.\<close>
  \<^item> \<^verbatim>\<open>Ovs_Prelude\<close>: machine integers, faults as values (\<open>result\<close>, \<open>rbind\<close>), byte order, shared lemmas.
  \<^item> \<^verbatim>\<open>Ovs_Hash\<close>: the Murmur hashes of \<^verbatim>\<open>lib/hash.h\<close> and the generator of \<^verbatim>\<open>lib/random.c\<close>.
  \<^item> \<^verbatim>\<open>Ovs_Bits\<close>: searching for 1-bits, from \<^verbatim>\<open>lib/util.c\<close> and \<^verbatim>\<open>lib/util.h\<close>, and the loop over the bits
    of a map of \<^verbatim>\<open>lib/bitmap.h\<close>.
  \<^item> \<^verbatim>\<open>Cmap\<close>: the concurrent map as a table of buckets, with every operation that changes it.
    \<^verbatim>\<open>Cmap_Table\<close>, \<^verbatim>\<open>Cmap_Bfs\<close>, \<^verbatim>\<open>Cmap_Shift\<close>, \<^verbatim>\<open>Cmap_Refine\<close>, \<^verbatim>\<open>Cmap_Ops\<close>, \<^verbatim>\<open>Cmap_Total\<close>: the
    invariant, the breadth-first search for a free slot, moving nodes along a path, and the refinement
    of the table to chains of nodes per hash. \<^verbatim>\<open>Cmap_Multimap\<close> states this contract as a locale that
    the GTP tables rest on, and \<^verbatim>\<open>Cmap_Protected\<close> is about \<open>cmap_find_protected()\<close>.
    \<^verbatim>\<open>Cmap_Reader\<close> and \<^verbatim>\<open>Cmap_Writer\<close> interleave the memory accesses of \<open>cmap_find()\<close> with the
    single writes of the operations that change a table, and \<^verbatim>\<open>Cmap_Batch\<close> does so for
    \<open>cmap_find_batch()\<close>. \<^verbatim>\<open>Cmap_Iter\<close> has the two ways to iterate over a map.
  \<^item> \<^verbatim>\<open>Dp_Packet\<close>, \<^verbatim>\<open>Gtp_Message\<close>: packet accessors and the parsing of GTP messages on bytes.
  \<^item> \<^verbatim>\<open>Xlate\<close>: the context of the action translator and \<open>xlate_output_action()\<close>.
  \<^item> \<^verbatim>\<open>Gtp_Manager\<close>, \<^verbatim>\<open>Gtp_Handlers\<close>: the static variables of the manager as one record, its
    operations and its packet handlers, whole. \<^verbatim>\<open>Gtp_Tables\<close>, \<^verbatim>\<open>Gtp_Safety\<close>, \<^verbatim>\<open>Gtp_Behaviour\<close>,
    \<^verbatim>\<open>Gtp_Progress\<close>, \<^verbatim>\<open>Gtp_Scenario\<close>: the invariant of the reference counts, what each handler does,
    when it returns, and concrete states.
  \<^item> \<^verbatim>\<open>Ovs_Scan\<close>, \<^verbatim>\<open>Ofp_Parse\<close>: \<open>ovs_scan()\<close> of \<^verbatim>\<open>lib/util.c\<close> and the conversions of numbers and
    addresses of \<^verbatim>\<open>lib/ofp-parse.c\<close>.
  \<^item> \<^verbatim>\<open>Ofp_Raw\<close>: the table of action encodings in the comments of \<^verbatim>\<open>lib/ofp-actions.c\<close>, the generator
    \<^verbatim>\<open>build-aux/extract-ofp-actions\<close> that makes code of it, and \<open>ofpact_put_raw()\<close> and
    \<open>ofpact_pull_raw()\<close>, which use that code.
  \<^item> \<^verbatim>\<open>Gtp_Actions\<close>, \<^verbatim>\<open>Gtp_Text\<close>: the thirteen GTP actions on the wire and as text.
  \<^item> \<^verbatim>\<open>Gtp_Switch\<close>: \<open>handle_flow_mod()\<close>, the GTP cases of \<open>do_xlate_actions()\<close>, and the runs of a
    switch made of both.
  \<^item> \<^verbatim>\<open>Csum\<close>, \<^verbatim>\<open>Token_Bucket\<close>, \<^verbatim>\<open>Byteq\<close>, \<^verbatim>\<open>Heap\<close>, \<^verbatim>\<open>Reconnect\<close>: the files of the same names in
    \<^verbatim>\<open>lib\<close>.

  \<^bold>\<open>What is shown.\<close> The map: insertion, removal and rehashing refine operations on chains, the
  assertions hold, an insertion returns where a bucket has room, a lookup or a batch of lookups that
  runs beside a writer finds chains that the hashes have at some time meanwhile, and an iteration
  visits every node once. The manager: from the
  initial state on, no command and no packet uses freed memory, sessions route packets to the gateway
  that announced them and leave nothing behind when they are withdrawn. The actions: the generated
  table is well formed, what is encoded or printed is decoded or parsed back, and decoding returns on
  every input. The small components refine their abstract contracts: a checksum update is a
  recomputation, a bucket limits its rate, a byte queue is a bounded list, a heap is a priority queue,
  and the connection state machine keeps its invariant and its timer. Where the code fails, a theorem
  states the failing input: a session or a packet that dereferences null, a lookup that misses a node,
  a header that leaks, a text that overruns its buffer, an address that is never set.

  \<^bold>\<open>Conventions.\<close> Every crash of the C code is a value: \<open>Inl\<close> with the fault, \<open>Inr\<close> with the result.
  Integers have the width of the C type, with its wrap-around; times in milliseconds are integers, as
  the code never comes near the ends of \<^verbatim>\<open>long long\<close>. Uninitialised local variables are arguments.

  \<^bold>\<open>Loops.\<close> The insertion into a map rehashes until it succeeds, with a new random basis each time, and
  may in principle run forever: \<open>insert_loop\<close> and \<open>rehash_loop\<close> are partial functions in the option
  monad, and \<open>No_Return\<close> is the fault of a run that does not end. That a run returns is proved for a
  bucket with room. The breadth-first search has at most 500 queue entries and four steps, which are
  its bounds in the code. The iterations over a map count buckets with an index that could wrap around,
  so they are partial functions too, and they are proved to return for every map that satisfies its
  invariant. All other loops are total functions with termination proofs.

  \<^bold>\<open>Parameters.\<close> The decoders of actions other than the GTP ones, the installation of a flow, the
  answers of \<^verbatim>\<open>read()\<close> and \<^verbatim>\<open>write()\<close>, the clock, and the random seed are arguments of the
  definitions that use them.

  \<^bold>\<open>Not modelled.\<close> Threads, except for readers of a concurrent map beside one writer, on a sequentially
  consistent memory: the manager is modelled for one thread, without the locks and the deferred
  freeing by RCU. Log messages. The
  SSE variant of the hashes. The parts of Open vSwitch that the GTP additions do not touch: the
  classifier, the other OpenFlow messages and actions, the datapaths, the database and the daemons;
  they are input and output, or as large again as all of the above.
\<close>

unbundle bit_operations_syntax

section \<open>The concurrent map\<close>

text \<open>C1. Inserting into a concurrent map that satisfies the invariant keeps the invariant, puts the
  node at the front of the chain of its hash, leaves every other chain as it was, whichever nodes
  the cuckoo search has moved and whether or not the table was rehashed, and counts the node. The
  chains are what \<open>cmap_find\<close> returns.\<close>

theorem cmap_insert_refines:
  assumes "cmap_inv impl" and "cmap_insert impl node hash seed = Inr (impl', seed')"
  shows "cmap_inv impl' \<and> cmap_abs impl' = (cmap_abs impl)(hash := node # cmap_abs impl hash) \<and>
    ci_n impl' = ci_n impl + 1 \<and> (\<forall>h. cmap_find impl' h = Some (cmap_abs impl' h))"
  using cmap_insert_correct[OF assms] cm.find_abs by blast

theorem cmap_insert_refines_witness:
  "\<exists>(m :: nat cmap_impl) m' s. cmap_init 1 = Inr (m, s) \<and> cmap_insert m 7 42 s = Inr (m', s) \<and>
     cmap_find m' 42 = Some [7] \<and> cmap_find m' 43 = Some []"
proof -
  obtain m :: "nat cmap_impl" and s where m: "cmap_init 1 = Inr (m, s)" using cmap_init_returns by blast
  note i = cmap_init_ok[OF m]
  have "ci_mask m = 0" using m by (auto simp: cmap_init_def dest: cmap_impl_create_zero)
  from cmap_insert_one_bucket[OF i(1) this i(2)] obtain m' where m': "cmap_insert m 7 42 s = Inr (m', s)"
    by blast
  from cmap_insert_refines[OF i(1) m'] m m' i(2) show ?thesis by auto
qed

text \<open>C2. Removing a node from a concurrent map keeps the invariant, takes one occurrence of the node
  out of the chain of its hash, leaves every other chain as it was even when the table shrinks, and
  only returns when the node was there.\<close>

theorem cmap_remove_refines:
  assumes "cmap_inv impl" and "cmap_remove impl node hash seed = Inr (impl', seed')"
  shows "cmap_inv impl' \<and> cmap_abs impl' = (cmap_abs impl)(hash := remove1 node (cmap_abs impl hash)) \<and>
    ci_n impl' = ci_n impl - 1 \<and> node \<in> set (cmap_abs impl hash)"
  using cmap_remove_correct[OF assms] by blast

theorem cmap_remove_refines_witness:
  "\<exists>(m :: nat cmap_impl) m' s. cmap_abs m 42 = [7] \<and> cmap_remove m 7 42 s = Inr (m', s) \<and>
     cmap_abs m' 42 = []"
proof -
  from one_node_map[of "7 :: nat" 42] obtain m :: "nat cmap_impl"
    where m: "cmap_inv m" "ci_mask m = 0" "cmap_abs m = (\<lambda>_. [])(42 := [7])" by blast
  have "7 \<in> set (cmap_abs m 42)" by (simp add: m(3))
  from cmap_remove_one_bucket[OF m(1,2) this] obtain m' where m': "cmap_remove m 7 42 1 = Inr (m', 1)"
    by blast
  have "cmap_abs m' 42 = []" using cmap_remove_refines[OF m(1) m'] by (simp add: m(3))
  with m' show ?thesis by (intro exI[of _ m] exI[of _ m'] exI[of _ 1]) (simp add: m(3))
qed

text \<open>C7. Rehashing into a table of another size, under as many new random bases as it takes, keeps
  every chain: the result is well formed, has the requested mask, the limits that belong to it and
  the old number of nodes, and holds the same nodes.\<close>

theorem cmap_rehash_preserves:
  assumes "cmap_wf old" and "cmap_rehash old msk seed = Inr (new, seed')"
  shows "cmap_wf new \<and> cmap_abs new = cmap_abs old \<and> cmap_limits new \<and> ci_mask new = msk \<and>
    ci_n new = ci_n old \<and> ci_n new < ci_max_n new"
  using cmap_rehash_correct[OF assms(2,1)] by blast

theorem cmap_rehash_preserves_witness:
  "\<exists>(m :: nat cmap_impl) s new s'. cmap_init 1 = Inr (m, s) \<and> cmap_rehash m 1 s = Inr (new, s') \<and>
     ci_mask new = 1 \<and> cmap_abs new = cmap_abs m"
proof -
  obtain m :: "nat cmap_impl" and s where m: "cmap_init 1 = Inr (m, s)" using cmap_init_returns by blast
  have wf: "cmap_wf m" using cmap_init_ok(1)[OF m] by (simp add: cmap_inv_def)
  have "cmap_try_rehash m new = Some new" for new
    using m by (auto simp: cmap_init_def cmap_impl_create_def Let_def cmap_try_rehash_def zero_buckets_def
        CMAP_K_def numeral_eq_Suc split: prod.splits if_splits)
  moreover have "ci_n m = 0"
    using m by (auto simp: cmap_init_def cmap_impl_create_def Let_def split: prod.splits if_splits)
  moreover have "calc_max_n 1 = 8" "is_pow2 2" by code_simp+
  moreover obtain b s2 where "random_uint32 s = (b, s2)" by (cases "random_uint32 s")
  ultimately obtain new s' where r: "cmap_rehash m 1 s = Inr (new, s')"
    by (simp add: cmap_rehash_def cmap_impl_create_def Let_def rehash_loop.simps)
  with cmap_rehash_preserves[OF wf r] m show ?thesis by blast
qed

text \<open>C3. A lookup that runs while a writer inserts, removes and replaces nodes of the same table, in any
  interleaving of their memory accesses, returns a chain that its hash has before, between or after
  these operations. So nodes that are only moved within the table are never missed, and a hash that
  always has a node is always found.\<close>

theorem concurrent_lookup_correct:
  assumes "cmap_wf impl" and "ops_writes impl xs = Some (ws, impls)" and "length ws < 2 ^ 32"
    and "interleave sched (idx1 impl hash) (idx2 impl hash) hash impl ws Read_Counter1 = (impl', ws', Found node)"
  shows "\<exists>m \<in> set impls. node = cmap_abs m hash"
  using concurrent_find[OF assms] by blast

theorem concurrent_lookup_correct_witness:
  "\<exists>(impl :: nat cmap_impl) s ws impls impl' ws' node. cmap_init 1 = Inr (impl, s) \<and>
     ops_writes impl [Map_Insert 7 42, Map_Insert 8 42, Map_Replace 7 None 42] = Some (ws, impls) \<and>
     interleave ([False, False, False] @ replicate 4 True @ replicate 25 False)
       (idx1 impl 42) (idx2 impl 42) 42 impl ws Read_Counter1 = (impl', ws', Found node) \<and>
     (\<exists>m \<in> set impls. node = cmap_abs m 42)"
proof -
  let ?sched = "[False, False, False] @ replicate 4 True @ replicate 25 False"
  let ?xs = "[Map_Insert 7 42, Map_Insert 8 42, Map_Replace 7 None 42] :: nat map_op list"
  obtain impl :: "nat cmap_impl" and s where init: "cmap_init 1 = Inr (impl, s)" using cmap_init_returns by blast
  have wf: "cmap_wf impl" using cmap_init_ok(1)[OF init] by (simp add: cmap_inv_def)
  let ?run = "\<lambda>m ws. interleave ?sched (idx1 m 42) (idx2 m 42) 42 m ws Read_Counter1"
  have "case ops_writes (fst (projr (cmap_init 1))) ?xs of None \<Rightarrow> False
    | Some (ws, impls) \<Rightarrow> length ws < 100 \<and> snd (snd (?run (fst (projr (cmap_init 1))) ws)) = Found [7]"
    by code_simp
  then have eval: "case ops_writes impl ?xs of None \<Rightarrow> False
    | Some (ws, impls) \<Rightarrow> length ws < 100 \<and> snd (snd (?run impl ws)) = Found [7]"
    unfolding init sum.sel fst_conv .
  obtain ws impls where o: "ops_writes impl ?xs = Some (ws, impls)"
  proof (cases "ops_writes impl ?xs")
    case None
    from eval show ?thesis unfolding None option.case by (rule FalseE)
  next
    case (Some p)
    show ?thesis by (rule that[of "fst p" "snd p"]) (unfold Some prod.collapse, rule refl)
  qed
  have small: "length ws < 100" using eval unfolding o option.case prod.case by (rule conjunct1)
  have len: "length ws < 2 ^ 32" by (rule less_trans[OF small]) simp
  have res: "snd (snd (?run impl ws)) = Found [7]" using eval unfolding o option.case prod.case by (rule conjunct2)
  have run: "?run impl ws = (fst (?run impl ws), fst (snd (?run impl ws)), Found [7])"
    unfolding res[symmetric] prod.collapse by (rule refl)
  from concurrent_lookup_correct[OF wf o len run] init o run show ?thesis
    by (intro exI conjI)
qed

text \<open>C4. A lookup that a writer interrupted returns as soon as the writer leaves the table alone: after at
  most 33 of its own steps, wherever it was.\<close>

theorem lookup_returns_without_writer:
  assumes "cmap_wf impl"
  shows "\<exists>node. interleave (replicate (4 * CMAP_K + 13) False) (idx1 impl hash) (idx2 impl hash) hash impl ws r =
    (impl, ws, Found node)"
proof (rule reader_returns[OF _ _ reader_rank_bound])
  have shape: "cmap_shape impl" using assms by (rule cmap_wf_shape)
  show "even (counter_at impl (idx1 impl hash))" "even (counter_at impl (idx2 impl hash))"
    using cmap_shape_counter[OF shape] idx_less[OF shape] and_1_odd by (auto simp: counter_at_def)
qed

theorem lookup_returns_without_writer_witness:
  "\<exists>(impl :: nat cmap_impl) s node. cmap_init 1 = Inr (impl, s) \<and>
     snd (snd (interleave (replicate (4 * CMAP_K + 13) False) (idx1 impl 42) (idx2 impl 42) 42 impl [] (Check_Again 4))) = Found node"
proof -
  obtain impl :: "nat cmap_impl" and s where m: "cmap_init 1 = Inr (impl, s)" using cmap_init_returns by blast
  have "cmap_wf impl" using cmap_init_ok(1)[OF m] by (simp add: cmap_inv_def)
  from lookup_returns_without_writer[OF this, of 42 "[]" "Check_Again 4"] m show ?thesis by auto
qed

text \<open>C5. A batch of lookups beside a writer, in any interleaving of their memory accesses, that has come to
  its end gives for each requested hash a chain that the hash has before, between or after the
  writer's operations: the bit of the result tells whether it is empty, and only a nonempty chain is
  stored. Indexes that were not requested are left alone.\<close>

theorem concurrent_batch_correct:
  assumes "cmap_wf impl" and "ops_writes impl xs = Some (ws, impls)" and "length ws < 2 ^ 32"
    and "\<forall>i. bit mp i \<longrightarrow> i < length hashes \<and> i < length nodes"
    and "batch_interleave sched hashes impl ws (batch_start mp nodes) = (impl', ws', bt)"
    and "bt_phase bt = Batch_Done"
  shows "length (bt_nodes bt) = length nodes \<and>
    (\<forall>i. if bit mp i
         then \<exists>m \<in> set impls. (bit (bt_result bt) i \<longleftrightarrow> cmap_abs m (hashes ! i) \<noteq> []) \<and>
                bt_nodes bt ! i = (if bit (bt_result bt) i then cmap_abs m (hashes ! i) else nodes ! i)
         else \<not> bit (bt_result bt) i \<and> bt_nodes bt ! i = nodes ! i)"
proof -
  have "i < length nodes" if "bit mp i" for i using assms(4) that by blast
  note batch = concurrent_batch[OF assms(1-3) this assms(5,6)]
  show ?thesis using batch(1) batch(2) batch(3) by simp
qed

theorem concurrent_batch_correct_witness:
  "\<exists>(impl :: nat cmap_impl) s ws impls impl' ws' bt. cmap_init 1 = Inr (impl, s) \<and>
     ops_writes impl [Map_Insert 7 42] = Some (ws, impls) \<and>
     batch_interleave ([False, False, False] @ replicate 4 True @ replicate 60 False) [42, 43] impl ws
       (batch_start 3 [[], []]) = (impl', ws', bt) \<and>
     (\<exists>m \<in> set impls. bt_nodes bt ! 0 = (if bit (bt_result bt) 0 then cmap_abs m 42 else []))"
proof -
  let ?sched = "[False, False, False] @ replicate 4 True @ replicate 60 False"
  let ?xs = "[Map_Insert 7 42] :: nat map_op list" and ?hs = "[42, 43] :: u32 list"
  obtain impl :: "nat cmap_impl" and s where init: "cmap_init 1 = Inr (impl, s)" using cmap_init_returns by blast
  have wf: "cmap_wf impl" using cmap_init_ok(1)[OF init] by (simp add: cmap_inv_def)
  let ?run = "\<lambda>m ws. batch_interleave ?sched ?hs m ws (batch_start 3 [[], []])"
  have "case ops_writes (fst (projr (cmap_init 1))) ?xs of None \<Rightarrow> False
    | Some (ws, impls) \<Rightarrow> length ws < 100 \<and> bt_phase (snd (snd (?run (fst (projr (cmap_init 1))) ws))) = Batch_Done"
    by code_simp
  then have eval: "case ops_writes impl ?xs of None \<Rightarrow> False
    | Some (ws, impls) \<Rightarrow> length ws < 100 \<and> bt_phase (snd (snd (?run impl ws))) = Batch_Done"
    unfolding init sum.sel fst_conv .
  obtain ws impls where o: "ops_writes impl ?xs = Some (ws, impls)"
  proof (cases "ops_writes impl ?xs")
    case None
    from eval show ?thesis unfolding None option.case by (rule FalseE)
  next
    case (Some p)
    show ?thesis by (rule that[of "fst p" "snd p"]) (unfold Some prod.collapse, rule refl)
  qed
  have small: "length ws < 100" using eval unfolding o option.case prod.case by (rule conjunct1)
  have len: "length ws < 2 ^ 32" by (rule less_trans[OF small]) simp
  obtain impl' ws' bt where run: "?run impl ws = (impl', ws', bt)" by (rule prod_cases3)
  have phase: "bt_phase bt = Batch_Done" using eval unfolding o option.case prod.case run snd_conv by (rule conjunct2)
  have bits: "\<forall>i. bit (3 :: u64) i \<longrightarrow> i < length ?hs \<and> i < length ([[], []] :: nat list list)"
  proof (intro allI impI)
    fix i
    assume "bit (3 :: u64) i"
    moreover have "(3 :: u64) = mask 2" by (simp add: mask_eq_exp_minus_1)
    ultimately have "bit (mask 2 :: u64) i" by (simp only:)
    then have "i < 2" unfolding bit_mask_iff by (rule conjunct2)
    then show "i < length ?hs \<and> i < length ([[], []] :: nat list list)" by simp
  qed
  have "if bit (3 :: u64) 0
      then \<exists>m \<in> set impls. (bit (bt_result bt) 0 \<longleftrightarrow> cmap_abs m (?hs ! 0) \<noteq> []) \<and>
             bt_nodes bt ! 0 = (if bit (bt_result bt) 0 then cmap_abs m (?hs ! 0) else [[], []] ! 0)
      else \<not> bit (bt_result bt) 0 \<and> bt_nodes bt ! 0 = [[], []] ! 0"
    using concurrent_batch_correct[OF wf o len bits run phase] by blast
  then have "\<exists>m \<in> set impls. bt_nodes bt ! 0 = (if bit (bt_result bt) 0 then cmap_abs m 42 else [])" by auto
  with init o run show ?thesis by (intro exI conjI)
qed

text \<open>C6. Iterating over a map that does not change returns and visits every node of every chain exactly once,
  as many as the map counts, in the same order with a cursor and with positions; a position is then
  back at its start.\<close>

theorem cmap_iteration_visits_once:
  assumes "cmap_inv impl"
  shows "\<exists>visited. cmap_for_each impl = Some visited \<and>
    position_loop impl \<lparr>cp_bucket = 0, cp_entry = 0, cp_offset = 0\<rparr> =
      Some (visited, \<lparr>cp_bucket = 0, cp_entry = 0, cp_offset = 0\<rparr>) \<and>
    mset visited = (\<Sum>h \<in> UNIV. mset (cmap_abs impl h)) \<and> length visited = unat (cmap_count impl)"
  using cmap_iteration[OF assms] by blast

theorem cmap_iteration_visits_once_witness:
  "\<exists>m :: nat cmap_impl. cmap_abs m 42 = [7] \<and> cmap_for_each m = Some [7]"
proof -
  from one_node_map[of "7 :: nat" 42] obtain m :: "nat cmap_impl"
    where m: "cmap_inv m" "cmap_abs m = (\<lambda>_. [])(42 := [7])" by blast
  from cmap_iteration_visits_once[OF m(1)] obtain visited where v: "cmap_for_each m = Some visited"
    "mset visited = (\<Sum>h \<in> UNIV. mset (cmap_abs m h))" by blast
  have "(\<Sum>h \<in> UNIV. mset (cmap_abs m h)) = {#7#}"
    by (simp add: m(2) fun_upd_def if_distrib[of mset] cong: if_cong)
  with v(2) have "mset visited = {#7#}" by (rule trans)
  then have "visited = [7]" by simp
  with v(1) show ?thesis by (intro exI[of _ m]) (simp add: m(2))
qed

text \<open>C8. As long as a map has fewer than 2^28 buckets, an insertion can only fail by never finding a
  basis that fits: the assertions of \<open>cmap_impl_create\<close> and \<open>cmap_rehash\<close> hold and no
  computation of the limits overflows.\<close>

theorem cmap_insert_asserts_hold:
  assumes "cmap_inv impl" and "unat (ci_mask impl) < 2 ^ 28"
  shows "(\<exists>r. cmap_insert impl node hash seed = Inr r) \<or> cmap_insert impl node hash seed = Inl No_Return"
  using cmap_insert_fault[OF assms] by (cases "cmap_insert impl node hash seed") auto

theorem cmap_insert_asserts_hold_witness:
  "\<exists>m :: nat cmap_impl. cmap_abs m 42 = [7] \<and> cmap_insert m 8 42 1 \<noteq> Inl Assert_Fail"
proof -
  from one_node_map[of "7 :: nat" 42] obtain m :: "nat cmap_impl"
    where m: "cmap_inv m" "ci_mask m = 0" "cmap_abs m = (\<lambda>_. [])(42 := [7])" by blast
  then have "cmap_insert m 8 42 1 \<noteq> Inl Assert_Fail"
    using cmap_insert_asserts_hold[OF m(1), of 8 42 1] by auto
  then show ?thesis by (intro exI[of _ m]) (simp add: m(3))
qed

text \<open>C9. An insertion below the load limit returns, without drawing a random number, when one of
  the two candidate buckets of the hash has a free slot.\<close>

theorem cmap_insert_room_returns:
  assumes "ci_n impl < ci_max_n impl"
    and "\<not> full impl (idx1 impl hash) \<or> \<not> full impl (idx2 impl hash)"
  shows "\<exists>impl'. cmap_insert impl node hash seed = Inr (impl', seed)"
  using cmap_insert_returns[OF assms] .

theorem cmap_insert_room_returns_witness:
  "\<exists>(m :: nat cmap_impl) s m'. cmap_init 1 = Inr (m, s) \<and> cmap_insert m 7 42 s = Inr (m', s)"
proof -
  obtain m :: "nat cmap_impl" and s where m: "cmap_init 1 = Inr (m, s)" using cmap_init_returns by blast
  have "\<not> full m (idx1 m 42)" "ci_n m < ci_max_n m"
    using m by (auto simp: cmap_init_def cmap_impl_create_def Let_def zero_buckets_def full_def idx1_def
        bucket_idx_def cmap_find_empty_slot_protected_def CMAP_K_def calc_max_n_def CMAP_MAX_LOAD_def
        split: prod.splits if_splits)
  with cmap_insert_room_returns[of m 42 7 s] m show ?thesis by auto
qed

section \<open>Sessions\<close>

text \<open>C10. The handlers of both directions are memory safe: from a state whose reference counts agree
  with the tables, every packet leads to such a state again or to a crash other than the use of
  freed memory.\<close>

theorem handlers_memory_safe:
  assumes "gtp_ok st"
  shows "gtp_safe (handle_gtp st ctx) \<and> gtp_safe (handle_pgw_sgi st ctx)"
  using handle_gtp_safe[OF assms] handle_pgw_sgi_safe[OF assms] by blast

theorem handlers_memory_safe_witness:
  "gtp_safe (handle_gtp demo demo_ctx) \<and> gtp_safe (handle_pgw_sgi demo demo_ctx)"
  using handlers_memory_safe[of demo demo_ctx] by simp

text \<open>C11. The manager's initialisation returns, in a state that satisfies the invariant.\<close>

theorem gtp_manager_init_establishes:
  "\<exists>st. gtp_manager_init (gtp_static seed) = Inr st \<and> gtp_ok st"
  by (rule gtp_manager_init_ok)

text \<open>C12. A session that is announced by a Create Session Response and withdrawn by a Delete Session
  Response leaves no trace: the chains of both tables, the nodes and the tunnels are those from
  before, so nothing is leaked and nothing else is lost.\<close>

theorem session_create_delete_identity:
  assumes "gtp_ok st" and "pgw_fastpath st = 0"
    and "scan_session_response h packet = Inr s" and "ies_complete s"
    and "gtp_manager_find_pgw st (fl_nw_src (xc_flow ctx)) = int i"
    and "distinct [si_t4 s, si_t5 s, t2]"
    and "create_session_response st ctx h t2 packet = Inr (st1, ctx1)"
    and "delete_session_response st1 ctx2 t2 = Inr (st2, ctx3)"
  shows "gtp_view st2 = gtp_view st"
  by (rule session_leaves_no_trace[OF assms])

theorem session_create_delete_identity_witness:
  "\<exists>st1 ctx1 st2 ctx3. create_session_response demo demo_ctx demo_header 2 demo_packet = Inr (st1, ctx1) \<and>
     delete_session_response st1 demo_ctx 2 = Inr (st2, ctx3) \<and> gtp_view st2 = gtp_view demo"
proof -
  obtain st1 ctx1 st2 ctx3 where
    r: "create_session_response demo demo_ctx demo_header 2 demo_packet = Inr (st1, ctx1)"
      "delete_session_response st1 demo_ctx 2 = Inr (st2, ctx3)" by (rule demo_session_run)
  have "distinct [si_t4 demo_session, si_t5 demo_session, 2]" by (simp add: demo_session_def)
  from session_create_delete_identity[OF demo_fields(1) demo_fields(4) demo_scan demo_complete _ this r, of 0] r
  show ?thesis by auto
qed

text \<open>C13. Once a gateway has announced a session, every packet with one of its TEIDs goes to this
  gateway's port with its address and MAC, and every packet for the user's address goes to the
  gateway's SGi port; the invariant holds afterwards.\<close>

theorem session_packets_routed:
  assumes "gtp_ok st" and "pgw_fastpath st = 0"
    and "scan_session_response h packet = Inr s" and "ies_complete s"
    and "gtp_manager_find_pgw st (fl_nw_src (xc_flow ctx)) = int i"
    and "fl_nw_src (xc_flow ctx) \<noteq> 0" and "distinct [si_t4 s, si_t5 s, t2]"
    and "create_session_response st ctx h t2 packet = Inr (st1, ctx1)"
  shows "(\<forall>k \<in> {si_t4 s, si_t5 s, t2}. \<exists>st2. gtp_ok st2 \<and>
        forward_teid st1 c k = Inr (st2, output_to_pgw c (pgw_list st ! i))) \<and>
    (\<exists>st2. gtp_ok st2 \<and> forward_ueip st1 c (si_ueip s) = Inr (st2, output_to_sgi c (pgw_list st ! i)))"
  using session_routes[OF assms] by blast

theorem session_packets_routed_witness:
  "\<exists>st1 ctx1 st2. create_session_response demo demo_ctx demo_header 2 demo_packet = Inr (st1, ctx1) \<and>
     forward_teid st1 demo_ctx 5 = Inr (st2, output_to_pgw demo_ctx demo_pgw)"
proof -
  obtain st1 ctx1 where
    r: "create_session_response demo demo_ctx demo_header 2 demo_packet = Inr (st1, ctx1)"
    by (rule demo_session_run)
  have "distinct [si_t4 demo_session, si_t5 demo_session, 2]" by (simp add: demo_session_def)
  from session_packets_routed[OF demo_fields(1) demo_fields(4) demo_scan demo_complete _ _ this r, of 0 demo_ctx] r
  show ?thesis by (auto simp: demo_session_def)
qed

text \<open>C14. When the maps have not grown yet and the partitions of its keys are empty, a session can be
  announced and withdrawn: both handlers return.\<close>

theorem session_cycle_completes:
  assumes "gtp_ok st" and "pgw_fastpath st = 0"
    and "scan_session_response h packet = Inr s" and "ies_complete s"
    and "gtp_manager_find_pgw st (fl_nw_src (xc_flow ctx)) = int i" and "session_room st s t2"
  shows "\<exists>st1 ctx1 st2 ctx3. create_session_response st ctx h t2 packet = Inr (st1, ctx1) \<and>
    delete_session_response st1 ctx2 t2 = Inr (st2, ctx3)"
  by (rule session_cycle_returns[OF assms])

theorem session_cycle_completes_witness:
  "\<exists>st1 ctx1 st2 ctx3. create_session_response demo demo_ctx demo_header 2 demo_packet = Inr (st1, ctx1) \<and>
    delete_session_response st1 demo_ctx 2 = Inr (st2, ctx3)"
  using session_cycle_completes[OF demo_fields(1) demo_fields(4) demo_scan demo_complete _ demo_room,
      of demo_ctx 0 demo_ctx] by simp

section \<open>Messages\<close>

text \<open>C15. Parsing the header of a GTPv2-C message recovers its type, length and TEID and the
  position of the body. Of the 24-bit sequence number only the low 16 bits survive: the mask is
  applied to the word in network byte order.\<close>

theorem gtpc_header_round_trip:
  assumes "udp_packet packet pre (wire_gtpc mt ml teid seq sp @ body)"
  shows "parse_gtpc_msg_header packet =
    Inr (Some \<lparr>gc_version = 2, gc_has_teid = True, gc_message_type = mt,
               gc_message_length = ml, gc_teid = Some teid, gc_seq_num = seq AND 0xFFFF,
               gc_header_length = 12, gc_body_offset = length pre + 12\<rparr>)"
  by (rule parse_gtpc_wire[OF assms])

theorem gtpc_header_round_trip_witness:
  "parse_gtpc_msg_header demo_packet = Inr (Some demo_header)"
  using gtpc_header_round_trip[OF demo_udp] by (simp add: demo_header_def)

text \<open>C16. Scanning the information elements of a Create Session Response finds what an abstract
  reading of the list of elements finds, elements in bearer contexts included.\<close>

theorem session_scan_refines:
  assumes "pkt_data packet = pre @ wire_session ies @ post" and "\<forall>ie \<in> set ies. ie_ok ie"
  shows "session_scan packet (length pre) (int (length pre) + int (length (wire_session ies))) s =
    Inr (session_spec ies s)"
  by (rule session_scan_wire[OF assms])

theorem session_scan_refines_witness:
  "session_scan \<lparr>pkt_data = [0xFF] @ wire_session demo_ies @ [], pkt_l4_ofs = 0, pkt_l2_pad_size = 0\<rparr> 1
     (1 + int (length (wire_session demo_ies))) \<lparr>si_t4 = 0, si_t5 = 0, si_ueip = 0\<rparr> = Inr demo_session"
proof -
  have ok: "\<forall>ie \<in> set demo_ies. ie_ok ie"
    by (simp add: demo_ies_def bare_ok_def wire_ies_def wire_ie_def wire16_def)
  have spec: "session_spec demo_ies \<lparr>si_t4 = 0, si_t5 = 0, si_ueip = 0\<rparr> = demo_session" by code_simp
  show ?thesis
    using session_scan_refines[of "\<lparr>pkt_data = [0xFF] @ wire_session demo_ies @ [], pkt_l4_ofs = 0,
        pkt_l2_pad_size = 0\<rparr>" "[0xFF]" demo_ies "[]" "\<lparr>si_t4 = 0, si_t5 = 0, si_ueip = 0\<rparr>", OF _ ok]
    by (simp add: spec)
qed

section \<open>Gateways\<close>

text \<open>C17. While every gateway of the list is live, successive initial messages are spread over the
  gateways in turn: the k-th choice from now is the cursor plus k, modulo the number of gateways.\<close>

theorem gateway_round_robin:
  assumes "all_live st" and "0 < unat (pgw_end st)" and "unat (pgw_current st) \<le> unat (pgw_end st)"
  shows "fst (gtp_manager_get_pgw (get_pgw_times k st)) = (unat (pgw_current st) + k) mod unat (pgw_end st)"
  by (rule get_pgw_times_live[OF assms])

theorem gateway_round_robin_witness:
  "fst (gtp_manager_get_pgw (get_pgw_times 5 demo)) = 0"
  using gateway_round_robin[OF demo_all_live, of 5] by simp

text \<open>C18. A gateway with a new address is found under it after it has been added, with the ports and
  MACs it was added with, and every other slot of the list is unchanged.\<close>

theorem added_gateway_is_found:
  assumes "gtp_ok st" and "ip \<noteq> 0" and "gtp_manager_find_pgw st ip = - 1"
    and "gtp_manager_add_pgw st ip port eth sp se = Inr st'"
  shows "\<exists>i < MAX_PGW_PER_NODE. gtp_manager_find_pgw st' ip = int i \<and>
    pgw_list st' ! i = \<lparr>gtp_pgw_port = port, gtp_pgw_eth = eth, pgw_sgi_port = sp,
      pgw_sgi_eth = se, gtp_pgw_ip = ip\<rparr> \<and>
    (\<forall>j < MAX_PGW_PER_NODE. j \<noteq> i \<longrightarrow> pgw_list st' ! j = pgw_list st ! j)"
  by (rule add_pgw_find[OF assms])

theorem added_gateway_is_found_witness:
  "\<exists>i < MAX_PGW_PER_NODE. gtp_manager_find_pgw demo 0x0100000A = int i \<and> pgw_list demo ! i = demo_pgw"
proof -
  have "gtp_manager_find_pgw configured 0x0100000A = - 1"
    by (simp add: gtp_manager_find_pgw_def pgw_first_def)
  from added_gateway_is_found[OF configured_fields(1) _ this demo_run] show ?thesis
    by (auto simp: demo_pgw_def)
qed

text \<open>C19. Adding a gateway fails the assertion, and so stops the switch, exactly when all 1024 slots
  hold live gateways.\<close>

theorem add_gateway_aborts_iff_full:
  assumes "gtp_ok st"
  shows "gtp_manager_add_pgw st ip port eth sp se = Inl Assert_Fail \<longleftrightarrow>
    unat (pgw_end st) = MAX_PGW_PER_NODE \<and> all_live st"
  by (rule add_pgw_full[OF assms])

theorem add_gateway_aborts_iff_full_witness:
  "gtp_manager_add_pgw demo 5 1 2 3 4 \<noteq> Inl Assert_Fail"
  using add_gateway_aborts_iff_full[OF demo_fields(1), of 5 1 2 3 4] by (simp add: MAX_PGW_PER_NODE_def)

text \<open>C20. Tunnels name their gateway by its slot, and a deleted slot is the first to be reused: when a
  gateway of a list of live ones is replaced, the tunnels of the old gateway lead to the new one.\<close>

theorem replaced_gateway_inherits_tunnels:
  assumes "gtp_ok st" and "all_live st" and "gtp_manager_find_pgw st old_ip = int i"
  shows "\<exists>st'. gtp_manager_add_pgw (gtp_manager_del_pgw st old_ip) ip port eth sp se = Inr st' \<and>
    pgw_list st' ! i = \<lparr>gtp_pgw_port = port, gtp_pgw_eth = eth, pgw_sgi_port = sp,
      pgw_sgi_eth = se, gtp_pgw_ip = ip\<rparr> \<and> tunnels st' = tunnels st"
  by (rule pgw_slot_reuse[OF assms])

theorem replaced_gateway_inherits_tunnels_witness:
  "\<exists>st'. gtp_manager_add_pgw (gtp_manager_del_pgw demo 0x0100000A) 0x0200000A 5 1 6 2 = Inr st' \<and>
    gtp_pgw_ip (pgw_list st' ! 0) = 0x0200000A \<and> tunnels st' = tunnels demo"
  using replaced_gateway_inherits_tunnels[OF demo_fields(1) demo_all_live demo_find, of "0x0200000A" 5 1 6 2]
  by auto

section \<open>How the switch can be crashed\<close>

text \<open>C21. A Delete Session Response for a TEID that is in no session dereferences a null pointer.\<close>

theorem delete_unknown_session_crashes:
  assumes "gtp_ok st" and "tab_chain teid_part (teid2pgw st) t2 = []"
  shows "delete_session_response st ctx t2 = Inl Null_Deref"
  by (rule delete_unknown_session[OF assms])

theorem delete_unknown_session_crashes_witness:
  "delete_session_response demo demo_ctx 2 = Inl Null_Deref"
proof -
  have "tab_chain teid_part (teid2pgw demo) 2 = []"
    using booted_fields(7)[OF teid_part_bound, of 2]
    by (simp add: demo_tables tab_chain_def part_chain_def part_empty_def)
  from delete_unknown_session_crashes[OF demo_fields(1) this] show ?thesis .
qed

text \<open>C22. A GTP packet whose UDP payload is empty dereferences a null pointer in either parser.\<close>

theorem empty_payload_crashes:
  assumes "dp_packet_get_udp_payload packet = Some (dp_packet_size packet)"
  shows "parse_gtpc_msg_header packet = Inl Null_Deref \<and> parse_gtpu_message packet = Inl Null_Deref"
  using parse_empty_payload[OF assms] by blast

theorem empty_payload_crashes_witness:
  "parse_gtpc_msg_header \<lparr>pkt_data = replicate 42 0, pkt_l4_ofs = 34, pkt_l2_pad_size = 0\<rparr> = Inl Null_Deref"
proof -
  let ?p = "\<lparr>pkt_data = replicate 42 0, pkt_l4_ofs = 34, pkt_l2_pad_size = 0\<rparr>"
  have "dp_packet_get_udp_payload ?p = Some (dp_packet_size ?p)" by code_simp
  from empty_payload_crashes[OF this] show ?thesis by blast
qed



section \<open>Hashing\<close>

text \<open>Equal hashes of keys mean equal keys: \<open>hash_int\<close> is injective in the key for every basis, so
  a chain of the session tables never mixes keys, and the generator behind the bases never reaches
  the state zero, where it would stay.\<close>

theorem key_hash_collision_free:
  "inj (\<lambda>x. hash_int x basis) \<and> inj random_next \<and> (\<forall>seed. seed \<noteq> 0 \<longrightarrow> fst (random_next seed) \<noteq> 0)"
  using inj_hash_int inj_random_next random_next_nonzero by blast

theorem key_hash_collision_free_witness:
  "hash_int 1 0 \<noteq> hash_int 2 0 \<and> fst (random_next 1) \<noteq> 0"
  using key_hash_collision_free[of 0] by (auto dest: injD)

text \<open>C24. There is a map that satisfies the invariant and holds a node which \<open>cmap_find\<close> finds and
  \<open>cmap_find_protected\<close>, the variant for writers, does not.\<close>

theorem cmap_find_protected_misses:
  "\<exists>impl :: nat cmap_impl. cmap_inv impl \<and> cmap_find impl 1 = Some [1] \<and> cmap_find_protected impl 1 = []"
  using six_nodes_inv six_nodes_missed by blast

section \<open>The switch\<close>





text \<open>C27. A gateway that is added without its MAC gets the bytes that happened to be on the stack.\<close>

theorem missing_mac_is_stack_garbage:
  assumes "gp_operation (collect_params ofpacts (gtp_params_init stack1 stack2)) = 1"
    and "\<forall>g. Inl g \<in> set ofpacts \<longrightarrow> \<not> sets_eth g" and "gtp_ok st"
    and "handle_flow_mod None (Inr ofpacts) install stack1 stack2 st sw = Inr (error, reported, st', sw')"
  shows "\<exists>i < MAX_PGW_PER_NODE. gtp_pgw_eth (pgw_list st' ! i) = stack1"
proof -
  let ?p = "collect_params ofpacts (gtp_params_init stack1 stack2)"
  have "gp_gtp_pgw_eth ?p = stack1"
    using collect_params_eth[OF assms(2)] by (simp add: gtp_params_init_def)
  moreover have "gtp_manager_add_pgw st (gp_gtp_pgw_ip ?p) (gp_gtp_pgw_port ?p) (gp_gtp_pgw_eth ?p)
      (gp_pgw_sgi_port ?p) (gp_pgw_sgi_eth ?p) = Inr st'"
    using assms(1,4) by (auto simp: handle_flow_mod_def Let_def operate_gtp_def rbind_eq_Inr)
  ultimately show ?thesis using add_pgw_slot[OF assms(3)] by fastforce
qed

theorem missing_mac_is_stack_garbage_witness:
  "\<exists>st' i. handle_flow_mod (None :: unit option)
      (Inr ([Inl (OFPACT_OPERATE_GTP 1), Inl (OFPACT_GTP_PGW_IP 9)] :: (gtp_ofpact + unit) list))
      (\<lambda>_ n. (None, n)) 0xDEAD 2 configured () = Inr (None, False, st', ()) \<and>
    gtp_pgw_eth (pgw_list st' ! i) = 0xDEAD"
proof -
  let ?as = "[Inl (OFPACT_OPERATE_GTP 1), Inl (OFPACT_GTP_PGW_IP 9)] :: (gtp_ofpact + unit) list"
  obtain st' where run: "handle_flow_mod (None :: unit option) (Inr ?as) (\<lambda>_ n. (None, n)) 0xDEAD 2 configured () =
      Inr (None, False, st', ())"
    by (simp add: handle_flow_mod_def collect_params_def gtp_params_init_def operate_gtp_def
        gtp_manager_add_pgw_def pgw_first_def MAX_PGW_PER_NODE_def)
  have "gp_operation (collect_params ?as (gtp_params_init 0xDEAD 2)) = 1"
    by (simp add: collect_params_def gtp_params_init_def)
  from missing_mac_is_stack_garbage[OF this _ _ run] run show ?thesis by auto
qed

section \<open>Actions on the wire and as text\<close>

text \<open>C28. The table of action encodings that the build generates is well formed: every entry holds its
  header and its argument within its length, its length is a multiple of eight, and looking up its
  headers finds this entry and no other.\<close>

theorem raw_action_table_well_formed:
  "\<forall>inst \<in> set all_raw_instances. inst_ok inst \<and> ofpact_decode_lookup (ri_hdrs inst) = Some inst"
  using all_raw_instances_ok ofpact_decode_lookup_inst by blast

theorem raw_action_table_well_formed_witness:
  "\<exists>inst. inst \<in> set all_raw_instances \<and> ri_raw inst = OFPAT_RAW10_GTP_TEID \<and> ofpact_decode_lookup (ri_hdrs inst) = Some inst"
proof -
  have "(OFPAT_RAW10_GTP_TEID, [(OF, 1, Exactly, 30)], Basic Uint32) \<in> set raw_action_specs"
    by (simp add: raw_action_specs_def gtp_actions_10_def)
  from raw_lookup_std(3)[OF this, of 1] raw_action_table_well_formed show ?thesis
    by (intro exI[of _ "extract_instance OFPAT_RAW10_GTP_TEID OF 30 (Basic Uint32) 1"])
      (simp add: extract_instance_def split: prod.splits)
qed

text \<open>C29. An action of any raw type that is appended to a message and taken off again is the same
  action with the same argument, cut to the argument's width, and the rest of the message is left.\<close>

theorem raw_action_round_trip:
  assumes "ofpact_raw_lookup v raw = Inr inst" and "ofpact_put_raw v raw arg = Inr bs"
  shows "ofpact_pull_raw (bs @ rest) v = Inr (Inr (raw, take_bit (8 * ri_arg_len inst) arg, bs, rest))"
  by (rule ofpact_pull_put[OF assms])

theorem raw_action_round_trip_witness:
  "\<exists>bs. ofpact_put_raw 1 OFPAT_RAW10_GTP_TEID 0x12345678 = Inr bs \<and>
     ofpact_pull_raw (bs @ [1, 2, 3]) 1 = Inr (Inr (OFPAT_RAW10_GTP_TEID, 0x12345678, bs, [1, 2, 3]))"
proof -
  let ?i = "extract_instance OFPAT_RAW10_GTP_TEID OF 30 (Basic Uint32) 1"
  have "(OFPAT_RAW10_GTP_TEID, [(OF, 1, Exactly, 30)], Basic Uint32) \<in> set raw_action_specs"
    by (simp add: raw_action_specs_def gtp_actions_10_def)
  from raw_lookup_std(1)[OF this, of 1] have look: "ofpact_raw_lookup 1 OFPAT_RAW10_GTP_TEID = Inr ?i" by simp
  moreover from look obtain bs where put: "ofpact_put_raw 1 OFPAT_RAW10_GTP_TEID 0x12345678 = Inr bs"
    by (simp add: ofpact_put_raw_def ofpact_put_inst_def extract_instance_def Let_def)
  moreover have "ri_arg_len ?i = 4" by (simp add: extract_instance_def Let_def)
  ultimately show ?thesis using raw_action_round_trip[OF look put, of "[1, 2, 3]"] by simp
qed


text \<open>C31. A message with a GTP action cannot be sent with OpenFlow 1.5: what the encoder writes, the
  decoder refuses, with a bad length for \<open>handle_gtp\<close>, whose number is that of another action there,
  and with a bad type for all others.\<close>

theorem gtp_actions_refused_in_of15:
  "\<exists>bs. ofpacts_put_openflow_actions (a # ofpacts) 6 = Inr bs \<and>
     ofpacts_decode decode_other 6 bs =
       Inr (Inl (case a of OFPACT_HANDLE_GTP raw \<Rightarrow> OFPBAC_BAD_LEN | _ \<Rightarrow> OFPBAC_BAD_TYPE))"
  by (rule ofpacts_decode_of15_rejects)

text \<open>C32. The text of a list of GTP actions, as the switch prints it, parses to this list, with the raw
  types of OpenFlow 1.0.\<close>

theorem actions_text_round_trip:
  "ofpacts_parse (ofpacts_format as) = Some (Inr (Inr (map (with_raw OFP10_VERSION) as)))"
  by (rule ofpacts_parse_format)

text \<open>C33. An opening parenthesis that is not closed sends the parser past the end of the text: any GTP
  action with an argument in parentheses does, when its argument is well formed.\<close>

theorem unclosed_parenthesis_overruns:
  assumes "lower_name key" and "CHR ''('' \<notin> set v" and "CHR '')'' \<notin> set v"
    and "ofpact_parse_gtp key = Some parse" and "parse v = Inr (Inr a)"
  shows "ofpacts_parse (key @ CHR ''('' # v) = Some (Inl Wild_Pointer)"
  by (rule parse_unbalanced_text[OF assms])

theorem unclosed_parenthesis_overruns_witness:
  "ofpacts_parse ''ovs_id(7'' = Some (Inl Wild_Pointer)"
proof -
  have "parse_OVS_ID (fmt_d (unat (7 :: u16))) = Inr (Inr (OFPACT_OVS_ID 7))"
    by (simp only: parse_OVS_ID_def str_to_u16_fmt map_sum.simps)
  moreover have "fmt_d (unat (7 :: u16)) = ''7''" by code_simp
  moreover have "ofpact_parse_gtp ''ovs_id'' = Some parse_OVS_ID" by (simp add: text_simps)
  ultimately show ?thesis
    using unclosed_parenthesis_overruns[OF lower_names(6), of "''7''" parse_OVS_ID] by simp
qed

section \<open>The library components\<close>

text \<open>C34. Updating an Internet checksum for words that change, as the header-rewriting actions do, gives
  the checksum that is computed afresh over the changed data. The data that is all zeros is the one
  exception.\<close>

theorem checksum_update_is_recomputation:
  assumes "length (pre @ bytes16 ms @ post) \<le> 2 ^ 17" and "even (length pre)" and "length ms = length ms'"
    and "word_sum (pre @ bytes16 ms' @ post) \<noteq> 0"
  shows "recalc_csum48 (csum (pre @ bytes16 ms @ post)) ms ms' = csum (pre @ bytes16 ms' @ post)"
  by (rule recalc_csum48_csum[OF assms])

theorem checksum_update_is_recomputation_witness:
  "recalc_csum48 (csum ([1, 2] @ bytes16 [0x1234, 5, 6] @ [7])) [0x1234, 5, 6] [0xFFFF, 0, 9] =
     csum ([1, 2] @ bytes16 [0xFFFF, 0, 9] @ [7])"
  by (rule checksum_update_is_recomputation) (simp_all add: bytes16_def le16_def)



text \<open>C36. The byte queue of the OpenFlow and JSON streams is a bounded first-in first-out list: any
  sequence of puts and gets returns the same bytes, and fails the same assertion, as it does on the
  list of its bytes. The free-running 32-bit head and tail may wrap around.\<close>

theorem byteq_is_bounded_list:
  assumes "byteq_ok q"
  shows "case queue_run (list_put (unat (bq_size q))) list_get (byteq_list q) ops of
      Inl f \<Rightarrow> queue_run byteq_put byteq_get q ops = Inl f
    | Inr (out, xs) \<Rightarrow> \<exists>q'. queue_run byteq_put byteq_get q ops = Inr (out, q') \<and> byteq_ok q' \<and> byteq_list q' = xs"
  by (rule byteq_fifo.run_refines[OF assms])

theorem byteq_is_bounded_list_witness:
  "\<exists>q q'. byteq_init (replicate 4 0) 4 = Inr q \<and>
     queue_run byteq_put byteq_get q [Put 1, Put 2, Get, Put 3] = Inr ([1], q') \<and> byteq_list q' = [2, 3]"
proof -
  obtain q where q: "byteq_init (replicate 4 0) 4 = Inr q" "byteq_ok q" "byteq_list q = []" "bq_size q = 4"
    using byteq_init_ok[of 2 4 "replicate 4 0"] by auto
  moreover have "queue_run (list_put 4) list_get [] [Put 1, Put 2, Get, Put 3 :: u8 queue_op] = Inr ([1], [2, 3])"
    by (simp add: list_put_def list_get_def)
  ultimately show ?thesis
    using byteq_is_bounded_list[OF q(2), of "[Put 1, Put 2, Get, Put 3]"] by (simp del: queue_run.simps) blast
qed

text \<open>C37. The heap is a priority queue: any legal sequence of insertions, removals and changes of
  priority on an empty heap runs without touching memory outside the array, holds the nodes and
  priorities that the sequence describes, and its first node has the greatest priority.\<close>

theorem heap_is_priority_queue:
  assumes "pq_legal_run Map.empty cs"
  shows "\<exists>h. heap_commands (heap_init nodes) cs = Inr h \<and> heap_map h = foldl pq_effect Map.empty cs \<and>
     (heap_is_empty h \<or> (\<exists>a p. heap_max h = Inr a \<and> heap_map h a = Some p \<and>
        (\<forall>b q. heap_map h b = Some q \<longrightarrow> q \<le> p)))"
proof -
  obtain h where "heap_commands (heap_init nodes) cs = Inr h" "heap_ok h" "heap_map h = foldl pq_effect Map.empty cs"
    using heap_queue.commands_refine[OF heap_init_ok(1), of nodes cs] assms by (auto simp: heap_init_ok)
  with heap_max_ok[of h] show ?thesis by blast
qed

theorem heap_is_priority_queue_witness:
  "\<exists>h. heap_commands (heap_init (\<lambda>_. \<lparr>hn_idx = 0, hn_priority = 0\<rparr>))
       [PQ_Insert 5 10, PQ_Insert 6 30, PQ_Insert 7 20, PQ_Change 5 40, PQ_Remove 6] = Inr h \<and>
     heap_map h = [5 \<mapsto> 40, 7 \<mapsto> 20]"
proof -
  let ?cs = "[PQ_Insert 5 10, PQ_Insert 6 30, PQ_Insert 7 20, PQ_Change 5 40, PQ_Remove 6]"
  have "pq_legal_run Map.empty ?cs" by simp
  from heap_is_priority_queue[OF this, of "\<lambda>_. \<lparr>hn_idx = 0, hn_priority = 0\<rparr>"]
  show ?thesis by (elim exE conjE) (intro exI conjI, assumption, auto simp: fun_eq_iff)
qed



text \<open>C39. The timer of the connection state machine is exact: with a negative timeout nothing happens
  before the end of time; otherwise nothing happens before the timeout, and the state machine acts as
  soon as it has passed, if the wait was not cut to \<^verbatim>\<open>INT_MAX\<close>.\<close>

theorem reconnect_timer_exact:
  assumes "reconnect_timeout fsm now = Inr t" and "now \<le> later" and "later < LLONG_MAX"
  shows "if t < 0 \<or> later < now + t then reconnect_run fsm later = Inr (RECONNECT_NONE, fsm)
    else t < INT_MAX \<longrightarrow> (\<exists>action fsm'. reconnect_run fsm later = Inr (action, fsm') \<and> action \<noteq> RECONNECT_NONE)"
  using reconnect_timeout_exact[OF assms(1), of later] assms(2,3) by auto

theorem reconnect_timer_exact_witness:
  "reconnect_run (reconnect_enable (reconnect_create 0) 5) 5 \<noteq>
     Inr (RECONNECT_NONE, reconnect_enable (reconnect_create 0) 5)"
proof -
  have "reconnect_timeout (reconnect_enable (reconnect_create 0) 5) 5 = Inr 0"
    by (simp add: reconnect_timeout_def reconnect_deadline_def reconnect_enable_def reconnect_create_def
        reconnect_may_retry_def UINT_MAX_pos LLONG_MIN_def LLONG_MAX_def)
  from reconnect_timer_exact[OF this, of 5] show ?thesis by (auto simp: LLONG_MAX_def INT_MAX_def)
qed

text \<open>The backoff doubles with every failed attempt, from the minimum up to the maximum: after
  \<open>k + 1\<close> failures in a row it is the maximum or the minimum times \<open>2 ^ k\<close>, and never less than the
  smaller of them.\<close>

theorem reconnect_backoff_doubles:
  assumes "rc_state fsm = S_BACKOFF" and "rc_max_tries fsm = UINT_MAX" and "rc_backoff fsm = 0"
    and "1 \<le> rc_min_backoff fsm" and "rc_min_backoff fsm \<le> rc_max_backoff fsm" and "length ts = Suc k"
  shows "let fsm' = foldl reconnect_connect_failed fsm ts; b = rc_min_backoff fsm * 2 ^ k; m = rc_max_backoff fsm
    in rc_state fsm' = S_BACKOFF \<and> (rc_backoff fsm' = m \<or> rc_backoff fsm' = b) \<and>
       min m b \<le> rc_backoff fsm' \<and> rc_backoff fsm' \<le> m"
  using connect_failures[OF assms] by (auto simp: Let_def)

theorem reconnect_backoff_doubles_witness:
  "rc_backoff (foldl reconnect_connect_failed (reconnect_enable (reconnect_create 0) 0) [1, 2, 3]) \<in> {4000, 8000}"
proof -
  let ?fsm = "reconnect_enable (reconnect_create 0) 0"
  have f: "rc_state ?fsm = S_BACKOFF" "rc_max_tries ?fsm = UINT_MAX" "rc_backoff ?fsm = 0"
    "rc_min_backoff ?fsm = 1000" "rc_max_backoff ?fsm = 8000"
    by (simp_all add: reconnect_enable_def reconnect_create_def reconnect_may_retry_def UINT_MAX_pos
        RECONNECT_DEFAULT_MIN_BACKOFF_def RECONNECT_DEFAULT_MAX_BACKOFF_def)
  from reconnect_backoff_doubles[OF f(1-3), of "[1, 2, 3]" 2] f(4,5) show ?thesis
    by (auto simp: Let_def simp del: foldl_Cons foldl_Nil)
qed

text \<open>C40. Asking for the default maximum backoff while backing off cancels the backoff: it becomes 0 and
  the next \<open>reconnect_run\<close> asks to connect at once.\<close>

theorem default_backoff_cancels_waiting:
  assumes "rc_state fsm = S_BACKOFF" and "0 < rc_backoff fsm" and "rc_state_entered fsm \<noteq> LLONG_MIN"
    and "rc_state_entered fsm \<le> now"
  shows "let fsm' = reconnect_set_backoff fsm min_backoff 0
    in rc_backoff fsm' = 0 \<and> 1000 \<le> rc_min_backoff fsm' \<and> reconnect_run fsm' now = Inr (RECONNECT_CONNECT, fsm')"
  using assms by (simp add: reconnect_set_backoff_def Let_def reconnect_run_def reconnect_deadline_def)

theorem default_backoff_cancels_waiting_witness:
  "\<exists>fsm. rc_state fsm = S_BACKOFF \<and> rc_backoff fsm = 1000 \<and> rc_backoff (reconnect_set_backoff fsm 0 0) = 0"
proof -
  let ?fsm = "(reconnect_create 0)\<lparr>rc_state := S_BACKOFF, rc_backoff := 1000\<rparr>"
  from default_backoff_cancels_waiting[of ?fsm 0 0] show ?thesis
    by (intro exI[of _ ?fsm]) (simp add: Let_def reconnect_create_def LLONG_MIN_def)
qed

end
